(* ===== verification/Prelude.thy ===== *)
theory Prelude
  imports Main "HOL-Library.Word" "HOL-Library.Monad_Syntax"
begin

text \<open>
  Shared vocabulary of the development: the machine integer types of
  \<^verbatim>\<open>src/lib/types.h\<close>, the kernel error codes of \<^verbatim>\<open>src/lib/error.h\<close>, the
  rounding macros, the bit primitives of \<^verbatim>\<open>src/lib/atomic.h\<close>, and the generic lemmas on
  options, lists and words that the component theories use.

  Conventions.  A computation that can reach \<^verbatim>\<open>panic\<close> or fail an \<^verbatim>\<open>assert\<close> (both stop
  the machine, \<^verbatim>\<open>src/kernel/debug/assert.h\<close>) has an option type and \<^const>\<open>None\<close> is the
  stopped machine.  A C function that returns 0 or a negative error code has a result of type
  \<^typ>\<open>'e + 'a\<close> with the error on the left.
\<close>

unbundle bit_operations_syntax

named_theorems kdefs \<open>definitions unfolded by the component proofs\<close>
named_theorems kinv \<open>invariant preservation of operations\<close>

section \<open>Machine integers\<close>

type_synonym u8 = "8 word"
type_synonym u16 = "16 word"
type_synonym u32 = "32 word"
type_synonym u64 = "64 word"

section \<open>Kernel error codes\<close>

datatype kerr =
    E_UNSPECIFIED | E_BAD_PROCESS | E_INVAL | E_NO_MEM | E_NO_FREE_PROCESS | E_FAULT
  | E_SWAP_FAULT | E_INVAL_ELF | E_KILLED | E_PANIC | E_TIMEOUT | E_TOO_BIG | E_NO_DEV
  | E_NA_DEV | E_BUSY | E_NOENT | E_ISDIR | E_NOTDIR | E_XDEV | E_UNIMP | E_SEEK
  | E_MAX_OPEN | E_EXISTS | E_NOTEMPTY

fun errno :: "kerr \<Rightarrow> int" where
  "errno E_UNSPECIFIED = 1"
| "errno E_BAD_PROCESS = 2"
| "errno E_INVAL = 3"
| "errno E_NO_MEM = 4"
| "errno E_NO_FREE_PROCESS = 5"
| "errno E_FAULT = 6"
| "errno E_SWAP_FAULT = 7"
| "errno E_INVAL_ELF = 8"
| "errno E_KILLED = 9"
| "errno E_PANIC = 10"
| "errno E_TIMEOUT = 11"
| "errno E_TOO_BIG = 12"
| "errno E_NO_DEV = 13"
| "errno E_NA_DEV = 14"
| "errno E_BUSY = 15"
| "errno E_NOENT = 16"
| "errno E_ISDIR = 17"
| "errno E_NOTDIR = 18"
| "errno E_XDEV = 19"
| "errno E_UNIMP = 20"
| "errno E_SEEK = 21"
| "errno E_MAX_OPEN = 22"
| "errno E_EXISTS = 23"
| "errno E_NOTEMPTY = 24"

definition MAX_ERROR :: int where
  "MAX_ERROR = 24"

text \<open>The integer a C function returns: 0 for success, minus the code for an error.\<close>

definition ret_code :: "kerr + 'a \<Rightarrow> int" where
  "ret_code r = (case r of Inl e \<Rightarrow> - errno e | Inr _ \<Rightarrow> 0)"

lemma errno_bounds: "1 \<le> errno e \<and> errno e \<le> MAX_ERROR"
  by (cases e) (simp_all add: MAX_ERROR_def)

lemma errno_pos [simp]: "0 < errno e" "errno e \<noteq> 0"
  using errno_bounds [of e] by simp_all

lemma ret_code_simps [simp]: "ret_code (Inl e) = - errno e" "ret_code (Inr x) = 0"
  by (simp_all add: ret_code_def)

lemma ret_code_eq_0 [simp]: "ret_code r = 0 \<longleftrightarrow> (\<exists>x. r = Inr x)"
  by (cases r) simp_all

section \<open>Assertions\<close>

definition kassert :: "bool \<Rightarrow> unit option" where
  "kassert b = (if b then Some () else None)"

lemma kassert_simps [simp]: "kassert True = Some ()" "kassert False = None"
  by (simp_all add: kassert_def)

lemma kassert_bind_Some [simp]:
  "(kassert b \<bind> f = Some r) \<longleftrightarrow> b \<and> f () = Some r"
  by (cases b) simp_all

lemma kassert_bind_None [simp]:
  "(kassert b \<bind> f = None) \<longleftrightarrow> (b \<longrightarrow> f () = None)"
  by (cases b) simp_all

lemma bind_Some_conv: "(m \<bind> f = Some r) \<longleftrightarrow> (\<exists>x. m = Some x \<and> f x = Some r)"
  by (cases m) simp_all

lemma kassert_True_bind [simp]: "b \<Longrightarrow> kassert b \<bind> f = f ()"
  by simp

section \<open>Rounding and extrema macros\<close>

definition MIN_c :: "'a::linorder \<Rightarrow> 'a \<Rightarrow> 'a" where
  "MIN_c a b = (if a \<le> b then a else b)"

definition MAX_c :: "'a::linorder \<Rightarrow> 'a \<Rightarrow> 'a" where
  "MAX_c a b = (if a \<le> b then b else a)"

definition ROUNDDOWN :: "u32 \<Rightarrow> u32 \<Rightarrow> u32" where
  "ROUNDDOWN a n = a - a mod n"

definition ROUNDUP :: "u32 \<Rightarrow> u32 \<Rightarrow> u32" where
  "ROUNDUP a n = ROUNDDOWN (a + n - 1) n"

definition ROUNDUP_DIV :: "u32 \<Rightarrow> u32 \<Rightarrow> u32" where
  "ROUNDUP_DIV a n = (a + n - 1) div n"

lemma MIN_c_min: "MIN_c a b = min a b"
  by (simp add: MIN_c_def min_def)

lemma MAX_c_max: "MAX_c a b = max a b"
  by (simp add: MAX_c_def max_def)

lemma unat_ROUNDDOWN: "unat (ROUNDDOWN a n) = unat a - unat a mod unat n"
proof -
  have "a mod n \<le> a" by (simp add: word_le_nat_alt unat_mod)
  then show ?thesis by (simp add: ROUNDDOWN_def unat_sub unat_mod)
qed

lemma unat_ROUNDDOWN_div: "unat (ROUNDDOWN a n) = unat a div unat n * unat n"
  by (simp add: unat_ROUNDDOWN minus_mod_eq_div_mult)

lemma unat_add_no_wrap: "unat a + unat b < 2 ^ 32 \<Longrightarrow> unat (a + b :: u32) = unat a + unat b"
  by (simp add: unat_word_ariths)

lemma unat_ROUNDUP:
  assumes "n \<noteq> 0" and "unat a + unat n \<le> 2 ^ 32"
  shows "unat (ROUNDUP a n) = (unat a + unat n - 1) div unat n * unat n"
proof -
  have n: "1 \<le> unat n" using assms(1) by (simp add: Suc_le_eq unat_gt_0)
  have eq: "a + n - 1 = a + (n - 1)" by simp
  have "unat (n - 1) = unat n - 1" using assms(1)
    by (metis unat_minus_one)
  moreover have "unat a + (unat n - 1) < 2 ^ 32" using assms(2) n by linarith
  ultimately have "unat (a + n - 1) = unat a + unat n - 1"
    unfolding eq using unat_add_no_wrap [of a "n - 1"] n by simp
  then show ?thesis by (simp add: ROUNDUP_def unat_ROUNDDOWN_div)
qed

lemma mod_less_sum:
  "a < s \<Longrightarrow> b < s \<Longrightarrow> (a + b) mod s = (if a + b < s then a + b else a + b - s)" for a b s :: nat
  by (simp add: mod_if)

section \<open>Bit primitives on a flag word\<close>

definition set_bit_w :: "nat \<Rightarrow> u32 \<Rightarrow> u32" where
  "set_bit_w nr w = w OR push_bit nr 1"

definition clear_bit_w :: "nat \<Rightarrow> u32 \<Rightarrow> u32" where
  "clear_bit_w nr w = w AND NOT (push_bit nr 1)"

definition test_bit_w :: "nat \<Rightarrow> u32 \<Rightarrow> bool" where
  "test_bit_w nr w \<longleftrightarrow> bit w nr"

lemma test_set_bit_w [simp]:
  "test_bit_w m (set_bit_w n w) \<longleftrightarrow> m = n \<and> m < 32 \<or> test_bit_w m w"
  by (auto simp: test_bit_w_def set_bit_w_def bit_simps)

lemma test_clear_bit_w [simp]:
  "test_bit_w m (clear_bit_w n w) \<longleftrightarrow> m \<noteq> n \<and> test_bit_w m w"
  by (auto simp: test_bit_w_def clear_bit_w_def bit_simps dest: bit_imp_le_length)

lemma test_bit_w_0 [simp]: "\<not> test_bit_w m 0"
  by (simp add: test_bit_w_def)

text \<open>A signed 32-bit integer is an integer between \<open>- 2 ^ 31\<close> and \<open>2 ^ 31 - 1\<close>; results of arithmetic wrap.\<close>

definition i32 :: "int \<Rightarrow> int" where "i32 x = sint (word_of_int x :: u32)"

lemma i32_idem [simp]: "i32 (i32 x + y) = i32 (x + y)"
proof -
  have "word_of_int (sint (word_of_int x :: u32) + y) = (word_of_int (x + y) :: u32)"
    by (simp only: of_int_add of_int_sint scast_id id_apply)
  then show ?thesis by (simp add: i32_def)
qed

lemma i32_id: "- (2 ^ 31) \<le> x \<Longrightarrow> x < 2 ^ 31 \<Longrightarrow> i32 x = x"
  by (simp add: i32_def sint_sbintrunc' signed_take_bit_int_eq_self)

section \<open>Lists\<close>

text \<open>The first entry of a linked list and the entry after a given one, \<^const>\<open>None\<close> for the list head.\<close>

fun next_of :: "'a list \<Rightarrow> 'a \<Rightarrow> 'a option" where
  "next_of [] x = None"
| "next_of (y # ys) x = (if x = y then (case ys of [] \<Rightarrow> None | z # _ \<Rightarrow> Some z) else next_of ys x)"

definition list_first :: "'a list \<Rightarrow> 'a option" where
  "list_first xs = (case xs of [] \<Rightarrow> None | x # _ \<Rightarrow> Some x)"

lemma set_remove1_distinct: "distinct xs \<Longrightarrow> set (remove1 x xs) = set xs - {x}"
  by simp

lemma remove1_split:
  "x \<notin> set xs \<Longrightarrow> remove1 x (xs @ x # ys) = xs @ ys"
  by (simp add: remove1_append)

lemma distinct_in_split:
  assumes "x \<in> set zs" "distinct zs"
  obtains xs ys where "zs = xs @ x # ys" "x \<notin> set xs" "x \<notin> set ys"
proof -
  from assms(1) obtain xs ys where "zs = xs @ x # ys" by (metis split_list)
  with assms(2) show ?thesis by (auto intro: that)
qed

lemma take_min_length: "take (min n (length xs)) xs = take n xs"
  by (cases "n \<le> length xs") (simp_all add: min_def)

end
