(* ===== verification/Klist.thy ===== *)
theory Klist
  imports Prelude
begin

text \<open>
  The intrusive doubly linked rings of \<^verbatim>\<open>src/lib/list.h\<close>.  A heap of link cells gives every
  entry its \<^verbatim>\<open>prev\<close> and \<^verbatim>\<open>next\<close> pointer; the operations are the pointer assignments of
  the source.  The predicate \<open>ring h head xs\<close> says that the cells reachable from \<open>head\<close> form a
  ring through the entries \<open>xs\<close>.  The lemmas show that each operation acts on the sequence
  \<open>xs\<close> as a list function; the other theories keep a kernel list as that sequence.
\<close>

section \<open>Cells and operations\<close>

record 'a lheap =
  le_prev :: "'a \<Rightarrow> 'a"
  le_next :: "'a \<Rightarrow> 'a"

definition list_init :: "'a lheap \<Rightarrow> 'a \<Rightarrow> 'a lheap" where
  "list_init h entry =
     h\<lparr>le_prev := (le_prev h)(entry := entry), le_next := (le_next h)(entry := entry)\<rparr>"

definition raw_list_add :: "'a lheap \<Rightarrow> 'a \<Rightarrow> 'a \<Rightarrow> 'a \<Rightarrow> 'a lheap" where
  "raw_list_add h entry prv nxt =
     (let h1 = h\<lparr>le_prev := (le_prev h)(nxt := entry)\<rparr>;
          h2 = h1\<lparr>le_next := (le_next h1)(prv := entry)\<rparr>;
          h3 = h2\<lparr>le_prev := (le_prev h2)(entry := prv)\<rparr>
      in h3\<lparr>le_next := (le_next h3)(entry := nxt)\<rparr>)"

definition raw_list_del :: "'a lheap \<Rightarrow> 'a \<Rightarrow> 'a \<Rightarrow> 'a lheap" where
  "raw_list_del h prv nxt =
     (let h1 = h\<lparr>le_next := (le_next h)(prv := nxt)\<rparr>
      in h1\<lparr>le_prev := (le_prev h1)(nxt := prv)\<rparr>)"

definition list_add_after :: "'a lheap \<Rightarrow> 'a \<Rightarrow> 'a \<Rightarrow> 'a lheap" where
  "list_add_after h head entry = raw_list_add h entry head (le_next h head)"

definition list_add :: "'a lheap \<Rightarrow> 'a \<Rightarrow> 'a \<Rightarrow> 'a lheap" where
  "list_add h head entry = list_add_after h head entry"

definition list_add_before :: "'a lheap \<Rightarrow> 'a \<Rightarrow> 'a \<Rightarrow> 'a lheap" where
  "list_add_before h head entry = raw_list_add h entry (le_prev h head) head"

definition list_del :: "'a lheap \<Rightarrow> 'a \<Rightarrow> 'a lheap" where
  "list_del h entry = raw_list_del h (le_prev h entry) (le_next h entry)"

definition list_del_init :: "'a lheap \<Rightarrow> 'a \<Rightarrow> 'a lheap" where
  "list_del_init h entry = list_init (list_del h entry) entry"

definition list_empty :: "'a lheap \<Rightarrow> 'a \<Rightarrow> bool" where
  "list_empty h head \<longleftrightarrow> le_next h head = head"

definition list_next :: "'a lheap \<Rightarrow> 'a \<Rightarrow> 'a" where
  "list_next h entry = le_next h entry"

definition list_prev :: "'a lheap \<Rightarrow> 'a \<Rightarrow> 'a" where
  "list_prev h entry = le_prev h entry"

lemmas list_ops_defs =
  list_init_def raw_list_add_def raw_list_del_def list_add_after_def list_add_def
  list_add_before_def list_del_def list_del_init_def list_empty_def list_next_def list_prev_def

text \<open>
  The traversal idiom \<^verbatim>\<open>while ((entry = list_next(entry)) != head)\<close>, with the visited entries
  as its result.  Fuel bounds the number of iterations; \<open>ring_walk\<close> below shows how much is
  enough on a ring.
\<close>

fun list_walk :: "nat \<Rightarrow> 'a lheap \<Rightarrow> 'a \<Rightarrow> 'a \<Rightarrow> 'a list option" where
  "list_walk 0 h head entry = None"
| "list_walk (Suc fuel) h head entry =
     (let entry' = list_next h entry
      in if entry' = head then Some []
         else map_option ((#) entry') (list_walk fuel h head entry'))"

section \<open>Rings\<close>

fun chain :: "'a lheap \<Rightarrow> 'a \<Rightarrow> 'a list \<Rightarrow> 'a \<Rightarrow> bool" where
  "chain h a [] b \<longleftrightarrow> le_next h a = b \<and> le_prev h b = a"
| "chain h a (x # xs) b \<longleftrightarrow> le_next h a = x \<and> le_prev h x = a \<and> chain h x xs b"

definition ring :: "'a lheap \<Rightarrow> 'a \<Rightarrow> 'a list \<Rightarrow> bool" where
  "ring h head xs \<longleftrightarrow> distinct (head # xs) \<and> chain h head xs head"

lemma chain_append:
  "chain h a (xs @ x # ys) b \<longleftrightarrow> chain h a xs x \<and> chain h x ys b"
  by (induction xs arbitrary: a) auto

lemma chain_cong:
  assumes "\<And>x. x \<in> insert a (set xs) \<Longrightarrow> le_next h' x = le_next h x"
    and "\<And>x. x \<in> insert b (set xs) \<Longrightarrow> le_prev h' x = le_prev h x"
  shows "chain h' a xs b = chain h a xs b"
  using assms by (induction xs arbitrary: a) auto

lemma chain_next: "chain h a xs b \<Longrightarrow> le_next h a = hd (xs @ [b])"
  by (cases xs) auto

lemma chain_prev: "chain h a xs b \<Longrightarrow> le_prev h b = last (a # xs)"
  by (induction xs arbitrary: a) auto

lemma ring_distinct: "ring h head xs \<Longrightarrow> distinct xs \<and> head \<notin> set xs"
  by (simp add: ring_def)

lemma ring_next: "ring h head xs \<Longrightarrow> list_next h head = hd (xs @ [head])"
  by (simp add: ring_def list_next_def chain_next)

lemma ring_prev: "ring h head xs \<Longrightarrow> list_prev h head = last (head # xs)"
  unfolding ring_def list_prev_def by (blast intro: chain_prev)

lemma ring_empty_iff: "ring h head xs \<Longrightarrow> list_empty h head \<longleftrightarrow> xs = []"
  by (cases xs) (auto simp: ring_def list_empty_def)

lemma ring_init: "ring (list_init h e) e []"
  by (simp add: ring_def list_init_def)

lemma ring_next_elem:
  assumes "ring h head (xs @ x # ys)"
  shows "list_next h x = hd (ys @ [head])" and "list_prev h x = last (head # xs)"
  using assms by (auto simp: ring_def list_next_def list_prev_def chain_append
      dest: chain_next chain_prev)

text \<open>Linking a fresh cell between two neighbours, and unlinking a cell.\<close>

lemma raw_list_add_cells [simp]:
  "le_next (raw_list_add h e l r) = (le_next h)(l := e, e := r)"
  "le_prev (raw_list_add h e l r) = (le_prev h)(r := e, e := l)"
  by (simp_all add: raw_list_add_def Let_def)

lemma chain_raw_add_left:
  assumes "chain h a xs r'" and "distinct xs" "a \<notin> set xs"
    and "e \<notin> insert a (set xs)" "r \<notin> set xs"
  shows "chain (raw_list_add h e (last (a # xs)) r) a xs e"
proof (cases xs rule: rev_cases)
  case Nil
  with assms(4) show ?thesis by simp
next
  case (snoc zs l)
  have "chain (raw_list_add h e l r) a zs l = chain h a zs l"
    using assms(2-5) by (intro chain_cong) (auto simp: snoc)
  moreover have "chain h a zs l"
    using assms(1) by (simp add: snoc chain_append)
  ultimately show ?thesis
    using assms(2-5) by (auto simp: snoc chain_append)
qed

lemma chain_raw_add_right:
  assumes "chain h l' ys b" and "distinct ys" "b \<notin> set ys"
    and "e \<notin> insert b (set ys)" "l \<notin> set ys"
  shows "chain (raw_list_add h e l (hd (ys @ [b]))) e ys b"
proof (cases ys)
  case Nil
  with assms(4) show ?thesis by simp
next
  case (Cons r zs)
  have "chain (raw_list_add h e l r) r zs b = chain h r zs b"
    using assms(2-5) by (intro chain_cong) (auto simp: Cons)
  moreover have "chain h r zs b"
    using assms(1) by (simp add: Cons)
  ultimately show ?thesis
    using assms(2-5) by (auto simp: Cons)
qed

lemma chain_split_gap:
  assumes "chain h a (xs @ ys) b"
  shows "chain h a xs (hd (ys @ [b]))" and "chain h (last (a # xs)) ys b"
proof -
  show "chain h a xs (hd (ys @ [b]))"
    using assms by (cases ys) (simp_all add: chain_append)
  show "chain h (last (a # xs)) ys b"
  proof (cases xs rule: rev_cases)
    case (snoc zs l)
    with assms show ?thesis by (simp add: chain_append)
  qed (use assms in simp)
qed

lemma ring_raw_add:
  assumes "ring h head (xs @ ys)" and "e \<noteq> head" and "e \<notin> set (xs @ ys)"
  shows "ring (raw_list_add h e (last (head # xs)) (hd (ys @ [head]))) head (xs @ e # ys)"
proof -
  have dist: "distinct (xs @ ys)" "head \<notin> set (xs @ ys)"
    and ch: "chain h head (xs @ ys) head"
    using assms(1) by (simp_all add: ring_def)
  have r: "hd (ys @ [head]) \<notin> set xs" using dist by (cases ys) auto
  have l: "last (head # xs) \<notin> set ys" using dist by (cases xs rule: rev_cases) auto
  have "chain (raw_list_add h e (last (head # xs)) (hd (ys @ [head]))) head xs e"
    using chain_split_gap(1) [OF ch] dist assms(2,3) r by (intro chain_raw_add_left) auto
  moreover have "chain (raw_list_add h e (last (head # xs)) (hd (ys @ [head]))) e ys head"
    using chain_split_gap(2) [OF ch] dist assms(2,3) l by (intro chain_raw_add_right) auto
  ultimately show ?thesis
    using dist assms(2,3) by (auto simp: ring_def chain_append)
qed

lemma raw_list_del_cells [simp]:
  "le_next (raw_list_del h l r) = (le_next h)(l := r)"
  "le_prev (raw_list_del h l r) = (le_prev h)(r := l)"
  by (simp_all add: raw_list_del_def Let_def)

lemma chain_raw_del_left:
  assumes "chain h a xs x" and "distinct xs" "a \<notin> set xs" "r \<notin> set xs"
  shows "chain (raw_list_del h (last (a # xs)) r) a xs r"
proof (cases xs rule: rev_cases)
  case (snoc zs l)
  have "chain (raw_list_del h l r) a zs l = chain h a zs l"
    using assms(2-4) by (intro chain_cong) (auto simp: snoc)
  moreover have "chain h a zs l"
    using assms(1) by (simp add: snoc chain_append)
  ultimately show ?thesis
    using assms(2-4) by (auto simp: snoc chain_append)
qed simp

lemma chain_raw_del_right:
  assumes "chain h x ys b" and "distinct ys" "b \<notin> set ys" "l \<notin> set ys"
  shows "chain (raw_list_del h l (hd (ys @ [b]))) l ys b"
proof (cases ys)
  case (Cons r zs)
  have "chain (raw_list_del h l r) r zs b = chain h r zs b"
    using assms(2-4) by (intro chain_cong) (auto simp: Cons)
  moreover have "chain h r zs b"
    using assms(1) by (simp add: Cons)
  ultimately show ?thesis
    using assms(2-4) by (auto simp: Cons)
qed simp

lemma chain_join_gap:
  assumes "chain h a xs (hd (ys @ [b]))" and "chain h (last (a # xs)) ys b"
  shows "chain h a (xs @ ys) b"
proof (cases ys)
  case Nil
  with assms(1) show ?thesis by simp
next
  case (Cons r zs)
  with assms show ?thesis by (simp add: chain_append)
qed

lemma ring_del_split:
  assumes "ring h head (xs @ x # ys)"
  shows "ring (list_del h x) head (xs @ ys)"
proof -
  have dist: "distinct (xs @ x # ys)" "head \<notin> set (xs @ x # ys)"
    and ch: "chain h head xs x" "chain h x ys head"
    using assms by (auto simp: ring_def chain_append)
  have r: "hd (ys @ [head]) \<notin> set xs" using dist by (cases ys) auto
  have l: "last (head # xs) \<notin> set ys" using dist by (cases xs rule: rev_cases) auto
  have del: "list_del h x = raw_list_del h (last (head # xs)) (hd (ys @ [head]))"
    unfolding list_del_def using chain_next [OF ch(2)] chain_prev [OF ch(1)] by simp
  have "chain (list_del h x) head (xs @ ys) head"
    unfolding del using ch dist r l
    by (intro chain_join_gap chain_raw_del_left chain_raw_del_right) auto
  with dist show ?thesis by (auto simp: ring_def)
qed

lemma ring_add:
  assumes "ring h head xs" "e \<noteq> head" "e \<notin> set xs"
  shows "ring (list_add h head e) head (e # xs)"
  using ring_raw_add [of h head "[]" xs e] assms ring_next [OF assms(1)]
  by (simp add: list_add_def list_add_after_def list_next_def)

lemma ring_add_before:
  assumes "ring h head xs" "e \<noteq> head" "e \<notin> set xs"
  shows "ring (list_add_before h head e) head (xs @ [e])"
  using ring_raw_add [of h head xs "[]" e] assms ring_prev [OF assms(1)]
  by (simp add: list_add_before_def list_prev_def)

lemma ring_add_after_elem:
  assumes "ring h head (xs @ x # ys)" "e \<noteq> head" "e \<notin> set (xs @ x # ys)"
  shows "ring (list_add_after h x e) head (xs @ x # e # ys)"
  using ring_raw_add [of h head "xs @ [x]" ys e] assms ring_next_elem(1) [OF assms(1)]
  by (simp add: list_add_after_def list_next_def)

lemma ring_add_before_elem:
  assumes "ring h head (xs @ x # ys)" "e \<noteq> head" "e \<notin> set (xs @ x # ys)"
  shows "ring (list_add_before h x e) head (xs @ e # x # ys)"
  using ring_raw_add [of h head xs "x # ys" e] assms ring_next_elem(2) [OF assms(1)]
  by (simp add: list_add_before_def list_prev_def)

lemma ring_del:
  assumes "ring h head xs" "x \<in> set xs"
  shows "ring (list_del h x) head (remove1 x xs)"
proof -
  from assms(1) have "distinct xs" by (simp add: ring_def)
  with assms(2) obtain ys zs where xs: "xs = ys @ x # zs" "x \<notin> set ys"
    by (auto elim: distinct_in_split)
  with assms(1) ring_del_split [of h head ys x zs] show ?thesis
    by (simp add: remove1_split)
qed

lemma chain_walk:
  assumes "chain h a xs head" "head \<notin> set xs" "length xs < fuel"
  shows "list_walk fuel h head a = Some xs"
  using assms
proof (induction xs arbitrary: a fuel)
  case Nil
  then show ?case by (cases fuel) (simp_all add: list_next_def)
next
  case (Cons x xs)
  obtain n where n: "fuel = Suc n" "length xs < n"
    using Cons.prems(3) by (cases fuel) simp_all
  have x: "x \<noteq> head" using Cons.prems(2) by auto
  have rest: "list_walk n h head x = Some xs"
    using Cons.prems n(2) by (intro Cons.IH) simp_all
  show ?case using Cons.prems(1) by (simp add: n x rest list_next_def)
qed

lemma ring_walk: "ring h head xs \<Longrightarrow> length xs < fuel \<Longrightarrow> list_walk fuel h head head = Some xs"
  by (auto simp: ring_def intro: chain_walk)

section \<open>The list interface\<close>

text \<open>What the rest of the kernel relies on: with respect to a representation relation, the list
  operations are the operations on finite sequences.  Every later theory uses a HOL list where the
  code has an intrusive list, which this contract justifies.\<close>

locale intrusive_list =
  fixes holds :: "'h \<Rightarrow> 'a \<Rightarrow> 'a list \<Rightarrow> bool"
    and init :: "'h \<Rightarrow> 'a \<Rightarrow> 'h"
    and push :: "'h \<Rightarrow> 'a \<Rightarrow> 'a \<Rightarrow> 'h"
    and append :: "'h \<Rightarrow> 'a \<Rightarrow> 'a \<Rightarrow> 'h"
    and del :: "'h \<Rightarrow> 'a \<Rightarrow> 'h"
    and first :: "'h \<Rightarrow> 'a \<Rightarrow> 'a"
  assumes holds_init: "holds (init h l) l []"
    and holds_push: "holds h l xs \<Longrightarrow> e \<noteq> l \<Longrightarrow> e \<notin> set xs \<Longrightarrow> holds (push h l e) l (e # xs)"
    and holds_append: "holds h l xs \<Longrightarrow> e \<noteq> l \<Longrightarrow> e \<notin> set xs \<Longrightarrow> holds (append h l e) l (xs @ [e])"
    and holds_del: "holds h l xs \<Longrightarrow> x \<in> set xs \<Longrightarrow> holds (del h x) l (remove1 x xs)"
    and holds_first: "holds h l (x # xs) \<Longrightarrow> first h l = x"
begin

lemma appends_hold:
  "holds h l xs \<Longrightarrow> l \<notin> set es \<Longrightarrow> distinct es \<Longrightarrow> set xs \<inter> set es = {} \<Longrightarrow>
     holds (foldl (\<lambda>h. append h l) h es) l (xs @ es)"
proof (induction es arbitrary: h xs)
  case (Cons e es)
  have "holds (append h l e) l (xs @ [e])"
    using Cons.prems by (intro holds_append) auto
  with Cons.IH [of "append h l e" "xs @ [e]"] Cons.prems show ?case by auto
qed simp

lemma pushes_hold:
  "holds h l xs \<Longrightarrow> l \<notin> set es \<Longrightarrow> distinct es \<Longrightarrow> set xs \<inter> set es = {} \<Longrightarrow>
     holds (foldl (\<lambda>h. push h l) h es) l (rev es @ xs)"
proof (induction es arbitrary: h xs)
  case (Cons e es)
  have "holds (push h l e) l (e # xs)"
    using Cons.prems by (intro holds_push) auto
  with Cons.IH [of "push h l e" "e # xs"] Cons.prems show ?case by auto
qed simp

text \<open>Taking the first element until none is left removes the elements in list order.\<close>

lemma drain_holds:
  "holds h l (xs @ ys) \<Longrightarrow> distinct (xs @ ys) \<Longrightarrow> holds (foldl del h xs) l ys"
proof (induction xs arbitrary: h)
  case (Cons x xs)
  have "holds (del h x) l (xs @ ys)"
    using holds_del [OF Cons.prems(1), of x] by simp
  with Cons show ?case by simp
qed simp

lemma append_del_sequence:
  assumes "l \<notin> set es" "distinct es" "x \<in> set es"
  shows "holds (del (foldl (\<lambda>h. append h l) (init h l) es) x) l (remove1 x es)"
  using holds_del [OF appends_hold [OF holds_init, of l es], of x h] assms by simp

end

interpretation kl: intrusive_list ring list_init list_add list_add_before list_del list_next
proof
  fix h :: "'a lheap" and head x :: 'a and xs
  show "ring h head (x # xs) \<Longrightarrow> list_next h head = x"
    using ring_next [of h head "x # xs"] by simp
qed (rule ring_init ring_add ring_add_before ring_del; assumption)+

section \<open>Properties\<close>

text \<open>C17: The pointer operations of the intrusive circular list implement sequences: initialising a
  head, appending distinct fresh entries with \<open>list_add_before\<close> and unlinking one of them leaves a
  ring whose traversal along the next pointers ends at the head after visiting exactly the other
  entries, in insertion order.\<close>

theorem list_ops_refine_sequence:
  assumes "distinct (head # es)" "x \<in> set es"
  shows "list_walk (length es)
      (list_del (foldl (\<lambda>h. list_add_before h head) (list_init h head) es) x) head head
    = Some (remove1 x es)"
proof -
  have "length (remove1 x es) < length es"
    using assms(2) length_pos_if_in_set [OF assms(2)] by (simp add: length_remove1)
  with assms kl.append_del_sequence [of head es x h] show ?thesis by (intro ring_walk) auto
qed

theorem list_ops_refine_sequence_witness:
  "list_walk 3 (list_del (foldl (\<lambda>h. list_add_before h 0)
      (list_init \<lparr>le_prev = \<lambda>_. 0, le_next = \<lambda>_. 0\<rparr> 0) [5, 9, 7]) 9) 0 0 = Some [5, 7 :: nat]"
  using list_ops_refine_sequence
    [of 0 "[5, 9, 7]" 9 "\<lparr>le_prev = \<lambda>_. 0, le_next = \<lambda>_. 0 :: nat\<rparr>"]
  by (simp add: numeral_3_eq_3)

end
