(* ===== verification/Kqueue.thy ===== *)
theory Kqueue
  imports Prelude
begin

text \<open>
  The bounded ring buffer of \<^verbatim>\<open>src/lib/queue.h\<close>.  The buffer holds \<open>size\<close> words, one slot is
  always left free, a push on a full queue is dropped and a pop on an empty queue fails an
  assertion.  The locale \<open>bounded_fifo\<close> states what a bounded queue promises; the ring buffer
  interprets it, so the order and loss properties are proved once from the contract.
\<close>

section \<open>The ring buffer\<close>

record queue =
  q_buf :: "u32 list"
  q_wpos :: nat
  q_rpos :: nat
  q_size :: nat

definition queue_init :: "u32 list \<Rightarrow> nat \<Rightarrow> queue" where
  "queue_init buf sz = \<lparr>q_buf = buf, q_wpos = 0, q_rpos = 0, q_size = sz\<rparr>"

definition queue_full :: "queue \<Rightarrow> bool" where
  "queue_full que \<longleftrightarrow> (q_wpos que + 1) mod q_size que = q_rpos que"

definition queue_push :: "queue \<Rightarrow> u32 \<Rightarrow> queue" where
  "queue_push que c =
     (if \<not> queue_full que
      then que\<lparr>q_buf := (q_buf que)[q_wpos que := c],
               q_wpos := (q_wpos que + 1) mod q_size que\<rparr>
      else que)"

definition queue_empty :: "queue \<Rightarrow> bool" where
  "queue_empty que \<longleftrightarrow> q_rpos que = q_wpos que"

definition queue_pop :: "queue \<Rightarrow> (u32 \<times> queue) option" where
  "queue_pop que = do {
     kassert (\<not> queue_empty que);
     let data = q_buf que ! q_rpos que;
     Some (data, que\<lparr>q_rpos := (q_rpos que + 1) mod q_size que\<rparr>)
   }"

section \<open>Invariant and contents\<close>

definition queue_inv :: "queue \<Rightarrow> bool" where
  "queue_inv que \<longleftrightarrow> length (q_buf que) = q_size que
     \<and> q_wpos que < q_size que \<and> q_rpos que < q_size que"

definition queue_len :: "queue \<Rightarrow> nat" where
  "queue_len que = (q_wpos que + q_size que - q_rpos que) mod q_size que"

definition queue_list :: "queue \<Rightarrow> u32 list" where
  "queue_list que =
     map (\<lambda>i. q_buf que ! ((q_rpos que + i) mod q_size que)) [0..<queue_len que]"

lemma length_queue_list [simp]: "length (queue_list que) = queue_len que"
  by (simp add: queue_list_def)

lemma queue_len_less: "queue_inv que \<Longrightarrow> queue_len que < q_size que"
  by (simp add: queue_inv_def queue_len_def)

lemma queue_len_eq:
  "queue_inv que \<Longrightarrow> queue_len que =
     (if q_rpos que \<le> q_wpos que then q_wpos que - q_rpos que
      else q_wpos que + q_size que - q_rpos que)"
  by (auto simp: queue_inv_def queue_len_def mod_if)

lemma queue_wpos_eq:
  "queue_inv que \<Longrightarrow> (q_rpos que + queue_len que) mod q_size que = q_wpos que"
  by (auto simp: queue_len_eq) (auto simp: queue_inv_def mod_if)

lemma queue_empty_iff: "queue_inv que \<Longrightarrow> queue_empty que \<longleftrightarrow> queue_list que = []"
  by (auto simp: queue_empty_def queue_list_def queue_len_eq queue_inv_def)

lemma queue_full_iff: "queue_inv que \<Longrightarrow> queue_full que \<longleftrightarrow> queue_len que = q_size que - 1"
  by (auto simp: queue_full_def queue_len_eq) (auto simp: queue_inv_def mod_if split: if_splits)

lemma queue_push_inv: "queue_inv que \<Longrightarrow> queue_inv (queue_push que c)"
  by (auto simp: queue_inv_def queue_push_def)

lemma queue_len_push:
  assumes "queue_inv que" "\<not> queue_full que"
  shows "queue_len (queue_push que c) = Suc (queue_len que)"
  using assms queue_push_inv [OF assms(1), of c]
  by (auto simp: queue_len_eq)
     (auto simp: queue_push_def queue_full_def queue_inv_def mod_if split: if_splits)

lemma queue_list_push:
  assumes inv: "queue_inv que" and nf: "\<not> queue_full que"
  shows "queue_list (queue_push que c) = queue_list que @ [c]"
proof -
  let ?n = "queue_len que" and ?s = "q_size que"
  have n: "?n < ?s - 1" using queue_len_less [OF inv] queue_full_iff [OF inv] nf by linarith
  have slot: "q_wpos que \<noteq> (q_rpos que + i) mod ?s" if "i < ?n" for i
  proof
    assume "q_wpos que = (q_rpos que + i) mod ?s"
    then have "(q_rpos que + i) mod ?s = (q_rpos que + ?n) mod ?s"
      using queue_wpos_eq [OF inv] by simp
    moreover have "q_rpos que < ?s" using inv by (simp add: queue_inv_def)
    ultimately show False using that n by (simp add: mod_less_sum split: if_splits)
  qed
  have w: "q_wpos que < length (q_buf que)" using inv by (simp add: queue_inv_def)
  have "queue_list (queue_push que c) =
      map (\<lambda>i. (q_buf que)[q_wpos que := c] ! ((q_rpos que + i) mod ?s)) [0..<Suc ?n]"
    using queue_len_push [OF inv nf, of c] nf by (simp add: queue_list_def queue_push_def)
  also have "\<dots> = queue_list que @ [c]"
    using w queue_wpos_eq [OF inv] by (auto simp: queue_list_def nth_list_update_neq [OF slot])
  finally show ?thesis .
qed

lemma queue_pop_empty: "queue_inv que \<Longrightarrow> queue_pop que = None \<longleftrightarrow> queue_list que = []"
  by (simp add: queue_pop_def queue_empty_iff)

lemma queue_pop_inv: "queue_inv que \<Longrightarrow> queue_pop que = Some (x, que') \<Longrightarrow> queue_inv que'"
  by (auto simp: queue_inv_def queue_pop_def)

lemma queue_list_pop:
  assumes inv: "queue_inv que" and pop: "queue_pop que = Some (x, que')"
  shows "queue_list que = x # queue_list que'"
proof -
  have ne: "queue_list que \<noteq> []" and x: "x = q_buf que ! q_rpos que"
    and que': "que' = que\<lparr>q_rpos := (q_rpos que + 1) mod q_size que\<rparr>"
    using pop queue_empty_iff [OF inv] by (auto simp: queue_pop_def)
  have inv': "queue_inv que'" using queue_pop_inv [OF inv pop] .
  from ne have "0 < queue_len que" by (simp add: queue_list_def)
  then have len: "queue_len que = Suc (queue_len que')"
    using inv inv' by (auto simp: queue_len_eq)
      (auto simp: que' queue_inv_def mod_if split: if_splits)
  have shift: "((q_rpos que + 1) mod q_size que + i) mod q_size que = (q_rpos que + Suc i) mod q_size que"
    for i by (simp add: mod_add_left_eq)
  have "queue_list que = q_buf que ! (q_rpos que mod q_size que) #
      map (\<lambda>i. q_buf que ! ((q_rpos que + Suc i) mod q_size que)) [0..<queue_len que']"
    unfolding queue_list_def len by (simp add: upt_conv_Cons map_Suc_upt [symmetric] del: upt_Suc)
  also have "\<dots> = x # queue_list que'"
    using inv shift by (simp add: x queue_inv_def queue_list_def que' queue_len_def)
  finally show ?thesis .
qed

section \<open>The bounded queue contract\<close>

text \<open>Popping \<open>n\<close> times, stopping at the first failure.\<close>

fun pop_n :: "('q \<Rightarrow> ('a \<times> 'q) option) \<Rightarrow> nat \<Rightarrow> 'q \<Rightarrow> ('a list \<times> 'q) option" where
  "pop_n pop 0 q = Some ([], q)"
| "pop_n pop (Suc n) q =
     (case pop q of None \<Rightarrow> None
      | Some (x, q') \<Rightarrow> (case pop_n pop n q' of None \<Rightarrow> None | Some (xs, q'') \<Rightarrow> Some (x # xs, q'')))"

locale bounded_fifo =
  fixes invar :: "'q \<Rightarrow> bool"
    and contents :: "'q \<Rightarrow> 'a list"
    and cap :: "'q \<Rightarrow> nat"
    and push :: "'q \<Rightarrow> 'a \<Rightarrow> 'q"
    and pop :: "'q \<Rightarrow> ('a \<times> 'q) option"
  assumes invar_push: "invar q \<Longrightarrow> invar (push q x)"
    and invar_pop: "invar q \<Longrightarrow> pop q = Some (x, q') \<Longrightarrow> invar q'"
    and cap_push: "cap (push q x) = cap q"
    and cap_pop: "pop q = Some (x, q') \<Longrightarrow> cap q' = cap q"
    and contents_bound: "invar q \<Longrightarrow> length (contents q) \<le> cap q"
    and contents_push: "invar q \<Longrightarrow> contents (push q x) =
      (if length (contents q) < cap q then contents q @ [x] else contents q)"
    and contents_pop: "invar q \<Longrightarrow> pop q = Some (x, q') \<Longrightarrow> contents q = x # contents q'"
    and pop_empty: "invar q \<Longrightarrow> pop q = None \<longleftrightarrow> contents q = []"
begin

lemma pushes_invar: "invar q \<Longrightarrow> invar (foldl push q xs)"
  by (induction xs arbitrary: q) (auto intro: invar_push)

lemma pushes_contents:
  "invar q \<Longrightarrow> contents (foldl push q xs) = contents q @ take (cap q - length (contents q)) xs"
proof (induction xs arbitrary: q)
  case (Cons x xs)
  show ?case
  proof (cases "length (contents q) < cap q")
    case True
    then have "cap q - length (contents q) = Suc (cap q - Suc (length (contents q)))" by simp
    with True Cons invar_push [of q x] show ?thesis
      by (simp add: contents_push cap_push)
  next
    case False
    with Cons invar_push [of q x] show ?thesis
      by (simp add: contents_push cap_push)
  qed
qed simp

lemma pops_contents:
  "invar q \<Longrightarrow> n \<le> length (contents q) \<Longrightarrow>
     \<exists>q'. pop_n pop n q = Some (take n (contents q), q') \<and> invar q' \<and> contents q' = drop n (contents q)"
proof (induction n arbitrary: q)
  case (Suc n)
  then obtain x q' where pop: "pop q = Some (x, q')"
    using pop_empty [of q] by (cases "pop q") auto
  have c: "contents q = x # contents q'" and inv': "invar q'"
    using Suc.prems pop by (auto intro: contents_pop invar_pop)
  with Suc.IH [of q'] Suc.prems(2) pop show ?case by auto
qed simp

lemma fifo_order:
  assumes "invar q" "contents q = []"
  shows "\<exists>q'. pop_n pop (min (cap q) (length xs)) (foldl push q xs) = Some (take (cap q) xs, q')
     \<and> contents q' = []"
proof -
  have "contents (foldl push q xs) = take (cap q) xs"
    using assms pushes_contents [of q xs] by simp
  moreover have "length (take (cap q) xs) = min (cap q) (length xs)" by (simp add: min.commute)
  ultimately show ?thesis
    using pops_contents [of "foldl push q xs" "length (contents (foldl push q xs))"]
      pushes_invar [OF assms(1)] by (auto simp: take_min_length)
qed

end

interpretation rq: bounded_fifo queue_inv queue_list "\<lambda>que. q_size que - 1" queue_push queue_pop
proof
  fix q x q'
  show "queue_inv q \<Longrightarrow> queue_inv (queue_push q x)" by (rule queue_push_inv)
  show "queue_inv q \<Longrightarrow> queue_pop q = Some (x, q') \<Longrightarrow> queue_inv q'" by (rule queue_pop_inv)
  show "q_size (queue_push q x) - 1 = q_size q - 1" by (simp add: queue_push_def)
  show "queue_pop q = Some (x, q') \<Longrightarrow> q_size q' - 1 = q_size q - 1"
    by (auto simp: queue_pop_def)
  show "queue_inv q \<Longrightarrow> length (queue_list q) \<le> q_size q - 1"
    using queue_len_less [of q] by simp
  show "queue_inv q \<Longrightarrow> queue_list (queue_push q x) =
      (if length (queue_list q) < q_size q - 1 then queue_list q @ [x] else queue_list q)"
    using queue_full_iff [of q] queue_len_less [of q] queue_list_push [of q x]
    by (auto simp: queue_push_def)
  show "queue_inv q \<Longrightarrow> queue_pop q = Some (x, q') \<Longrightarrow> queue_list q = x # queue_list q'"
    by (rule queue_list_pop)
  show "queue_inv q \<Longrightarrow> queue_pop q = None \<longleftrightarrow> queue_list q = []" by (rule queue_pop_empty)
qed

section \<open>Properties\<close>

text \<open>C18: A ring buffer of size \<open>s\<close> that starts empty, at any position of its two cursors, delivers
  what was pushed in the order it was pushed: after pushing \<open>xs\<close>, popping returns the first
  \<open>s - 1\<close> elements of \<open>xs\<close> (every further push is dropped by the full test), after which the
  buffer is empty again.\<close>

theorem queue_fifo:
  assumes "queue_inv que" "queue_list que = []"
  shows "\<exists>que'. pop_n queue_pop (min (q_size que - 1) (length xs)) (foldl queue_push que xs)
           = Some (take (q_size que - 1) xs, que') \<and> queue_list que' = []"
  using assms by (rule rq.fifo_order)

theorem queue_fifo_witness:
  "\<exists>q1. pop_n queue_pop 2
      (foldl queue_push \<lparr>q_buf = [7, 0, 0], q_wpos = 1, q_rpos = 1, q_size = 3\<rparr> [1, 2, 3])
    = Some ([1, 2], q1) \<and> queue_list q1 = []"
  using queue_fifo [of "\<lparr>q_buf = [7, 0, 0], q_wpos = 1, q_rpos = 1, q_size = 3\<rparr>" "[1, 2, 3]"]
  by (simp add: queue_inv_def queue_list_def queue_len_def numeral_2_eq_2)

end
