(* ===== verification/Kstring.thy ===== *)
theory Kstring
  imports Prelude "HOL-Library.List_Lexorder"
begin

text \<open>
  The string and memory routines of \<^verbatim>\<open>src/lib/string.c\<close>, over a byte memory.  A pointer is a
  natural number and a routine that writes returns the new memory.  Loops that stop only at a
  terminating null byte are partial (\<^const>\<open>None\<close>: the loop does not stop); \<open>cstr\<close> describes a
  terminated string in memory and gives their total correctness.  The string instructions
  \<^verbatim>\<open>rep stosb/stosl/movsb/movsl\<close> are the recursive functions \<open>rep_*\<close>, in both directions of the
  direction flag, as the configuration \<^verbatim>\<open>ASM = 1\<close> of the file compiles them.
\<close>

type_synonym mem = "nat \<Rightarrow> u8"

section \<open>Routines on terminated strings\<close>

partial_function (option) strlen_loop :: "mem \<Rightarrow> nat \<Rightarrow> nat \<Rightarrow> nat option" where
  "strlen_loop m s n = (if m s \<noteq> 0 then strlen_loop m (s + 1) (n + 1) else Some n)"

definition strlen :: "mem \<Rightarrow> nat \<Rightarrow> nat option" where
  "strlen m s = strlen_loop m s 0"

fun strnlen_loop :: "mem \<Rightarrow> nat \<Rightarrow> nat \<Rightarrow> nat \<Rightarrow> nat" where
  "strnlen_loop m s 0 n = n"
| "strnlen_loop m s (Suc sz) n = (if m s \<noteq> 0 then strnlen_loop m (s + 1) sz (n + 1) else n)"

definition strnlen :: "mem \<Rightarrow> nat \<Rightarrow> nat \<Rightarrow> nat" where
  "strnlen m s sz = strnlen_loop m s sz 0"

text \<open>The copy routines return the memory and the destination pointer.\<close>

partial_function (option) strcpy_loop :: "mem \<Rightarrow> nat \<Rightarrow> nat \<Rightarrow> mem option" where
  "strcpy_loop m dst src =
     (if m src \<noteq> 0 then strcpy_loop (m(dst := m src)) (dst + 1) (src + 1)
      else Some (m(dst := m src)))"

definition strcpy :: "mem \<Rightarrow> nat \<Rightarrow> nat \<Rightarrow> (mem \<times> nat) option" where
  "strcpy m dst src = do { m' \<leftarrow> strcpy_loop m dst src; Some (m', dst) }"

definition strcat :: "mem \<Rightarrow> nat \<Rightarrow> nat \<Rightarrow> (mem \<times> nat) option" where
  "strcat m dst src = do {
     len \<leftarrow> strlen m dst;
     (m', _) \<leftarrow> strcpy m (dst + len) src;
     Some (m', dst)
   }"

fun strncpy_loop :: "mem \<Rightarrow> nat \<Rightarrow> nat \<Rightarrow> nat \<Rightarrow> mem" where
  "strncpy_loop m dst src 0 = m"
| "strncpy_loop m dst src (Suc n) =
     (let m' = m(dst := m src)
      in strncpy_loop m' (dst + 1) (if m' src \<noteq> 0 then src + 1 else src) n)"

definition strncpy :: "mem \<Rightarrow> nat \<Rightarrow> nat \<Rightarrow> nat \<Rightarrow> mem \<times> nat" where
  "strncpy m dst src sz = (strncpy_loop m dst src sz, dst)"

definition chdiff :: "u8 \<Rightarrow> u8 \<Rightarrow> int" where
  "chdiff a b = int (unat a) - int (unat b)"

partial_function (option) strcmp :: "mem \<Rightarrow> nat \<Rightarrow> nat \<Rightarrow> int option" where
  "strcmp m p q =
     (if m p \<noteq> 0 \<and> m p = m q then strcmp m (p + 1) (q + 1)
      else Some (chdiff (m p) (m q)))"

fun strncmp :: "mem \<Rightarrow> nat \<Rightarrow> nat \<Rightarrow> nat \<Rightarrow> int" where
  "strncmp m p q 0 = 0"
| "strncmp m p q (Suc n) =
     (if m p \<noteq> 0 \<and> m p = m q then strncmp m (p + 1) (q + 1) n
      else chdiff (m p) (m q))"

text \<open>\<^verbatim>\<open>strchr\<close> returns a pointer or the null pointer, here \<^const>\<open>None\<close> inside the outer option.\<close>

partial_function (option) strchr :: "mem \<Rightarrow> nat \<Rightarrow> u8 \<Rightarrow> nat option option" where
  "strchr m s c =
     (if m s \<noteq> 0 then (if m s = c then Some (Some s) else strchr m (s + 1) c)
      else Some None)"

partial_function (option) strfind :: "mem \<Rightarrow> nat \<Rightarrow> u8 \<Rightarrow> nat option" where
  "strfind m s c =
     (if m s \<noteq> 0 then (if m s = c then Some s else strfind m (s + 1) c)
      else Some s)"

section \<open>Block routines\<close>

fun rep_stosb :: "mem \<Rightarrow> nat \<Rightarrow> u8 \<Rightarrow> nat \<Rightarrow> mem" where
  "rep_stosb m d c 0 = m"
| "rep_stosb m d c (Suc n) = rep_stosb (m(d := c)) (d + 1) c n"

definition store4 :: "mem \<Rightarrow> nat \<Rightarrow> u32 \<Rightarrow> mem" where
  "store4 m d w = m(d := ucast w, d + 1 := ucast (drop_bit 8 w),
                    d + 2 := ucast (drop_bit 16 w), d + 3 := ucast (drop_bit 24 w))"

fun rep_stosl :: "mem \<Rightarrow> nat \<Rightarrow> u32 \<Rightarrow> nat \<Rightarrow> mem" where
  "rep_stosl m d w 0 = m"
| "rep_stosl m d w (Suc n) = rep_stosl (store4 m d w) (d + 4) w n"

definition memset :: "mem \<Rightarrow> nat \<Rightarrow> u32 \<Rightarrow> nat \<Rightarrow> mem" where
  "memset m v c n =
     (if n = 0 then m
      else if v mod 4 = 0 \<and> n mod 4 = 0
      then let c1 = c AND 0xFF;
               c2 = push_bit 24 c1 OR push_bit 16 c1 OR push_bit 8 c1 OR c1
           in rep_stosl m v c2 (n div 4)
      else rep_stosb m v (ucast c) n)"

fun rep_movsb :: "mem \<Rightarrow> nat \<Rightarrow> nat \<Rightarrow> nat \<Rightarrow> mem" where
  "rep_movsb m d s 0 = m"
| "rep_movsb m d s (Suc n) = rep_movsb (m(d := m s)) (d + 1) (s + 1) n"

fun rep_movsb_down :: "mem \<Rightarrow> nat \<Rightarrow> nat \<Rightarrow> nat \<Rightarrow> mem" where
  "rep_movsb_down m d s 0 = m"
| "rep_movsb_down m d s (Suc n) = rep_movsb_down (m(d := m s)) (d - 1) (s - 1) n"

definition move4 :: "mem \<Rightarrow> nat \<Rightarrow> nat \<Rightarrow> mem" where
  "move4 m d s = m(d := m s, d + 1 := m (s + 1), d + 2 := m (s + 2), d + 3 := m (s + 3))"

fun rep_movsl :: "mem \<Rightarrow> nat \<Rightarrow> nat \<Rightarrow> nat \<Rightarrow> mem" where
  "rep_movsl m d s 0 = m"
| "rep_movsl m d s (Suc n) = rep_movsl (move4 m d s) (d + 4) (s + 4) n"

fun rep_movsl_down :: "mem \<Rightarrow> nat \<Rightarrow> nat \<Rightarrow> nat \<Rightarrow> mem" where
  "rep_movsl_down m d s 0 = m"
| "rep_movsl_down m d s (Suc n) = rep_movsl_down (move4 m d s) (d - 4) (s - 4) n"

definition memmove :: "mem \<Rightarrow> nat \<Rightarrow> nat \<Rightarrow> nat \<Rightarrow> mem" where
  "memmove m dst src n =
     (if src < dst \<and> src + n > dst
      then let s = src + n; d = dst + n
           in if s mod 4 = 0 \<and> d mod 4 = 0 \<and> n = 4
              then rep_movsl_down m (d - 4) (s - 4) (n div 4)
              else rep_movsb_down m (d - 1) (s - 1) n
      else if src mod 4 = 0 \<and> dst mod 4 = 0 \<and> n mod 4 = 0
           then rep_movsl m dst src (n div 4)
           else rep_movsb m dst src n)"

fun memcpy :: "mem \<Rightarrow> nat \<Rightarrow> nat \<Rightarrow> nat \<Rightarrow> mem" where
  "memcpy m d s 0 = m"
| "memcpy m d s (Suc n) = memcpy (m(d := m s)) (d + 1) (s + 1) n"

section \<open>Terminated strings\<close>

fun cstr :: "mem \<Rightarrow> nat \<Rightarrow> u8 list \<Rightarrow> bool" where
  "cstr m s [] \<longleftrightarrow> m s = 0"
| "cstr m s (x # xs) \<longleftrightarrow> m s = x \<and> x \<noteq> 0 \<and> cstr m (s + 1) xs"

lemma cstr_cong:
  "(\<And>i. i \<le> length xs \<Longrightarrow> m' (s + i) = m (s + i)) \<Longrightarrow> cstr m' s xs = cstr m s xs"
proof (induction xs arbitrary: s)
  case Nil
  from Nil [of 0] show ?case by simp
next
  case (Cons x xs)
  have "cstr m' (s + 1) xs = cstr m (s + 1) xs"
    using Cons.prems [of "Suc i" for i] by (intro Cons.IH) simp
  with Cons.prems [of 0] show ?case by simp
qed

lemma cstr_nonzero: "cstr m s xs \<Longrightarrow> 0 \<notin> set xs"
  by (induction xs arbitrary: s) auto

lemma cstr_iff:
  "cstr m s xs \<longleftrightarrow> (\<forall>i<length xs. m (s + i) = xs ! i) \<and> m (s + length xs) = 0 \<and> 0 \<notin> set xs"
proof (induction xs arbitrary: s)
  case (Cons x xs)
  have "(\<forall>i<length (x # xs). m (s + i) = (x # xs) ! i) \<longleftrightarrow>
      m s = x \<and> (\<forall>i<length xs. m (s + 1 + i) = xs ! i)"
    by (auto simp: less_Suc_eq_0_disj)
  with Cons show ?case by auto
qed simp

lemma cstr_nth: "cstr m s xs \<Longrightarrow> i < length xs \<Longrightarrow> m (s + i) = xs ! i"
  by (simp add: cstr_iff)

lemma cstr_end: "cstr m s xs \<Longrightarrow> m (s + length xs) = 0"
  by (simp add: cstr_iff)

lemma strlen_loop_cstr: "cstr m s xs \<Longrightarrow> strlen_loop m s n = Some (n + length xs)"
proof (induction xs arbitrary: s n)
  case Nil
  then show ?case by (subst strlen_loop.simps) simp
next
  case (Cons x xs)
  then show ?case by (subst strlen_loop.simps) simp
qed

lemma strlen_cstr: "cstr m s xs \<Longrightarrow> strlen m s = Some (length xs)"
  by (simp add: strlen_def strlen_loop_cstr)

lemma strnlen_loop_cstr: "cstr m s xs \<Longrightarrow> strnlen_loop m s sz n = n + min sz (length xs)"
proof (induction xs arbitrary: s n sz)
  case Nil
  then show ?case by (cases sz) simp_all
next
  case (Cons x xs)
  then show ?case by (cases sz) simp_all
qed

lemma strnlen_cstr: "cstr m s xs \<Longrightarrow> strnlen m s sz = min sz (length xs)"
  by (simp add: strnlen_def strnlen_loop_cstr)

lemma strnlen_le: "strnlen m s sz \<le> sz"
proof -
  have "strnlen_loop m s sz n \<le> n + sz" for n
    by (induction m s sz n rule: strnlen_loop.induct) auto
  from this [of 0] show ?thesis by (simp add: strnlen_def)
qed

section \<open>Copying and comparing strings\<close>

text \<open>Copying \<open>n\<close> bytes as one simultaneous assignment: the reference for every copy loop.\<close>

definition copied :: "mem \<Rightarrow> nat \<Rightarrow> nat \<Rightarrow> nat \<Rightarrow> mem" where
  "copied m d s n = (\<lambda>a. if d \<le> a \<and> a < d + n then m (s + (a - d)) else m a)"

lemma copied_0 [simp]: "copied m d s 0 = m"
  by (rule ext) (auto simp: copied_def)

lemma copied_1: "copied m d s (Suc 0) = m(d := m s)"
  by (rule ext) (auto simp: copied_def)

lemma copied_step:
  assumes "d \<le> s \<or> s + Suc n \<le> d"
  shows "copied (m(d := m s)) (d + 1) (s + 1) n = copied m d s (Suc n)"
proof
  fix a
  have "s + 1 + (a - (d + 1)) = s + (a - d)" "s + (a - d) \<noteq> d" if "d < a" "a < d + Suc n"
    using assms that by auto
  then show "copied (m(d := m s)) (d + 1) (s + 1) n a = copied m d s (Suc n) a"
    by (auto simp: copied_def)
qed

lemma cstr_copied:
  assumes "cstr m s xs" "n = Suc (length xs)"
  shows "cstr (copied m d s n) d xs"
  using assms by (auto simp: cstr_iff copied_def)

lemma strcpy_loop_copied:
  "cstr m src xs \<Longrightarrow> dst \<le> src \<or> src + length xs < dst \<Longrightarrow>
     strcpy_loop m dst src = Some (copied m dst src (Suc (length xs)))"
proof (induction xs arbitrary: m src dst)
  case Nil
  then show ?case
    by (subst strcpy_loop.simps) (simp add: copied_1)
next
  case (Cons x xs)
  let ?m = "m(dst := m src)"
  have "cstr ?m (src + 1) xs"
    using Cons.prems by (subst cstr_cong [of xs ?m "src + 1" m]) auto
  moreover have "dst + 1 \<le> src + 1 \<or> src + 1 + length xs < dst + 1"
    using Cons.prems(2) by auto
  ultimately have "strcpy_loop ?m (dst + 1) (src + 1)
      = Some (copied ?m (dst + 1) (src + 1) (Suc (length xs)))"
    by (rule Cons.IH)
  with Cons.prems show ?case
    by (subst strcpy_loop.simps) (use copied_step [of dst src "Suc (length xs)" m] in auto)
qed

lemma strcpy_copied:
  "cstr m src xs \<Longrightarrow> dst \<le> src \<or> src + length xs < dst \<Longrightarrow>
     strcpy m dst src = Some (copied m dst src (Suc (length xs)), dst)"
  by (simp add: strcpy_def strcpy_loop_copied)

lemma cstr_append:
  "cstr m s (xs @ ys) \<longleftrightarrow> (\<forall>i<length xs. m (s + i) = xs ! i) \<and> 0 \<notin> set xs \<and> cstr m (s + length xs) ys"
proof (induction xs arbitrary: s)
  case (Cons x xs)
  have "(\<forall>i<length (x # xs). m (s + i) = (x # xs) ! i) \<longleftrightarrow>
      m s = x \<and> (\<forall>i<length xs. m (s + 1 + i) = xs ! i)"
    by (auto simp: less_Suc_eq_0_disj)
  with Cons show ?case by auto
qed simp

lemma chdiff_simps [simp]:
  "chdiff a b = 0 \<longleftrightarrow> a = b" "chdiff a b < 0 \<longleftrightarrow> a < b"
  by (simp_all add: chdiff_def word_less_def word_uint_eq_iff)

lemma strcmp_cstr:
  "cstr m p xs \<Longrightarrow> cstr m q ys \<Longrightarrow>
     \<exists>r. strcmp m p q = Some r \<and> (r = 0 \<longleftrightarrow> xs = ys) \<and> (r < 0 \<longleftrightarrow> xs < ys)"
proof (induction xs arbitrary: ys p q)
  case Nil
  then show ?case
    by (cases ys) (subst strcmp.simps; simp add: word_neq_0_conv)+
next
  case (Cons x xs)
  show ?case
  proof (cases ys)
    case Nil
    with Cons.prems show ?thesis by (subst strcmp.simps) auto
  next
    case ys: (Cons y ys')
    show ?thesis
    proof (cases "x = y")
      case True
      with Cons.prems Cons.IH [of "p + 1" "q + 1" ys'] ys show ?thesis
        by (subst strcmp.simps) simp
    next
      case False
      with Cons.prems ys show ?thesis
        by (subst strcmp.simps) auto
    qed
  qed
qed

lemma strncmp_cstr:
  "cstr m p xs \<Longrightarrow> cstr m q ys \<Longrightarrow>
     (strncmp m p q n = 0 \<longleftrightarrow> take n xs = take n ys) \<and>
     (strncmp m p q n < 0 \<longleftrightarrow> take n xs < take n ys)"
proof (induction n arbitrary: xs ys p q)
  case (Suc n)
  show ?case
  proof (cases xs; cases ys)
    fix x xs' y ys'
    assume eqs: "xs = x # xs'" "ys = y # ys'"
    with Suc.prems Suc.IH [of "p + 1" xs' "q + 1" ys'] show ?thesis
      by (cases "x = y") auto
  qed (use Suc.prems in \<open>auto simp: word_neq_0_conv\<close>)
qed simp

lemma strfind_cstr:
  "cstr m s xs \<Longrightarrow> c \<noteq> 0 \<Longrightarrow> strfind m s c = Some (s + length (takeWhile (\<lambda>x. x \<noteq> c) xs))"
proof (induction xs arbitrary: s)
  case Nil
  then show ?case by (subst strfind.simps) simp
next
  case (Cons x xs)
  then show ?case by (subst strfind.simps) auto
qed

lemma strchr_cstr:
  "cstr m s xs \<Longrightarrow> c \<noteq> 0 \<Longrightarrow>
     strchr m s c = Some (if c \<in> set xs then Some (s + length (takeWhile (\<lambda>x. x \<noteq> c) xs)) else None)"
proof (induction xs arbitrary: s)
  case Nil
  then show ?case by (subst strchr.simps) simp
next
  case (Cons x xs)
  then show ?case by (subst strchr.simps) auto
qed

section \<open>Block operations\<close>

definition filled :: "mem \<Rightarrow> nat \<Rightarrow> u8 \<Rightarrow> nat \<Rightarrow> mem" where
  "filled m d c n = (\<lambda>a. if d \<le> a \<and> a < d + n then c else m a)"

lemma rep_stosb_filled: "rep_stosb m d c n = filled m d c n"
proof (induction n arbitrary: m d)
  case (Suc n)
  have "filled (m(d := c)) (d + 1) c n = filled m d c (Suc n)"
    by (auto simp: filled_def fun_eq_iff)
  with Suc show ?case by (simp add: fun_upd_def)
qed (auto simp: filled_def fun_eq_iff)

lemma store4_filled:
  assumes "\<And>k. k < 4 \<Longrightarrow> ucast (drop_bit (8 * k) w) = c"
  shows "store4 m d w = filled m d c 4"
  using assms [of 0] assms [of 1] assms [of 2] assms [of 3]
  by (auto simp: store4_def filled_def fun_eq_iff)

lemma filled_filled: "filled (filled m d c k) (d + k) c n = filled m d c (k + n)"
  by (auto simp: filled_def fun_eq_iff)

lemma rep_stosl_filled:
  assumes "\<And>k. k < 4 \<Longrightarrow> ucast (drop_bit (8 * k) w) = c"
  shows "rep_stosl m d w n = filled m d c (4 * n)"
proof (induction n arbitrary: m d)
  case 0
  show ?case by (auto simp: filled_def fun_eq_iff)
next
  case (Suc n)
  have "rep_stosl m d w (Suc n) = filled (filled m d c 4) (d + 4) c (4 * n)"
    by (simp add: Suc store4_filled [OF assms])
  also have "\<dots> = filled m d c (4 + 4 * n)" by (rule filled_filled)
  finally show ?case by simp
qed

lemma stos_pattern:
  fixes c :: u32
  defines "c1 \<equiv> c AND 0xFF"
  assumes "k < 4"
  shows "(ucast (drop_bit (8 * k) (push_bit 24 c1 OR push_bit 16 c1 OR push_bit 8 c1 OR c1)) :: u8)
    = ucast c"
proof -
  have byte: "bit (0xFF :: int) n \<longleftrightarrow> n < 8" for n
  proof -
    have "(0xFF :: int) = mask 8" by (simp add: mask_eq_exp_minus_1)
    then show ?thesis by (simp only: bit_mask_iff) auto
  qed
  from assms(2) have "k = 0 \<or> k = 1 \<or> k = 2 \<or> k = 3" by auto
  then show ?thesis
    by (elim disjE; intro bit_word_eqI; simp add: c1_def bit_simps byte)
qed

lemma div4_mult: "n mod 4 = 0 \<Longrightarrow> 4 * (n div 4) = (n :: nat)"
  by auto

lemma memset_filled: "memset m v c n = filled m v (ucast c) n"
proof -
  have "rep_stosl m v (push_bit 24 (c AND 0xFF) OR push_bit 16 (c AND 0xFF)
          OR push_bit 8 (c AND 0xFF) OR c AND 0xFF) (n div 4) = filled m v (ucast c) n"
    if "n mod 4 = 0"
    using rep_stosl_filled [OF stos_pattern, of m v c "n div 4"]
    by (simp only: div4_mult [OF that])
  then show ?thesis
    by (auto simp: memset_def Let_def rep_stosb_filled filled_def fun_eq_iff)
qed

lemma rep_movsb_copied:
  "d \<le> s \<or> s + n \<le> d \<Longrightarrow> rep_movsb m d s n = copied m d s n"
proof (induction n arbitrary: m d s)
  case (Suc n)
  then have "rep_movsb m d s (Suc n) = copied (m(d := m s)) (d + 1) (s + 1) n"
    by (auto intro!: Suc.IH)
  with Suc.prems show ?case by (simp only: copied_step)
qed simp

lemma memcpy_eq_rep_movsb: "memcpy m d s n = rep_movsb m d s n"
  by (induction n arbitrary: m d s) simp_all

lemma rep_movsb_down_copied:
  "s \<le> d \<Longrightarrow> rep_movsb_down m (d + n - 1) (s + n - 1) n = copied m d s n"
proof (induction n arbitrary: m)
  case (Suc n)
  have "rep_movsb_down m (d + Suc n - 1) (s + Suc n - 1) (Suc n) =
      rep_movsb_down (m(d + n := m (s + n))) (d + n - 1) (s + n - 1) n" by simp
  also have "\<dots> = copied (m(d + n := m (s + n))) d s n" using Suc.prems by (rule Suc.IH)
  also have "\<dots> = copied m d s (Suc n)"
    using Suc.prems by (auto simp: copied_def fun_eq_iff)
  finally show ?case .
qed simp

lemma move4_copied: "move4 m d s = copied m d s 4"
proof
  fix a
  consider "a < d" | "a = d" | "a = d + 1" | "a = d + 2" | "a = d + 3" | "d + 4 \<le> a" by linarith
  then show "move4 m d s a = copied m d s 4 a"
    by cases (simp_all add: move4_def copied_def)
qed

lemma copied_block:
  assumes "d \<le> s \<or> s + (k + n) \<le> d"
  shows "copied (copied m d s k) (d + k) (s + k) n = copied m d s (k + n)"
proof
  fix a
  show "copied (copied m d s k) (d + k) (s + k) n a = copied m d s (k + n) a"
  proof (cases "d + k \<le> a \<and> a < d + (k + n)")
    case True
    then obtain j where "a = d + k + j" "j < n"
      by (metis add.assoc le_Suc_ex nat_add_left_cancel_less)
    with assms show ?thesis by (auto simp: copied_def add.assoc)
  next
    case False
    then show ?thesis by (auto simp: copied_def)
  qed
qed

lemma rep_movsl_copied:
  "d \<le> s \<or> s + 4 * n \<le> d \<Longrightarrow> rep_movsl m d s n = copied m d s (4 * n)"
proof (induction n arbitrary: m d s)
  case (Suc n)
  then have "rep_movsl m d s (Suc n) = copied (copied m d s 4) (d + 4) (s + 4) (4 * n)"
    by (auto intro!: Suc.IH simp: move4_copied)
  with Suc.prems show ?case by (simp add: copied_block)
qed simp

text \<open>The overlapping branch copies downwards and the other one upwards: both are the
  simultaneous copy.\<close>

lemma memmove_copied: "memmove m dst src n = copied m dst src n"
proof (cases "src < dst \<and> src + n > dst")
  case True
  then have "0 < n" by auto
  with True rep_movsb_down_copied [of src dst m n] show ?thesis
    by (auto simp: memmove_def Let_def move4_copied)
next
  case False
  then have "dst \<le> src \<or> src + n \<le> dst" by auto
  then have "rep_movsb m dst src n = copied m dst src n"
    and "n mod 4 = 0 \<Longrightarrow> rep_movsl m dst src (n div 4) = copied m dst src n"
    using rep_movsl_copied [of dst src "n div 4" m] div4_mult [of n]
    by (simp_all add: rep_movsb_copied)
  with False show ?thesis unfolding memmove_def by presburger
qed

lemma strncpy_loop_spec:
  assumes "cstr m src xs" "dst + n \<le> src \<or> src + length xs < dst"
  shows "strncpy_loop m dst src n a =
    (if dst \<le> a \<and> a < dst + n then (if a - dst < length xs then xs ! (a - dst) else 0) else m a)"
  using assms
proof (induction n arbitrary: m src xs dst)
  case (Suc n)
  let ?m = "m(dst := m src)"
  from Suc.prems(2) have ne: "src \<noteq> dst" by auto
  show ?case
  proof (cases xs)
    case Nil
    with Suc.prems ne have "cstr ?m src []" by simp
    with Suc.prems Nil ne Suc.IH [of ?m src "[]" "Suc dst"] show ?thesis
      by (auto simp: fun_upd_def)
  next
    case (Cons x ys)
    then have "cstr ?m (Suc src) ys"
      using Suc.prems by (subst cstr_cong [of ys ?m "Suc src" m]) auto
    with Suc.prems Cons ne Suc.IH [of ?m "Suc src" ys "Suc dst"] show ?thesis
      by (auto simp: nth_Cons' fun_upd_def)
  qed
qed auto

section \<open>Properties\<close>

text \<open>C19: \<open>memmove\<close> is a simultaneous copy for every overlap of the two blocks, every alignment and
  every length: each destination byte is the source byte of the memory before the call, and no
  other byte changes, whichever of its four instruction sequences runs.\<close>

theorem memmove_correct:
  "memmove m dst src n a = (if dst \<le> a \<and> a < dst + n then m (src + (a - dst)) else m a)"
  by (simp add: memmove_copied copied_def)

text \<open>C20: \<open>memset\<close> stores the low byte of \<open>c\<close> in the \<open>n\<close> bytes from \<open>v\<close> and nothing else, also when
  the aligned branch stores it as a replicated 32-bit pattern.\<close>

theorem memset_correct:
  "memset m v c n a = (if v \<le> a \<and> a < v + n then ucast c else m a)"
  by (simp add: memset_filled filled_def)

text \<open>C21: On terminated strings \<open>strcmp\<close> returns, with zero exactly when the strings are equal and a
  negative value exactly when the first is smaller in the dictionary order of unsigned bytes.\<close>

theorem strcmp_correct:
  assumes "cstr m p xs" "cstr m q ys"
  shows "\<exists>r. strcmp m p q = Some r \<and> (r = 0 \<longleftrightarrow> xs = ys) \<and> (r < 0 \<longleftrightarrow> xs < ys)"
  using assms by (rule strcmp_cstr)

theorem strcmp_correct_witness:
  "\<exists>r. strcmp ((\<lambda>_. 0)(10 := 97, 11 := 200, 20 := 97, 21 := 98)) 10 20 = Some r \<and> r > 0"
proof -
  let ?m = "(\<lambda>_. 0)(10 := 97, 11 := 200, 20 := 97, 21 := 98) :: mem"
  have "cstr ?m 10 [97, 200]" "cstr ?m 20 [97, 98]" by simp_all
  from strcmp_correct [OF this] obtain r
    where "strcmp ?m 10 20 = Some r" "r = 0 \<longleftrightarrow> [97, 200] = [97, 98 :: u8]"
      "r < 0 \<longleftrightarrow> [97, 200] < [97, 98 :: u8]" by blast
  then show ?thesis by (intro exI [of _ r]) simp
qed

text \<open>\<open>strcat\<close> on a terminated destination and a terminated source that lies wholly outside the
  destination's final extent returns, leaves the concatenation there and changes no byte outside
  the appended part.\<close>

lemma strcat_correct:
  assumes "cstr m dst xs" "cstr m src ys"
    and "dst + length xs + length ys < src \<or> src + length ys < dst"
  shows "\<exists>m'. strcat m dst src = Some (m', dst) \<and> cstr m' dst (xs @ ys) \<and>
    (\<forall>a. a < dst + length xs \<or> dst + length xs + length ys < a \<longrightarrow> m' a = m a)"
proof -
  let ?d = "dst + length xs" and ?n = "Suc (length ys)"
  have "?d \<le> src \<or> src + length ys < ?d" using assms(3) by auto
  then have "strcat m dst src = Some (copied m ?d src ?n, dst)"
    using assms by (simp add: strcat_def strlen_cstr strcpy_copied)
  moreover have "cstr (copied m ?d src ?n) dst (xs @ ys)"
    unfolding cstr_append using assms(1,2) cstr_copied [OF assms(2) refl]
    by (auto simp: cstr_iff copied_def)
  moreover have "\<forall>a. a < ?d \<or> ?d + length ys < a \<longrightarrow> copied m ?d src ?n a = m a"
    by (auto simp: copied_def)
  ultimately show ?thesis by blast
qed

end
