(* ===== verification/Pages.thy ===== *)
theory Pages
  imports Prelude
begin

text \<open>
  Page descriptors (\<^verbatim>\<open>struct Page\<close> of \<^verbatim>\<open>src/kernel/mm/memlayout.h\<close>) with their flag bits, and the
  contract of a physical memory manager (\<^verbatim>\<open>struct PmmManager\<close>) as the locale \<open>pmm_manager\<close>.  A pointer
  into the page array is its index.  \<open>run_reqs\<close> drives a manager with a sequence of requests; its
  safety is proved once from the contract and holds for the three managers that interpret it.
\<close>

section \<open>Page descriptors\<close>

definition KERNEL_BASE :: u32 where "KERNEL_BASE = 0xC0000000"

record page =
  pg_ref :: int
  pg_flags :: u32
  pg_property :: nat
  pg_zone :: nat
  pg_index :: u32

definition PG_reserved :: nat where "PG_reserved = 0"
definition PG_property :: nat where "PG_property = 1"
definition PG_slab :: nat where "PG_slab = 2"
definition PG_dirty :: nat where "PG_dirty = 3"
definition PG_swap :: nat where "PG_swap = 4"
definition PG_active :: nat where "PG_active = 5"

lemmas PG_defs = PG_reserved_def PG_property_def PG_slab_def PG_dirty_def PG_swap_def PG_active_def

definition PageReserved :: "page \<Rightarrow> bool" where
  "PageReserved p = test_bit_w PG_reserved (pg_flags p)"

definition SetPageReserved :: "page \<Rightarrow> page" where
  "SetPageReserved p = p\<lparr>pg_flags := set_bit_w PG_reserved (pg_flags p)\<rparr>"

definition PageProperty :: "page \<Rightarrow> bool" where
  "PageProperty p = test_bit_w PG_property (pg_flags p)"

definition SetPageProperty :: "page \<Rightarrow> page" where
  "SetPageProperty p = p\<lparr>pg_flags := set_bit_w PG_property (pg_flags p)\<rparr>"

definition ClearPageProperty :: "page \<Rightarrow> page" where
  "ClearPageProperty p = p\<lparr>pg_flags := clear_bit_w PG_property (pg_flags p)\<rparr>"

definition set_page_ref :: "int \<Rightarrow> page \<Rightarrow> page" where
  "set_page_ref r p = p\<lparr>pg_ref := r\<rparr>"

definition page_ref_inc :: "page \<Rightarrow> int \<times> page" where
  "page_ref_inc p = (let r = pg_ref p + 1 in (r, p\<lparr>pg_ref := r\<rparr>))"

definition page_ref_dec :: "page \<Rightarrow> int \<times> page" where
  "page_ref_dec p = (let r = pg_ref p - 1 in (r, p\<lparr>pg_ref := r\<rparr>))"

lemma page_property_flag [simp]:
  "PageProperty (SetPageProperty p)" "\<not> PageProperty (ClearPageProperty p)"
  "pg_flags p = 0 \<Longrightarrow> \<not> PageProperty p"
  by (simp_all add: PageProperty_def SetPageProperty_def ClearPageProperty_def PG_defs)

lemma page_reserved_flag [simp]:
  "PageReserved (SetPageReserved p)"
  "PageReserved (SetPageProperty p) = PageReserved p"
  "PageReserved (ClearPageProperty p) = PageReserved p"
  "pg_flags p = 0 \<Longrightarrow> \<not> PageReserved p"
  by (simp_all add: PageReserved_def SetPageReserved_def SetPageProperty_def ClearPageProperty_def
      PG_defs)

lemma page_flag_upd [simp]:
  "PageReserved (p\<lparr>pg_property := n\<rparr>) = PageReserved p"
  "PageReserved (p\<lparr>pg_ref := r\<rparr>) = PageReserved p"
  "PageReserved (p\<lparr>pg_zone := z\<rparr>) = PageReserved p"
  "PageProperty (p\<lparr>pg_property := n\<rparr>) = PageProperty p"
  "PageProperty (p\<lparr>pg_ref := r\<rparr>) = PageProperty p"
  "PageProperty (p\<lparr>pg_zone := z\<rparr>) = PageProperty p"
  by (simp_all add: PageReserved_def PageProperty_def)

lemma page_fields [simp]:
  "pg_property (SetPageProperty p) = pg_property p"
  "pg_property (ClearPageProperty p) = pg_property p"
  "pg_zone (SetPageProperty p) = pg_zone p"
  "pg_zone (ClearPageProperty p) = pg_zone p"
  "pg_property (set_page_ref r p) = pg_property p"
  "pg_zone (set_page_ref r p) = pg_zone p"
  "pg_flags (set_page_ref r p) = pg_flags p"
  by (simp_all add: SetPageProperty_def ClearPageProperty_def set_page_ref_def)

section \<open>The contract of a memory manager\<close>

text \<open>A request sequence: allocate a block, or free the \<open>i\<close>-th block still held.\<close>

datatype mreq = MAlloc nat | MFree nat

fun run_reqs :: "(nat \<Rightarrow> 's \<Rightarrow> (nat option \<times> 's) option) \<Rightarrow> (nat \<Rightarrow> nat \<Rightarrow> 's \<Rightarrow> 's option) \<Rightarrow>
    mreq list \<Rightarrow> 's \<Rightarrow> (nat \<times> nat) list \<Rightarrow> ('s \<times> (nat \<times> nat) list) option" where
  "run_reqs alloc free [] s held = Some (s, held)"
| "run_reqs alloc free (MAlloc n # rs) s held = do {
     (r, s') \<leftarrow> alloc n s;
     run_reqs alloc free rs s' (case r of None \<Rightarrow> held | Some p \<Rightarrow> (p, n) # held)
   }"
| "run_reqs alloc free (MFree i # rs) s held =
     (if i < length held then do {
        s' \<leftarrow> free (fst (held ! i)) (snd (held ! i)) s;
        run_reqs alloc free rs s' (take i held @ drop (Suc i) held)
      }
      else run_reqs alloc free rs s held)"

definition block :: "nat \<times> nat \<Rightarrow> nat set" where
  "block b = {fst b..<fst b + snd b}"

fun blocks_disjoint :: "(nat \<times> nat) list \<Rightarrow> bool" where
  "blocks_disjoint [] \<longleftrightarrow> True"
| "blocks_disjoint (b # bs) \<longleftrightarrow> (\<forall>c\<in>set bs. block b \<inter> block c = {}) \<and> blocks_disjoint bs"

definition held_pages :: "(nat \<times> nat) list \<Rightarrow> nat set" where
  "held_pages bs = (\<Union>b\<in>set bs. block b)"

lemma card_block [simp]: "card (block b) = snd b" "finite (block b)"
  by (simp_all add: block_def)

lemma held_pages_simps [simp]:
  "held_pages [] = {}" "held_pages (b # bs) = block b \<union> held_pages bs"
  "held_pages (bs @ cs) = held_pages bs \<union> held_pages cs" "finite (held_pages bs)"
  by (auto simp: held_pages_def)

lemma blocks_disjoint_append:
  "blocks_disjoint (bs @ cs) \<longleftrightarrow>
     blocks_disjoint bs \<and> blocks_disjoint cs \<and> held_pages bs \<inter> held_pages cs = {}"
  by (induction bs) (auto simp: held_pages_def)

lemma held_split:
  "i < length held \<Longrightarrow> held = take i held @ held ! i # drop (Suc i) held"
  by (rule id_take_nth_drop)

lemma card_held_pages: "blocks_disjoint bs \<Longrightarrow> card (held_pages bs) = sum_list (map snd bs)"
proof (induction bs)
  case (Cons b bs)
  then have "block b \<inter> held_pages bs = {}" by (auto simp: held_pages_def)
  with Cons show ?case by (simp add: card_Un_disjoint)
qed simp

lemma sum_held_single: "(\<forall>p n. (p, n) \<in> set bs \<longrightarrow> n = 1) \<Longrightarrow> sum_list (map snd bs) = length bs"
  by (induction bs) auto

text \<open>The laws.  \<open>usable s p n\<close>: the pages \<open>p .. p + n - 1\<close> are memory that the manager was given
  and may take back; \<open>req n\<close>: the sizes the manager serves without stopping the machine.\<close>

locale pmm_manager =
  fixes inv :: "'s \<Rightarrow> bool"
    and free_set :: "'s \<Rightarrow> nat set"
    and nr_free_pages :: "'s \<Rightarrow> nat"
    and usable :: "'s \<Rightarrow> nat \<Rightarrow> nat \<Rightarrow> bool"
    and req :: "nat \<Rightarrow> bool"
    and alloc :: "nat \<Rightarrow> 's \<Rightarrow> (nat option \<times> 's) option"
    and free :: "nat \<Rightarrow> nat \<Rightarrow> 's \<Rightarrow> 's option"
  assumes free_finite: "inv s \<Longrightarrow> finite (free_set s)"
    and nr_free: "inv s \<Longrightarrow> nr_free_pages s = card (free_set s)"
    and alloc_returns: "inv s \<Longrightarrow> req n \<Longrightarrow> \<exists>r s'. alloc n s = Some (r, s')"
    and alloc_fails: "inv s \<Longrightarrow> req n \<Longrightarrow> alloc n s = Some (None, s') \<Longrightarrow> s' = s"
    and alloc_inv: "inv s \<Longrightarrow> req n \<Longrightarrow> alloc n s = Some (Some p, s') \<Longrightarrow> inv s'"
    and alloc_block: "inv s \<Longrightarrow> req n \<Longrightarrow> alloc n s = Some (Some p, s') \<Longrightarrow>
          {p..<p + n} \<subseteq> free_set s \<and> free_set s' = free_set s - {p..<p + n} \<and> usable s' p n"
    and alloc_usable: "inv s \<Longrightarrow> req n \<Longrightarrow> alloc n s = Some (r, s') \<Longrightarrow> usable s q k \<Longrightarrow> usable s' q k"
    and free_block: "inv s \<Longrightarrow> req n \<Longrightarrow> usable s p n \<Longrightarrow> {p..<p + n} \<inter> free_set s = {} \<Longrightarrow>
          \<exists>s'. free p n s = Some s' \<and> inv s' \<and> free_set s' = free_set s \<union> {p..<p + n} \<and>
            (\<forall>q k. usable s q k \<longrightarrow> usable s' q k)"
begin

definition consistent :: "'s \<Rightarrow> (nat \<times> nat) list \<Rightarrow> bool" where
  "consistent s held \<longleftrightarrow> inv s \<and> blocks_disjoint held \<and> held_pages held \<inter> free_set s = {} \<and>
     (\<forall>p n. (p, n) \<in> set held \<longrightarrow> req n \<and> usable s p n)"

lemma alloc_consistent:
  assumes "consistent s held" "req n"
  shows "\<exists>r s'. alloc n s = Some (r, s') \<and>
    (let held' = (case r of None \<Rightarrow> held | Some p \<Rightarrow> (p, n) # held) in
     consistent s' held' \<and> free_set s' \<union> held_pages held' = free_set s \<union> held_pages held)"
proof -
  have inv: "inv s" using assms by (simp add: consistent_def)
  from alloc_returns [OF inv assms(2)] obtain r s' where a: "alloc n s = Some (r, s')" by blast
  show ?thesis
  proof (cases r)
    case None
    with alloc_fails [OF inv assms(2)] a have "s' = s" by simp
    with assms(1) a None show ?thesis by simp
  next
    case (Some p)
    note a' = a [unfolded Some]
    note blk = alloc_block [OF inv assms(2) a']
    have "inv s'" by (rule alloc_inv [OF inv assms(2) a'])
    moreover have "usable s' q k" if "(q, k) \<in> set held" for q k
      using that assms(1) alloc_usable [OF inv assms(2) a] by (auto simp: consistent_def)
    moreover have "\<forall>c\<in>set held. block (p, n) \<inter> block c = {}"
      using blk assms(1) by (fastforce simp: consistent_def held_pages_def block_def)
    moreover have "held_pages held \<inter> free_set s' = {}"
      using blk assms(1) by (auto simp: consistent_def)
    ultimately have "consistent s' ((p, n) # held)"
      using blk assms by (auto simp: consistent_def block_def)
    moreover have "free_set s' \<union> held_pages ((p, n) # held) = free_set s \<union> held_pages held"
      using blk by (auto simp: block_def)
    ultimately show ?thesis using a Some by simp
  qed
qed

lemma free_consistent:
  assumes "consistent s held" "i < length held"
  shows "\<exists>s'. free (fst (held ! i)) (snd (held ! i)) s = Some s' \<and>
    (let held' = take i held @ drop (Suc i) held in
     consistent s' held' \<and> free_set s' \<union> held_pages held' = free_set s \<union> held_pages held)"
proof -
  obtain xs p n ys where held: "held = xs @ (p, n) # ys" "xs = take i held" "ys = drop (Suc i) held"
      "held ! i = (p, n)"
    using held_split [OF assms(2)] by (metis surj_pair)
  have req: "req n" "usable s p n" "inv s" "{p..<p + n} \<inter> free_set s = {}"
    using assms(1) by (auto simp: consistent_def held(1) block_def)
  from free_block [OF req(3,1,2,4)] obtain s' where s': "free p n s = Some s'" "inv s'"
      "free_set s' = free_set s \<union> {p..<p + n}" "\<And>q k. usable s q k \<Longrightarrow> usable s' q k"
    by blast
  have "block (p, n) \<inter> held_pages (xs @ ys) = {}"
    using assms(1) by (auto simp: consistent_def held(1) blocks_disjoint_append held_pages_def)
  then have "consistent s' (xs @ ys)"
    using assms(1) s' by (auto simp: consistent_def held(1) blocks_disjoint_append block_def)
  with s' show ?thesis by (auto simp: held(4) block_def Let_def simp flip: held(2,3))
    (auto simp: held(1) block_def)
qed

theorem run_consistent:
  assumes "consistent s held" "\<And>n. MAlloc n \<in> set rs \<Longrightarrow> req n"
  shows "\<exists>s' held'. run_reqs alloc free rs s held = Some (s', held') \<and> consistent s' held' \<and>
    free_set s' \<union> held_pages held' = free_set s \<union> held_pages held"
  using assms
proof (induction rs arbitrary: s held)
  case (Cons r rs)
  show ?case
  proof (cases r)
    case (MAlloc n)
    then have "req n" using Cons.prems(2) [of n] by simp
    from alloc_consistent [OF Cons.prems(1) this] obtain r' s' where
      "alloc n s = Some (r', s')" and
      *: "consistent s' (case r' of None \<Rightarrow> held | Some p \<Rightarrow> (p, n) # held)" and
      "free_set s' \<union> held_pages (case r' of None \<Rightarrow> held | Some p \<Rightarrow> (p, n) # held)
         = free_set s \<union> held_pages held"
      by (auto simp: Let_def)
    moreover from Cons.IH [OF *] Cons.prems(2) obtain s'' held'' where
      "run_reqs alloc free rs s' (case r' of None \<Rightarrow> held | Some p \<Rightarrow> (p, n) # held) = Some (s'', held'')"
      "consistent s'' held''"
      "free_set s'' \<union> held_pages held''
         = free_set s' \<union> held_pages (case r' of None \<Rightarrow> held | Some p \<Rightarrow> (p, n) # held)"
      by (metis list.set_intros(2))
    ultimately show ?thesis using MAlloc by simp
  next
    case (MFree i)
    show ?thesis
    proof (cases "i < length held")
      case True
      from free_consistent [OF Cons.prems(1) True] obtain s' where
        "free (fst (held ! i)) (snd (held ! i)) s = Some s'" and
        *: "consistent s' (take i held @ drop (Suc i) held)" and
        "free_set s' \<union> held_pages (take i held @ drop (Suc i) held) = free_set s \<union> held_pages held"
        by (auto simp: Let_def)
      moreover from Cons.IH [OF *] Cons.prems(2) obtain s'' held'' where
        "run_reqs alloc free rs s' (take i held @ drop (Suc i) held) = Some (s'', held'')"
        "consistent s'' held''"
        "free_set s'' \<union> held_pages held'' = free_set s' \<union> held_pages (take i held @ drop (Suc i) held)"
        by (metis list.set_intros(2))
      ultimately show ?thesis using MFree True by simp
    next
      case False
      with Cons MFree show ?thesis by simp
    qed
  qed
qed simp

text \<open>No request sequence stops the machine, hands out a page twice, or loses a page.\<close>

theorem run_safe:
  assumes "inv s" "\<And>n. MAlloc n \<in> set rs \<Longrightarrow> req n"
  shows "\<exists>s' held. run_reqs alloc free rs s [] = Some (s', held) \<and> inv s' \<and> blocks_disjoint held \<and>
    held_pages held \<inter> free_set s' = {} \<and> free_set s' \<union> held_pages held = free_set s \<and>
    (\<forall>p n. (p, n) \<in> set held \<longrightarrow> req n) \<and> nr_free_pages s' + sum_list (map snd held) = nr_free_pages s"
proof -
  have "consistent s []" using assms(1) by (simp add: consistent_def)
  from run_consistent [OF this, of rs] assms(2) obtain s' held where
    r: "run_reqs alloc free rs s [] = Some (s', held)" "consistent s' held"
      "free_set s' \<union> held_pages held = free_set s" by auto
  from r(2) have c: "inv s'" "blocks_disjoint held" "held_pages held \<inter> free_set s' = {}"
    "\<forall>p n. (p, n) \<in> set held \<longrightarrow> req n"
    by (simp_all add: consistent_def)
  have "card (free_set s) = card (free_set s') + card (held_pages held)"
    using r(3) c(3) free_finite [OF c(1)]
    by (metis Int_commute card_Un_disjoint held_pages_simps(4))
  with r c assms(1) show ?thesis by (auto simp: nr_free card_held_pages)
qed

end

end
