(* ===== verification/Default_pmm.thy ===== *)
theory Default_pmm
  imports Pages
begin

text \<open>
  The single-page manager of \<^verbatim>\<open>src/kernel/mm/default_pmm.c\<close> and the state it shares with the
  best-fit manager: the page array, one free list and the free counter (\<^verbatim>\<open>free_area_t\<close>).
\<close>

record free_area =
  fa_pages :: "nat \<Rightarrow> page"
  fa_list :: "nat list"
  fa_nr :: nat

definition upd_page :: "nat \<Rightarrow> (page \<Rightarrow> page) \<Rightarrow> free_area \<Rightarrow> free_area" where
  "upd_page p f s = s\<lparr>fa_pages := (fa_pages s)(p := f (fa_pages s p))\<rparr>"

lemma upd_page_simps [simp]:
  "fa_pages (upd_page p f s) = (fa_pages s)(p := f (fa_pages s p))"
  "fa_list (upd_page p f s) = fa_list s" "fa_nr (upd_page p f s) = fa_nr s"
  by (simp_all add: upd_page_def)

section \<open>Operations\<close>

definition default_init :: "free_area \<Rightarrow> free_area" where
  "default_init s = s\<lparr>fa_list := [], fa_nr := 0\<rparr>"

fun default_init_loop :: "nat \<Rightarrow> nat \<Rightarrow> free_area \<Rightarrow> free_area option" where
  "default_init_loop 0 p s = Some s"
| "default_init_loop (Suc k) p s = do {
     kassert (PageReserved (fa_pages s p));
     let s1 = upd_page p (\<lambda>pg. set_page_ref 0 (pg\<lparr>pg_flags := 0\<rparr>)) s;
     default_init_loop k (p + 1) (s1\<lparr>fa_list := p # fa_list s1\<rparr>)
   }"

definition default_init_memmap :: "nat \<Rightarrow> nat \<Rightarrow> free_area \<Rightarrow> free_area option" where
  "default_init_memmap base n s = do {
     s' \<leftarrow> default_init_loop n base s;
     Some (s'\<lparr>fa_nr := fa_nr s' + n\<rparr>)
   }"

definition default_alloc_pages :: "nat \<Rightarrow> free_area \<Rightarrow> (nat option \<times> free_area) option" where
  "default_alloc_pages n s = do {
     kassert (n = 1);
     case fa_list s of
       [] \<Rightarrow> Some (None, s)
     | p # _ \<Rightarrow> Some (Some p, s\<lparr>fa_nr := fa_nr s - 1, fa_list := remove1 p (fa_list s)\<rparr>)
   }"

definition default_free_pages :: "nat \<Rightarrow> nat \<Rightarrow> free_area \<Rightarrow> free_area option" where
  "default_free_pages base n s = do {
     kassert (n = 1 \<and> \<not> PageReserved (fa_pages s base));
     let s1 = upd_page base (\<lambda>pg. set_page_ref 0 (pg\<lparr>pg_flags := 0\<rparr>)) s;
     Some (s1\<lparr>fa_nr := fa_nr s1 + 1, fa_list := base # fa_list s1\<rparr>)
   }"

definition default_nr_free_pages :: "free_area \<Rightarrow> nat" where
  "default_nr_free_pages s = fa_nr s"

section \<open>Invariant and contract\<close>

definition default_inv :: "free_area \<Rightarrow> bool" where
  "default_inv s \<longleftrightarrow> distinct (fa_list s) \<and> fa_nr s = length (fa_list s) \<and>
     (\<forall>p\<in>set (fa_list s). \<not> PageReserved (fa_pages s p))"

definition fa_usable :: "free_area \<Rightarrow> nat \<Rightarrow> nat \<Rightarrow> bool" where
  "fa_usable s p n \<longleftrightarrow> (\<forall>q. p \<le> q \<and> q < p + n \<longrightarrow> \<not> PageReserved (fa_pages s q))"

lemma default_init_inv: "default_inv (default_init s)"
  by (simp add: default_inv_def default_init_def)

lemma default_init_loop_spec:
  "\<forall>q. p \<le> q \<and> q < p + k \<longrightarrow> PageReserved (fa_pages s q) \<Longrightarrow>
     \<exists>s'. default_init_loop k p s = Some s' \<and> fa_list s' = rev [p..<p + k] @ fa_list s \<and>
       fa_nr s' = fa_nr s \<and>
       (\<forall>q. PageReserved (fa_pages s' q) \<longleftrightarrow> PageReserved (fa_pages s q) \<and> \<not> (p \<le> q \<and> q < p + k))"
proof (induction k arbitrary: p s)
  case (Suc k)
  let ?s1 = "upd_page p (\<lambda>pg. set_page_ref 0 (pg\<lparr>pg_flags := 0\<rparr>)) s"
  let ?s2 = "?s1\<lparr>fa_list := p # fa_list s\<rparr>"
  have "\<forall>q. p + 1 \<le> q \<and> q < p + 1 + k \<longrightarrow> PageReserved (fa_pages ?s2 q)"
    using Suc.prems by simp
  from Suc.IH [OF this] obtain s' where s': "default_init_loop k (p + 1) ?s2 = Some s'"
    "fa_list s' = rev [p + 1..<p + 1 + k] @ p # fa_list s" "fa_nr s' = fa_nr s"
    "\<forall>q. PageReserved (fa_pages s' q) \<longleftrightarrow>
       PageReserved (fa_pages ?s2 q) \<and> \<not> (p + 1 \<le> q \<and> q < p + 1 + k)" by auto
  have "[p..<p + Suc k] = p # [p + 1..<p + 1 + k]" by (simp add: upt_rec)
  with s' Suc.prems show ?case by (auto simp: Let_def)
qed simp

lemma default_init_memmap_spec:
  assumes "default_inv s" "\<forall>q. base \<le> q \<and> q < base + n \<longrightarrow> PageReserved (fa_pages s q)"
  shows "\<exists>s'. default_init_memmap base n s = Some s' \<and> default_inv s' \<and>
    set (fa_list s') = set (fa_list s) \<union> {base..<base + n}"
proof -
  from default_init_loop_spec [OF assms(2)] obtain s' where
    s': "default_init_loop n base s = Some s'" "fa_list s' = rev [base..<base + n] @ fa_list s"
    "fa_nr s' = fa_nr s" "\<forall>q. PageReserved (fa_pages s' q) \<longleftrightarrow>
       PageReserved (fa_pages s q) \<and> \<not> (base \<le> q \<and> q < base + n)" by blast
  have "set (fa_list s) \<inter> {base..<base + n} = {}"
    using assms by (auto simp: default_inv_def)
  with s' assms show ?thesis by (auto simp: default_init_memmap_def default_inv_def)
qed

lemma default_free_spec:
  assumes "default_inv s" "\<not> PageReserved (fa_pages s p)" "p \<notin> set (fa_list s)"
  shows "\<exists>s'. default_free_pages p 1 s = Some s' \<and> default_inv s' \<and>
    set (fa_list s') = insert p (set (fa_list s)) \<and> (\<forall>q k. fa_usable s q k \<longrightarrow> fa_usable s' q k)"
  using assms by (auto simp: default_free_pages_def default_inv_def fa_usable_def)

interpretation dpm: pmm_manager default_inv "\<lambda>s. set (fa_list s)" default_nr_free_pages fa_usable
  "\<lambda>n. n = 1" default_alloc_pages default_free_pages
proof
  fix s s' :: free_area and n p q k :: nat and r :: "nat option"
  assume inv: "default_inv s"
  show "default_nr_free_pages s = card (set (fa_list s))"
    using inv by (simp add: default_nr_free_pages_def default_inv_def distinct_card)
  assume n: "n = 1"
  show "\<exists>r s'. default_alloc_pages n s = Some (r, s')"
    using n by (cases "fa_list s") (auto simp: default_alloc_pages_def)
  show "s' = s" if "default_alloc_pages n s = Some (None, s')"
    using that n by (cases "fa_list s") (auto simp: default_alloc_pages_def)
  show "default_inv s'" if "default_alloc_pages n s = Some (Some p, s')"
    using that n inv by (cases "fa_list s") (auto simp: default_alloc_pages_def default_inv_def)
  show "{p..<p + n} \<subseteq> set (fa_list s) \<and> set (fa_list s') = set (fa_list s) - {p..<p + n} \<and>
      fa_usable s' p n" if "default_alloc_pages n s = Some (Some p, s')"
    using that n inv
    by (cases "fa_list s") (auto simp: default_alloc_pages_def default_inv_def fa_usable_def le_less_Suc_eq)
  show "fa_usable s' q k" if "default_alloc_pages n s = Some (r, s')" "fa_usable s q k"
    using that n by (cases "fa_list s") (auto simp: default_alloc_pages_def fa_usable_def)
  assume "fa_usable s p n" "{p..<p + n} \<inter> set (fa_list s) = {}"
  with n have "\<not> PageReserved (fa_pages s p)" "p \<notin> set (fa_list s)" by (auto simp: fa_usable_def)
  from default_free_spec [OF inv this]
  show "\<exists>s'. default_free_pages p n s = Some s' \<and> default_inv s' \<and>
      set (fa_list s') = set (fa_list s) \<union> {p..<p + n} \<and> (\<forall>q k. fa_usable s q k \<longrightarrow> fa_usable s' q k)"
    using n by auto
qed simp

section \<open>Properties\<close>

text \<open>C26: The default manager, given one reserved region after initialisation, serves every sequence
  of single-page requests and releases without stopping: the blocks held are disjoint from each
  other and from the free pages, together they are the region, and the counter is the number of
  free pages.\<close>

theorem default_pmm_safe:
  assumes "\<forall>q. base \<le> q \<and> q < base + n \<longrightarrow> PageReserved (fa_pages s q)"
    and "\<And>k. MAlloc k \<in> set rs \<Longrightarrow> k = 1"
  shows "\<exists>s0 s' held. default_init_memmap base n (default_init s) = Some s0 \<and>
    run_reqs default_alloc_pages default_free_pages rs s0 [] = Some (s', held) \<and>
    blocks_disjoint held \<and> held_pages held \<inter> set (fa_list s') = {} \<and>
    set (fa_list s') \<union> held_pages held = {base..<base + n} \<and>
    default_nr_free_pages s' + length held = n"
proof -
  have "\<forall>q. base \<le> q \<and> q < base + n \<longrightarrow> PageReserved (fa_pages (default_init s) q)"
    using assms(1) by (simp add: default_init_def)
  from default_init_memmap_spec [OF default_init_inv this] obtain s0 where
    s0: "default_init_memmap base n (default_init s) = Some s0" "default_inv s0"
      "set (fa_list s0) = {base..<base + n}" by (auto simp: default_init_def)
  from dpm.run_safe [OF s0(2), of rs] assms(2) obtain s' held where
    r: "run_reqs default_alloc_pages default_free_pages rs s0 [] = Some (s', held)"
      "blocks_disjoint held" "held_pages held \<inter> set (fa_list s') = {}"
      "set (fa_list s') \<union> held_pages held = set (fa_list s0)"
      "\<forall>p n. (p, n) \<in> set held \<longrightarrow> n = 1"
      "default_nr_free_pages s' + sum_list (map snd held) = default_nr_free_pages s0" by blast
  with s0 dpm.nr_free [OF s0(2)] sum_held_single [OF r(5)] show ?thesis by auto
qed

theorem default_pmm_safe_witness:
  "\<exists>s0 s' held. default_init_memmap 5 3 (default_init \<lparr>fa_pages = \<lambda>_. \<lparr>pg_ref = 1, pg_flags = 1,
       pg_property = 0, pg_zone = 0, pg_index = 0\<rparr>, fa_list = [], fa_nr = 0\<rparr>) = Some s0 \<and>
    run_reqs default_alloc_pages default_free_pages [MAlloc 1, MAlloc 1, MFree 0] s0 [] = Some (s', held) \<and>
    default_nr_free_pages s' + length held = 3"
  using default_pmm_safe [of 5 3 "\<lparr>fa_pages = \<lambda>_. \<lparr>pg_ref = 1, pg_flags = 1,
       pg_property = 0, pg_zone = 0, pg_index = 0\<rparr>, fa_list = [], fa_nr = 0\<rparr>"
       "[MAlloc 1, MAlloc 1, MFree 0]"]
  by (auto simp: PageReserved_def PG_defs test_bit_w_def)

end
