(* ===== verification/Bestfit_pmm.thy ===== *)
theory Bestfit_pmm
  imports Default_pmm
begin

text \<open>
  The best-fit manager of \<^verbatim>\<open>src/kernel/mm/bestfit_pmm.c\<close>: blocks of contiguous pages on one free
  list, the head page of a block carrying its length, splitting on allocation and coalescing with
  both neighbours on release.
\<close>

section \<open>Operations\<close>

definition bestfit_init :: "free_area \<Rightarrow> free_area" where
  "bestfit_init s = s\<lparr>fa_list := [], fa_nr := 0\<rparr>"

fun bestfit_init_loop :: "nat \<Rightarrow> nat \<Rightarrow> free_area \<Rightarrow> free_area option" where
  "bestfit_init_loop 0 p s = Some s"
| "bestfit_init_loop (Suc k) p s = do {
     kassert (PageReserved (fa_pages s p));
     bestfit_init_loop k (p + 1)
       (upd_page p (\<lambda>pg. set_page_ref 0 (pg\<lparr>pg_flags := 0, pg_property := 0\<rparr>)) s)
   }"

definition bestfit_init_memmap :: "nat \<Rightarrow> nat \<Rightarrow> free_area \<Rightarrow> free_area option" where
  "bestfit_init_memmap base n s = do {
     kassert (n > 0);
     s1 \<leftarrow> bestfit_init_loop n base s;
     let s2 = upd_page base (\<lambda>pg. SetPageProperty (pg\<lparr>pg_property := n\<rparr>)) s1;
     Some (s2\<lparr>fa_nr := fa_nr s2 + n, fa_list := base # fa_list s2\<rparr>)
   }"

fun bestfit_scan :: "(nat \<Rightarrow> page) \<Rightarrow> nat \<Rightarrow> nat list \<Rightarrow> nat option \<Rightarrow> nat option" where
  "bestfit_scan pgs n [] page = page"
| "bestfit_scan pgs n (p # ps) page =
     (if pg_property (pgs p) \<ge> n \<and>
         (case page of None \<Rightarrow> True | Some b \<Rightarrow> pg_property (pgs p) < pg_property (pgs b))
      then bestfit_scan pgs n ps (Some p)
      else bestfit_scan pgs n ps page)"

definition bestfit_alloc_pages :: "nat \<Rightarrow> free_area \<Rightarrow> (nat option \<times> free_area) option" where
  "bestfit_alloc_pages n s = do {
     kassert (n > 0);
     if n > fa_nr s then Some (None, s)
     else case bestfit_scan (fa_pages s) n (fa_list s) None of
       None \<Rightarrow> Some (None, s)
     | Some page \<Rightarrow>
         let s1 = s\<lparr>fa_list := remove1 page (fa_list s)\<rparr>;
             s2 = (if pg_property (fa_pages s1 page) > n
                   then let p = page + n;
                            s' = upd_page p
                              (\<lambda>pg. pg\<lparr>pg_property := pg_property (fa_pages s1 page) - n\<rparr>) s1
                        in s'\<lparr>fa_list := p # fa_list s'\<rparr>
                   else s1);
             s3 = s2\<lparr>fa_nr := fa_nr s2 - n\<rparr>
         in Some (Some page, upd_page page ClearPageProperty s3)
   }"

fun bestfit_free_loop :: "nat \<Rightarrow> nat \<Rightarrow> free_area \<Rightarrow> free_area option" where
  "bestfit_free_loop 0 p s = Some s"
| "bestfit_free_loop (Suc k) p s = do {
     kassert (\<not> PageReserved (fa_pages s p) \<and> \<not> PageProperty (fa_pages s p));
     bestfit_free_loop k (p + 1) (upd_page p (\<lambda>pg. set_page_ref 0 (pg\<lparr>pg_flags := 0\<rparr>)) s)
   }"

text \<open>The coalescing traversal: the next entry is read before the current one may be unlinked, so
  it visits the entries the list had at the start.\<close>

fun bestfit_merge :: "nat list \<Rightarrow> nat \<Rightarrow> free_area \<Rightarrow> nat \<times> free_area" where
  "bestfit_merge [] base s = (base, s)"
| "bestfit_merge (p # es) base s =
     (if base + pg_property (fa_pages s base) = p
      then let s1 = upd_page base
                 (\<lambda>pg. pg\<lparr>pg_property := pg_property pg + pg_property (fa_pages s p)\<rparr>) s;
               s2 = upd_page p ClearPageProperty s1
           in bestfit_merge es base (s2\<lparr>fa_list := remove1 p (fa_list s2)\<rparr>)
      else if p + pg_property (fa_pages s p) = base
      then let s1 = upd_page p
                 (\<lambda>pg. pg\<lparr>pg_property := pg_property pg + pg_property (fa_pages s base)\<rparr>) s;
               s2 = upd_page base ClearPageProperty s1
           in bestfit_merge es p (s2\<lparr>fa_list := remove1 p (fa_list s2)\<rparr>)
      else bestfit_merge es base s)"

definition bestfit_free_pages :: "nat \<Rightarrow> nat \<Rightarrow> free_area \<Rightarrow> free_area option" where
  "bestfit_free_pages base n s = do {
     kassert (n > 0);
     s1 \<leftarrow> bestfit_free_loop n base s;
     let s2 = upd_page base (\<lambda>pg. SetPageProperty (pg\<lparr>pg_property := n\<rparr>)) s1;
     let (base', s3) = bestfit_merge (fa_list s2) base s2;
     Some (s3\<lparr>fa_nr := fa_nr s3 + n, fa_list := base' # fa_list s3\<rparr>)
   }"

definition bestfit_nr_free_pages :: "free_area \<Rightarrow> nat" where
  "bestfit_nr_free_pages s = fa_nr s"

section \<open>Invariant\<close>

definition npg :: "free_area \<Rightarrow> nat \<Rightarrow> nat" where
  "npg s p = pg_property (fa_pages s p)"

definition fblk :: "free_area \<Rightarrow> nat list \<Rightarrow> (nat \<times> nat) list" where
  "fblk s ps = map (\<lambda>p. (p, npg s p)) ps"

text \<open>A set of block heads is well formed if the blocks are not empty and do not overlap.\<close>

definition heads_ok :: "free_area \<Rightarrow> nat list \<Rightarrow> bool" where
  "heads_ok s ps \<longleftrightarrow> blocks_disjoint (fblk s ps) \<and> (\<forall>p\<in>set ps. 0 < npg s p)"

definition bestfit_free_set :: "free_area \<Rightarrow> nat set" where
  "bestfit_free_set s = held_pages (fblk s (fa_list s))"

definition bestfit_inv :: "free_area \<Rightarrow> bool" where
  "bestfit_inv s \<longleftrightarrow> heads_ok s (fa_list s) \<and> fa_nr s = sum_list (map (npg s) (fa_list s)) \<and>
     (\<forall>p\<in>bestfit_free_set s. \<not> PageReserved (fa_pages s p)) \<and>
     (\<forall>p. PageProperty (fa_pages s p) \<and> \<not> PageReserved (fa_pages s p) \<longrightarrow> p \<in> set (fa_list s))"

lemma fblk_simps [simp]:
  "fblk s [] = []" "fblk s (p # ps) = (p, npg s p) # fblk s ps"
  "fblk s (ps @ qs) = fblk s ps @ fblk s qs"
  by (simp_all add: fblk_def)

lemma fblk_cong: "(\<And>p. p \<in> set ps \<Longrightarrow> npg s' p = npg s p) \<Longrightarrow> fblk s' ps = fblk s ps"
  by (simp add: fblk_def)

lemma snd_fblk: "map snd (fblk s ps) = map (npg s) ps"
  by (simp add: fblk_def)

lemma head_in_block: "p \<in> set ps \<Longrightarrow> 0 < npg s p \<Longrightarrow> p \<in> held_pages (fblk s ps)"
  by (force simp: held_pages_def fblk_def block_def)

lemma heads_ok_mono_Cons: "heads_ok s (p # ps) \<Longrightarrow> heads_ok s ps"
  by (simp add: heads_ok_def)

lemma heads_ok_Cons:
  "heads_ok s (p # ps) \<longleftrightarrow> 0 < npg s p \<and> {p..<p + npg s p} \<inter> held_pages (fblk s ps) = {} \<and> heads_ok s ps"
proof -
  have "(\<forall>c\<in>set bs. A \<inter> block c = {}) \<longleftrightarrow> A \<inter> held_pages bs = {}" for A bs
    by (auto simp: held_pages_def)
  moreover have "block (p, npg s p) = {p..<p + npg s p}" by (simp add: block_def)
  ultimately show ?thesis by (simp add: heads_ok_def conj_ac)
qed

lemma heads_ok_append:
  "heads_ok s (ps @ qs) \<longleftrightarrow>
     heads_ok s ps \<and> heads_ok s qs \<and> held_pages (fblk s ps) \<inter> held_pages (fblk s qs) = {}"
  by (auto simp: heads_ok_def blocks_disjoint_append)

lemma heads_ok_distinct: "heads_ok s ps \<Longrightarrow> distinct ps"
proof (induction ps)
  case (Cons p ps)
  then have ok: "0 < npg s p" "{p..<p + npg s p} \<inter> held_pages (fblk s ps) = {}" "heads_ok s ps"
    by (simp_all only: heads_ok_Cons)
  from ok(1) have "p \<in> {p..<p + npg s p}" by simp
  with ok(2) have "p \<notin> held_pages (fblk s ps)" by blast
  with ok head_in_block [of p ps s] Cons.IH show ?case by auto
qed simp

lemma heads_ok_cong: "(\<And>p. p \<in> set ps \<Longrightarrow> npg s' p = npg s p) \<Longrightarrow> heads_ok s' ps = heads_ok s ps"
  using fblk_cong [of ps s' s] by (simp add: heads_ok_def)

lemma npg_upd_page [simp]:
  "npg (upd_page p f s) q = (if q = p then pg_property (f (fa_pages s p)) else npg s q)"
  "npg (s\<lparr>fa_list := l\<rparr>) q = npg s q" "npg (s\<lparr>fa_nr := n\<rparr>) q = npg s q"
  by (simp_all add: npg_def)

lemma npg_upd_fun [simp]: "npg (s\<lparr>fa_list := l\<rparr>) = npg s" "npg (s\<lparr>fa_nr := n\<rparr>) = npg s"
  by (simp_all add: npg_def fun_eq_iff)

lemma fblk_upd [simp]:
  "fblk (s\<lparr>fa_list := l\<rparr>) ps = fblk s ps" "fblk (s\<lparr>fa_nr := n\<rparr>) ps = fblk s ps"
  "heads_ok (s\<lparr>fa_list := l\<rparr>) ps = heads_ok s ps" "heads_ok (s\<lparr>fa_nr := n\<rparr>) ps = heads_ok s ps"
  by (simp_all add: fblk_def heads_ok_def)

lemma card_free_set: "heads_ok s ps \<Longrightarrow> card (held_pages (fblk s ps)) = sum_list (map (npg s) ps)"
  by (simp add: heads_ok_def card_held_pages snd_fblk)

lemma bestfit_init_inv:
  "(\<And>p. PageReserved (fa_pages s p)) \<Longrightarrow> bestfit_inv (bestfit_init s)"
  by (simp add: bestfit_inv_def bestfit_init_def heads_ok_def bestfit_free_set_def)

lemma heads_ok_move:
  "heads_ok s (xs @ p # ys) \<longleftrightarrow> heads_ok s (p # xs @ ys)"
  by (auto simp: heads_ok_append heads_ok_Cons block_def)

lemma area_move: "held_pages (fblk s (xs @ p # ys)) = {p..<p + npg s p} \<union> held_pages (fblk s (xs @ ys))"
  by (auto simp: block_def)

lemma heads_in_area: "heads_ok s ps \<Longrightarrow> q \<in> set ps \<Longrightarrow> q \<in> held_pages (fblk s ps)"
  by (auto simp: heads_ok_def intro: head_in_block)

section \<open>Allocation\<close>

lemma bestfit_scan_spec:
  assumes "\<And>b. page = Some b \<Longrightarrow> n \<le> pg_property (pgs b)"
  shows "case bestfit_scan pgs n ps page of
      None \<Rightarrow> page = None \<and> (\<forall>p\<in>set ps. pg_property (pgs p) < n)
    | Some b \<Rightarrow> (b \<in> set ps \<or> page = Some b) \<and> n \<le> pg_property (pgs b) \<and>
        (\<forall>p. (p \<in> set ps \<or> page = Some p) \<and> n \<le> pg_property (pgs p)
            \<longrightarrow> pg_property (pgs b) \<le> pg_property (pgs p))"
  using assms
proof (induction ps arbitrary: page)
  case Nil
  then show ?case by (cases page) auto
next
  case (Cons p ps)
  show ?case
  proof (cases "pg_property (pgs p) \<ge> n \<and>
         (case page of None \<Rightarrow> True | Some b \<Rightarrow> pg_property (pgs p) < pg_property (pgs b))")
    case True
    with Cons.IH [of "Some p"] show ?thesis
      by (fastforce split: option.splits)
  next
    case False
    show ?thesis
    proof (cases page)
      case None
      with False Cons.IH [of None] show ?thesis by (auto split: option.splits)
    next
      case (Some b)
      with False Cons.IH [of page] Cons.prems have "n \<le> pg_property (pgs p) \<Longrightarrow>
          pg_property (pgs b) \<le> pg_property (pgs p)" by auto
      with Some False Cons.IH [of page] Cons.prems show ?thesis
        by (auto split: option.splits intro: le_trans)
    qed
  qed
qed

text \<open>The scan takes the first of the smallest fitting blocks: a later one must be strictly smaller.\<close>

lemma bestfit_scan_first:
  assumes "bestfit_scan pgs n ps page = Some b" "\<And>c. page = Some c \<Longrightarrow> n \<le> pg_property (pgs c)"
  shows "page = Some b \<and> (\<forall>q\<in>set ps. n \<le> pg_property (pgs q) \<longrightarrow> pg_property (pgs b) \<le> pg_property (pgs q)) \<or>
    (\<exists>xs ys. ps = xs @ b # ys \<and> n \<le> pg_property (pgs b) \<and>
      (\<forall>q\<in>set xs. n \<le> pg_property (pgs q) \<longrightarrow> pg_property (pgs b) < pg_property (pgs q)) \<and>
      (\<forall>q\<in>set ys. n \<le> pg_property (pgs q) \<longrightarrow> pg_property (pgs b) \<le> pg_property (pgs q)) \<and>
      (\<forall>c. page = Some c \<longrightarrow> pg_property (pgs b) < pg_property (pgs c)))"
  using assms
proof (induction ps arbitrary: page)
  case (Cons p ps)
  show ?case
  proof (cases "pg_property (pgs p) \<ge> n \<and>
         (case page of None \<Rightarrow> True | Some b \<Rightarrow> pg_property (pgs p) < pg_property (pgs b))")
    case True
    then have "bestfit_scan pgs n ps (Some p) = Some b" using Cons.prems(1) by simp
    from Cons.IH [OF this] True consider
        "b = p" "\<forall>q\<in>set ps. n \<le> pg_property (pgs q) \<longrightarrow> pg_property (pgs b) \<le> pg_property (pgs q)"
      | xs ys where "ps = xs @ b # ys" "n \<le> pg_property (pgs b)" "pg_property (pgs b) < pg_property (pgs p)"
          "\<forall>q\<in>set xs. n \<le> pg_property (pgs q) \<longrightarrow> pg_property (pgs b) < pg_property (pgs q)"
          "\<forall>q\<in>set ys. n \<le> pg_property (pgs q) \<longrightarrow> pg_property (pgs b) \<le> pg_property (pgs q)"
      by auto
    then show ?thesis
    proof cases
      case 1
      with True show ?thesis by (intro disjI2 exI [of _ "[]"] exI [of _ ps]) auto
    next
      case 2
      with True show ?thesis by (intro disjI2 exI [of _ "p # xs"] exI [of _ ys]) auto
    qed
  next
    case False
    then have "bestfit_scan pgs n ps page = Some b" using Cons.prems(1) by (simp only: bestfit_scan.simps if_False)
    from Cons.IH [OF this Cons.prems(2)] consider
        "page = Some b" "\<forall>q\<in>set ps. n \<le> pg_property (pgs q) \<longrightarrow> pg_property (pgs b) \<le> pg_property (pgs q)"
      | xs ys where "ps = xs @ b # ys" "n \<le> pg_property (pgs b)"
          "\<forall>q\<in>set xs. n \<le> pg_property (pgs q) \<longrightarrow> pg_property (pgs b) < pg_property (pgs q)"
          "\<forall>q\<in>set ys. n \<le> pg_property (pgs q) \<longrightarrow> pg_property (pgs b) \<le> pg_property (pgs q)"
          "\<forall>c. page = Some c \<longrightarrow> pg_property (pgs b) < pg_property (pgs c)"
      by auto
    then show ?thesis
    proof cases
      case 1
      with False show ?thesis by auto
    next
      case 2
      moreover from this False have "n \<le> pg_property (pgs p) \<longrightarrow> pg_property (pgs b) < pg_property (pgs p)"
        by (auto split: option.splits)
      ultimately show ?thesis by (intro disjI2 exI [of _ "p # xs"] exI [of _ ys]) simp
    qed
  qed
qed simp

lemmas bestfit_scan_Some = bestfit_scan_spec [where page = None, simplified]

lemma bestfit_alloc_Some:
  assumes "bestfit_alloc_pages n s = Some (Some p, s')"
  shows "bestfit_scan (fa_pages s) n (fa_list s) None = Some p" "p \<in> set (fa_list s)"
    "0 < n" "n \<le> npg s p"
  using assms bestfit_scan_Some [where n = n and pgs = "fa_pages s" and ps = "fa_list s"]
  by (auto simp: bestfit_alloc_pages_def npg_def Let_def split: if_splits option.splits)

lemma bestfit_alloc_split:
  assumes inv: "bestfit_inv s" and a: "bestfit_alloc_pages n s = Some (Some p, s')"
  obtains R where "fa_list s' = (if n < npg s p then (p + n) # R else R)"
    "p \<in> set (fa_list s)" "0 < n" "n \<le> npg s p"
    "heads_ok s (p # R)" "bestfit_free_set s = {p..<p + npg s p} \<union> held_pages (fblk s R)"
    "set (fa_list s) = insert p (set R)" "fa_nr s = npg s p + sum_list (map (npg s) R)"
    "\<And>q. q \<in> set R \<Longrightarrow> npg s' q = npg s q" "n < npg s p \<Longrightarrow> npg s' (p + n) = npg s p - n"
    "fa_nr s' = fa_nr s - n"
    "\<And>q. PageReserved (fa_pages s' q) = PageReserved (fa_pages s q)"
    "\<And>q. PageProperty (fa_pages s' q) \<longleftrightarrow> q \<noteq> p \<and> PageProperty (fa_pages s q)"
proof -
  note sc = bestfit_alloc_Some [OF a]
  have ok: "heads_ok s (fa_list s)" using inv by (simp add: bestfit_inv_def)
  obtain xs ys where list: "fa_list s = xs @ p # ys" "p \<notin> set xs"
    using sc(2) heads_ok_distinct [OF ok] by (metis distinct_in_split)
  have R: "heads_ok s (p # xs @ ys)" using ok by (simp only: list heads_ok_move)
  have "q \<noteq> p \<and> (n < npg s p \<longrightarrow> q \<noteq> p + n)" if "q \<in> set (xs @ ys)" for q
  proof -
    from R have "heads_ok s (xs @ ys)" "{p..<p + npg s p} \<inter> held_pages (fblk s (xs @ ys)) = {}"
      by (simp_all only: heads_ok_Cons)
    with heads_in_area [OF _ that] have "q \<notin> {p..<p + npg s p}" by blast
    with sc(3,4) show ?thesis by auto
  qed
  note ne = this
  let ?s1 = "s\<lparr>fa_list := xs @ ys\<rparr>"
  let ?s2 = "if n < npg s p then (upd_page (p + n) (\<lambda>pg. pg\<lparr>pg_property := npg s p - n\<rparr>) ?s1)
      \<lparr>fa_list := (p + n) # xs @ ys\<rparr> else ?s1"
  have s': "s' = upd_page p ClearPageProperty (?s2\<lparr>fa_nr := fa_nr s - n\<rparr>)"
    using a sc(1) list by (auto simp: bestfit_alloc_pages_def Let_def remove1_split npg_def split: if_splits)
  have "fa_nr s = sum_list (map (npg s) (fa_list s))" using inv by (simp add: bestfit_inv_def)
  moreover have "npg s' q = npg s q" if "q \<in> set (xs @ ys)" for q
    using ne [OF that] by (simp add: s' npg_def)
  moreover have "npg s' (p + n) = npg s p - n" if "n < npg s p"
    using that sc(3) by (simp add: s' npg_def)
  moreover have "PageProperty (fa_pages s' q) \<longleftrightarrow> q \<noteq> p \<and> PageProperty (fa_pages s q)"
    and "PageReserved (fa_pages s' q) = PageReserved (fa_pages s q)" for q
    by (simp_all add: s')
  moreover have "bestfit_free_set s = {p..<p + npg s p} \<union> held_pages (fblk s (xs @ ys))"
    unfolding bestfit_free_set_def list(1) by (rule area_move)
  ultimately show thesis
    using sc R list by (intro that [of "xs @ ys"]) (simp_all add: s')
qed

lemma bestfit_alloc_contract:
  assumes inv: "bestfit_inv s" and a: "bestfit_alloc_pages n s = Some (Some p, s')"
  shows "bestfit_inv s'" "{p..<p + n} \<subseteq> bestfit_free_set s"
    "bestfit_free_set s' = bestfit_free_set s - {p..<p + n}"
    "\<And>q. PageReserved (fa_pages s' q) = PageReserved (fa_pages s q)"
proof -
  obtain R where R: "fa_list s' = (if n < npg s p then (p + n) # R else R)"
    "p \<in> set (fa_list s)" "0 < n" "n \<le> npg s p"
    "heads_ok s (p # R)" "bestfit_free_set s = {p..<p + npg s p} \<union> held_pages (fblk s R)"
    "set (fa_list s) = insert p (set R)" "fa_nr s = npg s p + sum_list (map (npg s) R)"
    "\<And>q. q \<in> set R \<Longrightarrow> npg s' q = npg s q" "n < npg s p \<Longrightarrow> npg s' (p + n) = npg s p - n"
    "fa_nr s' = fa_nr s - n"
    "\<And>q. PageReserved (fa_pages s' q) = PageReserved (fa_pages s q)"
    "\<And>q. PageProperty (fa_pages s' q) \<longleftrightarrow> q \<noteq> p \<and> PageProperty (fa_pages s q)"
    by (rule bestfit_alloc_split [OF inv a]; rule that; assumption)
  have blk: "fblk s' R = fblk s R" "heads_ok s' R = heads_ok s R" "map (npg s') R = map (npg s) R"
    using R(9) fblk_cong [of R s' s] heads_ok_cong [of R s' s] by auto
  have ok: "heads_ok s R" "{p..<p + npg s p} \<inter> held_pages (fblk s R) = {}"
    using R(5) by (simp_all only: heads_ok_Cons)
  show sub: "{p..<p + n} \<subseteq> bestfit_free_set s" using R(4) by (auto simp: R(6))
  have tail: "p + n + (npg s p - n) = p + npg s p" using R(4) by simp
  show fs: "bestfit_free_set s' = bestfit_free_set s - {p..<p + n}"
  proof (cases "n < npg s p")
    case True
    have "bestfit_free_set s' = {p + n..<p + npg s p} \<union> held_pages (fblk s R)"
      using True by (simp add: bestfit_free_set_def R(1,10) blk block_def tail)
    then show ?thesis using ok(2) R(4) by (auto simp: R(6) disjoint_iff)
  next
    case False
    then have "bestfit_free_set s' = held_pages (fblk s R)" "n = npg s p"
      using R(4) by (simp_all add: bestfit_free_set_def R(1) blk)
    then show ?thesis using ok(2) by (auto simp: R(6))
  qed
  have "heads_ok s' (fa_list s')"
  proof (cases "n < npg s p")
    case True
    have "{p + n..<p + npg s p} \<inter> held_pages (fblk s R) = {}"
      using ok(2) by (auto simp: disjoint_iff)
    then show ?thesis using True ok(1) by (simp add: R(1,10) heads_ok_Cons blk tail)
  qed (use ok in \<open>simp add: R(1) blk\<close>)
  moreover have "fa_nr s' = sum_list (map (npg s') (fa_list s'))"
    using R(4) by (simp add: R(1,8,10,11) blk)
  moreover have "\<forall>q\<in>bestfit_free_set s'. \<not> PageReserved (fa_pages s' q)"
    using inv by (auto simp: fs R(12) bestfit_inv_def)
  moreover have "\<forall>q. PageProperty (fa_pages s' q) \<and> \<not> PageReserved (fa_pages s' q) \<longrightarrow> q \<in> set (fa_list s')"
    using inv R(7) by (auto simp: R(1,12,13) bestfit_inv_def)
  ultimately show "bestfit_inv s'" by (simp add: bestfit_inv_def)
  show "PageReserved (fa_pages s' q) = PageReserved (fa_pages s q)" for q by (rule R(12))
qed

section \<open>Coalescing\<close>

text \<open>State of the traversal: the block being released is \<open>base\<close>, the blocks on the list and \<open>base\<close>
  do not overlap, and only block heads carry the property flag.\<close>

definition merge_ok :: "nat \<Rightarrow> free_area \<Rightarrow> bool" where
  "merge_ok base s \<longleftrightarrow> heads_ok s (base # fa_list s) \<and>
     (\<forall>p. PageProperty (fa_pages s p) \<and> \<not> PageReserved (fa_pages s p) \<longrightarrow>
        p \<in> set (base # fa_list s))"

definition merge_area :: "nat \<Rightarrow> free_area \<Rightarrow> nat set" where
  "merge_area base s = held_pages (fblk s (base # fa_list s))"

text \<open>Joining two adjacent blocks \<open>a\<close> and \<open>b\<close> (in this order), one of them on the list.\<close>

lemma join_blocks:
  assumes ok: "heads_ok s (a # b # R)" and adj: "a + npg s a = b"
    and npg': "npg s' a = npg s a + npg s b" "\<And>q. q \<in> set R \<Longrightarrow> npg s' q = npg s q"
  shows "heads_ok s' (a # R)" "held_pages (fblk s' (a # R)) = held_pages (fblk s (a # b # R))"
    "sum_list (map (npg s') (a # R)) = sum_list (map (npg s) (a # b # R))"
proof -
  have blk: "fblk s' R = fblk s R" "heads_ok s' R = heads_ok s R" "map (npg s') R = map (npg s) R"
    using npg'(2) fblk_cong [of R s' s] heads_ok_cong [of R s' s] by auto
  have dis: "{a..<a + npg s a} \<inter> ({b..<b + npg s b} \<union> held_pages (fblk s R)) = {}"
    "{b..<b + npg s b} \<inter> held_pages (fblk s R) = {}" "heads_ok s R" "0 < npg s a"
    using ok by (simp_all add: heads_ok_Cons block_def)
  have un: "{a..<a + npg s' a} = {a..<a + npg s a} \<union> {b..<b + npg s b}"
    using adj by (auto simp: npg'(1))
  show "heads_ok s' (a # R)"
    using dis unfolding heads_ok_Cons blk un by (auto simp: npg'(1))
  show "held_pages (fblk s' (a # R)) = held_pages (fblk s (a # b # R))"
    using un by (simp add: blk block_def Un_assoc)
  show "sum_list (map (npg s') (a # R)) = sum_list (map (npg s) (a # b # R))"
    by (simp add: blk npg'(1))
qed

lemma heads_ok_swap: "heads_ok s (a # b # R) \<longleftrightarrow> heads_ok s (b # a # R)"
  by (auto simp: heads_ok_Cons block_def)

lemma merge_ok_move:
  assumes "merge_ok base s" "fa_list s = dn @ p # es"
  shows "heads_ok s (base # p # dn @ es)" "p \<noteq> base" "p \<notin> set (dn @ es)" "base \<notin> set (dn @ es)"
    "merge_area base s = held_pages (fblk s (base # p # dn @ es))"
proof -
  show ok: "heads_ok s (base # p # dn @ es)"
    using assms heads_ok_move [of s "base # dn" p es] heads_ok_swap [of s p base "dn @ es"]
    by (simp add: merge_ok_def)
  from heads_ok_distinct [OF ok] show "p \<noteq> base" "p \<notin> set (dn @ es)" "base \<notin> set (dn @ es)" by auto
  show "merge_area base s = held_pages (fblk s (base # p # dn @ es))"
    by (simp add: merge_area_def assms(2) Un_left_commute)
qed

text \<open>One joining step, whichever of the two blocks keeps its head.\<close>

definition join :: "nat \<Rightarrow> nat \<Rightarrow> nat \<Rightarrow> free_area \<Rightarrow> free_area" where
  "join a b p s = (upd_page b ClearPageProperty
     (upd_page a (\<lambda>pg. pg\<lparr>pg_property := pg_property pg + npg s b\<rparr>) s))\<lparr>fa_list := remove1 p (fa_list s)\<rparr>"

lemma bestfit_merge_Cons:
  "bestfit_merge (p # es) base s =
     (if base + npg s base = p then bestfit_merge es base (join base p p s)
      else if p + npg s p = base then bestfit_merge es p (join p base p s)
      else bestfit_merge es base s)"
  by (simp add: join_def npg_def Let_def)

declare bestfit_merge.simps(2) [simp del]

lemma join_simps:
  assumes "a \<noteq> b"
  shows "npg (join a b p s) q = (if q = a then npg s a + npg s b else npg s q)"
    "PageReserved (fa_pages (join a b p s) q) = PageReserved (fa_pages s q)"
    "PageProperty (fa_pages (join a b p s) q) \<longleftrightarrow> q \<noteq> b \<and> PageProperty (fa_pages s q)"
    "fa_list (join a b p s) = remove1 p (fa_list s)" "fa_nr (join a b p s) = fa_nr s"
  using assms by (auto simp: join_def npg_def)

lemma join_merge_ok:
  assumes ok: "merge_ok base s" and list: "fa_list s = dn @ p # es"
    and ab: "a = base \<and> b = p \<or> a = p \<and> b = base" "a + npg s a = b"
  shows "merge_ok a (join a b p s)" "merge_area a (join a b p s) = merge_area base s"
    "fa_list (join a b p s) = dn @ es"
proof -
  note mv = merge_ok_move [OF ok list]
  have R: "heads_ok s (a # b # dn @ es)" "a \<noteq> b" "a \<notin> set (dn @ es)"
    "merge_area base s = held_pages (fblk s (a # b # dn @ es))"
    using ab mv heads_ok_swap [of s base p "dn @ es"] by (auto simp: Un_left_commute)
  have npg: "npg (join a b p s) a = npg s a + npg s b"
    "\<And>q. q \<in> set (dn @ es) \<Longrightarrow> npg (join a b p s) q = npg s q"
    using R(3) by (auto simp: join_simps [OF R(2)])
  show l: "fa_list (join a b p s) = dn @ es"
    using mv(3) list by (simp add: join_simps [OF R(2)] remove1_split)
  have j: "heads_ok (join a b p s) (a # dn @ es)"
    "held_pages (fblk (join a b p s) (a # dn @ es)) = held_pages (fblk s (a # b # dn @ es))"
    using join_blocks [OF R(1) ab(2), of "join a b p s"] npg by blast+
  show "merge_area a (join a b p s) = merge_area base s"
    using j(2) R(4) by (simp only: merge_area_def l)
  show "merge_ok a (join a b p s)"
    using ok j(1) ab(1) by (auto simp: merge_ok_def l join_simps(1-3) [OF R(2)] list)
qed

definition coalesced :: "free_area \<Rightarrow> nat list \<Rightarrow> bool" where
  "coalesced s ps \<longleftrightarrow> (\<forall>p\<in>set ps. \<forall>q\<in>set ps. p + npg s p \<noteq> q)"

text \<open>The traversal keeps the released area and, on a coalesced list, leaves no pair of adjacent
  blocks: a neighbour of an absorbed block would have been adjacent to it before.\<close>

lemma bestfit_merge_spec:
  assumes "merge_ok base s" "fa_list s = dn @ es"
    and "bestfit_merge es base s = (base', s')"
  shows "merge_ok base' s' \<and> merge_area base' s' = merge_area base s \<and> fa_nr s' = fa_nr s \<and>
    (\<forall>q. PageReserved (fa_pages s' q) = PageReserved (fa_pages s q)) \<and>
    (coalesced s (fa_list s) \<longrightarrow> (\<forall>q\<in>set dn. base + npg s base \<noteq> q \<and> q + npg s q \<noteq> base)
       \<longrightarrow> coalesced s' (base' # fa_list s'))"
  using assms
proof (induction es arbitrary: base s dn)
  case Nil
  then have "0 < npg s base" by (simp add: merge_ok_def heads_ok_Cons)
  with Nil show ?case by (auto simp: coalesced_def)
next
  case (Cons p es)
  note mv = merge_ok_move [OF Cons.prems(1,2)]
  consider (right) "base + npg s base = p" | (left) "base + npg s base \<noteq> p" "p + npg s p = base"
    | (none) "base + npg s base \<noteq> p" "p + npg s p \<noteq> base" by blast
  then show ?case
  proof cases
    case right
    note j = join_merge_ok [OF Cons.prems(1,2), of base p]
    have m: "bestfit_merge es base (join base p p s) = (base', s')"
      using Cons.prems(3) right by (simp add: bestfit_merge_Cons)
    have "base + npg (join base p p s) base = p + npg s p"
      using right mv(2) by (simp add: join_simps)
    moreover have "coalesced s (fa_list s) \<Longrightarrow> coalesced (join base p p s) (dn @ es) \<and>
        (\<forall>q\<in>set dn. p + npg s p \<noteq> q)"
      using mv(2-4) Cons.prems(2) by (auto simp: coalesced_def join_simps)
    ultimately show ?thesis using Cons.IH [OF j(1,3) m] right j mv(2,4)
      by (auto simp: join_simps add.assoc split: if_splits)
  next
    case left
    note j = join_merge_ok [OF Cons.prems(1,2), of p base]
    have m: "bestfit_merge es p (join p base p s) = (base', s')"
      using Cons.prems(3) left by (simp add: bestfit_merge_Cons)
    have "coalesced s (fa_list s) \<Longrightarrow> coalesced (join p base p s) (dn @ es) \<and>
        (\<forall>q\<in>set dn. q + npg s q \<noteq> p)"
      using mv(2-4) Cons.prems(2) by (auto simp: coalesced_def join_simps)
    with Cons.IH [OF j(1,3) m] left j mv(2,3) show ?thesis
      by (auto simp: join_simps add.assoc split: if_splits)
  next
    case none
    then have "bestfit_merge es base s = (base', s')"
      using Cons.prems(3) by (simp add: bestfit_merge_Cons)
    with none Cons.IH [OF Cons.prems(1), of "dn @ [p]"] Cons.prems(2) show ?thesis by auto
  qed
qed

section \<open>Release\<close>

lemma bestfit_free_loop_spec:
  assumes "\<forall>q. p \<le> q \<and> q < p + k \<longrightarrow> \<not> PageReserved (fa_pages s q) \<and> \<not> PageProperty (fa_pages s q)"
  shows "\<exists>s'. bestfit_free_loop k p s = Some s' \<and> fa_list s' = fa_list s \<and> fa_nr s' = fa_nr s \<and>
    (\<forall>q. npg s' q = npg s q \<and> PageReserved (fa_pages s' q) = PageReserved (fa_pages s q) \<and>
       PageProperty (fa_pages s' q) = PageProperty (fa_pages s q))"
  using assms
proof (induction k arbitrary: p s)
  case (Suc k)
  let ?s1 = "upd_page p (\<lambda>pg. set_page_ref 0 (pg\<lparr>pg_flags := 0\<rparr>)) s"
  have same: "npg ?s1 q = npg s q \<and> PageReserved (fa_pages ?s1 q) = PageReserved (fa_pages s q) \<and>
      PageProperty (fa_pages ?s1 q) = PageProperty (fa_pages s q)" for q
    using Suc.prems by (auto simp: npg_def)
  then have "\<forall>q. p + 1 \<le> q \<and> q < p + 1 + k \<longrightarrow>
      \<not> PageReserved (fa_pages ?s1 q) \<and> \<not> PageProperty (fa_pages ?s1 q)"
    using Suc.prems by simp
  from Suc.IH [OF this] same Suc.prems show ?case by auto
qed simp

lemma bestfit_free_contract:
  assumes inv: "bestfit_inv s" and "0 < n" and use: "fa_usable s p n"
    and new: "{p..<p + n} \<inter> bestfit_free_set s = {}"
  shows "\<exists>s'. bestfit_free_pages p n s = Some s' \<and> bestfit_inv s' \<and>
    bestfit_free_set s' = bestfit_free_set s \<union> {p..<p + n} \<and>
    (\<forall>q. PageReserved (fa_pages s' q) = PageReserved (fa_pages s q)) \<and>
    (coalesced s (fa_list s) \<longrightarrow> coalesced s' (fa_list s'))"
proof -
  have "\<forall>q. p \<le> q \<and> q < p + n \<longrightarrow> \<not> PageReserved (fa_pages s q) \<and> \<not> PageProperty (fa_pages s q)"
  proof (intro allI impI conjI)
    fix q assume q: "p \<le> q \<and> q < p + n"
    then show r: "\<not> PageReserved (fa_pages s q)" using use by (simp add: fa_usable_def)
    have "q \<notin> set (fa_list s)"
      using q new inv heads_in_area [of s "fa_list s" q]
      by (auto simp: bestfit_inv_def bestfit_free_set_def disjoint_iff)
    with r inv show "\<not> PageProperty (fa_pages s q)" by (auto simp: bestfit_inv_def)
  qed
  from bestfit_free_loop_spec [OF this] obtain s1 where
    s1: "bestfit_free_loop n p s = Some s1" "fa_list s1 = fa_list s" "fa_nr s1 = fa_nr s"
    "\<And>q. npg s1 q = npg s q" "\<And>q. PageReserved (fa_pages s1 q) = PageReserved (fa_pages s q)"
    "\<And>q. PageProperty (fa_pages s1 q) = PageProperty (fa_pages s q)" by blast
  let ?s2 = "upd_page p (\<lambda>pg. SetPageProperty (pg\<lparr>pg_property := n\<rparr>)) s1"
  obtain b s3 where m: "bestfit_merge (fa_list ?s2) p ?s2 = (b, s3)" by fastforce
  have ok: "heads_ok s (fa_list s)" using inv by (simp add: bestfit_inv_def)
  have pn: "p \<notin> set (fa_list s)"
    using heads_in_area [OF ok, of p] new \<open>0 < n\<close> by (auto simp: bestfit_free_set_def disjoint_iff)
  have "npg ?s2 q = npg s q" if "q \<in> set (fa_list s)" for q using that pn s1(4) by auto
  then have same: "fblk ?s2 (fa_list s) = fblk s (fa_list s)" "heads_ok ?s2 (fa_list s)"
    using ok fblk_cong [of "fa_list s" ?s2 s] heads_ok_cong [of "fa_list s" ?s2 s] by blast+
  have mo: "merge_ok p ?s2"
    using \<open>0 < n\<close> new same inv s1
    by (auto simp: merge_ok_def heads_ok_Cons bestfit_inv_def bestfit_free_set_def)
  have ma: "merge_area p ?s2 = {p..<p + n} \<union> bestfit_free_set s"
    using same s1(2) by (simp add: merge_area_def bestfit_free_set_def block_def)
  note sp = bestfit_merge_spec [OF mo _ m, of "[]", simplified]
  let ?s' = "s3\<lparr>fa_nr := fa_nr s3 + n, fa_list := b # fa_list s3\<rparr>"
  have fs: "bestfit_free_set ?s' = bestfit_free_set s \<union> {p..<p + n}"
    using sp ma by (simp add: bestfit_free_set_def merge_area_def Un_commute)
  have heads: "heads_ok s3 (b # fa_list s3)" using sp by (simp add: merge_ok_def)
  have res: "PageReserved (fa_pages ?s' q) = PageReserved (fa_pages s q)" for q
    using sp s1(5) by simp
  have "fa_nr ?s' = card (bestfit_free_set ?s')"
  proof -
    have "fa_nr s = card (bestfit_free_set s)"
      using inv card_free_set [OF ok] by (simp add: bestfit_inv_def bestfit_free_set_def)
    moreover have "card (bestfit_free_set ?s') = card (bestfit_free_set s) + n"
      unfolding fs using new by (subst card_Un_disjoint) (auto simp: bestfit_free_set_def)
    ultimately show ?thesis using sp s1(3) by simp
  qed
  then have "fa_nr ?s' = sum_list (map (npg ?s') (fa_list ?s'))"
    using card_free_set [OF heads] by (simp add: bestfit_free_set_def del: map_eq_conv)
  moreover have "\<forall>q\<in>bestfit_free_set ?s'. \<not> PageReserved (fa_pages ?s' q)"
    unfolding fs res using inv use by (auto simp: bestfit_inv_def fa_usable_def)
  ultimately have "bestfit_inv ?s'"
    using sp heads by (auto simp: bestfit_inv_def merge_ok_def)
  moreover have "bestfit_free_pages p n s = Some ?s'"
    using \<open>0 < n\<close> s1(1) m by (simp add: bestfit_free_pages_def)
  moreover have "coalesced s (fa_list s) \<longrightarrow> coalesced ?s' (fa_list ?s')"
    using sp pn s1(2,4) by (auto simp: coalesced_def)
  ultimately show ?thesis using fs res by blast
qed

interpretation bpm: pmm_manager bestfit_inv bestfit_free_set bestfit_nr_free_pages fa_usable
  "\<lambda>n. 0 < n" bestfit_alloc_pages bestfit_free_pages
proof
  fix s s' :: free_area and n p q k :: nat and r :: "nat option"
  assume inv: "bestfit_inv s"
  show "finite (bestfit_free_set s)" by (simp add: bestfit_free_set_def)
  show "bestfit_nr_free_pages s = card (bestfit_free_set s)"
    using inv card_free_set [of s "fa_list s"]
    by (simp add: bestfit_nr_free_pages_def bestfit_inv_def bestfit_free_set_def)
  assume n: "0 < n"
  show "\<exists>r s'. bestfit_alloc_pages n s = Some (r, s')"
    using n by (auto simp: bestfit_alloc_pages_def Let_def split: option.splits)
  show "s' = s" if "bestfit_alloc_pages n s = Some (None, s')"
    using that by (auto simp: bestfit_alloc_pages_def Let_def split: option.splits if_splits)
  show "bestfit_inv s'" if "bestfit_alloc_pages n s = Some (Some p, s')"
    using bestfit_alloc_contract [OF inv that] by blast
  show "{p..<p + n} \<subseteq> bestfit_free_set s \<and> bestfit_free_set s' = bestfit_free_set s - {p..<p + n} \<and>
      fa_usable s' p n" if "bestfit_alloc_pages n s = Some (Some p, s')"
    using bestfit_alloc_contract [OF inv that] inv by (auto simp: fa_usable_def bestfit_inv_def)
  show "fa_usable s' q k" if "bestfit_alloc_pages n s = Some (r, s')" "fa_usable s q k"
  proof (cases r)
    case None
    with that show ?thesis
      by (auto simp: bestfit_alloc_pages_def Let_def split: option.splits if_splits)
  next
    case (Some p')
    with that bestfit_alloc_contract(4) [OF inv, of n p' s'] show ?thesis
      by (auto simp: fa_usable_def)
  qed
  assume "fa_usable s p n" "{p..<p + n} \<inter> bestfit_free_set s = {}"
  from bestfit_free_contract [OF inv n this]
  show "\<exists>s'. bestfit_free_pages p n s = Some s' \<and> bestfit_inv s' \<and>
      bestfit_free_set s' = bestfit_free_set s \<union> {p..<p + n} \<and>
      (\<forall>q k. fa_usable s q k \<longrightarrow> fa_usable s' q k)"
    by (auto simp: fa_usable_def)
qed

section \<open>Properties\<close>

lemma bestfit_init_loop_spec:
  assumes "\<forall>q. p \<le> q \<and> q < p + k \<longrightarrow> PageReserved (fa_pages s q)"
  shows "\<exists>s'. bestfit_init_loop k p s = Some s' \<and> fa_list s' = fa_list s \<and> fa_nr s' = fa_nr s \<and>
    (\<forall>q. if p \<le> q \<and> q < p + k then pg_flags (fa_pages s' q) = 0 else fa_pages s' q = fa_pages s q)"
  using assms
proof (induction k arbitrary: p s)
  case (Suc k)
  let ?s1 = "upd_page p (\<lambda>pg. set_page_ref 0 (pg\<lparr>pg_flags := 0, pg_property := 0\<rparr>)) s"
  have "\<forall>q. p + 1 \<le> q \<and> q < p + 1 + k \<longrightarrow> PageReserved (fa_pages ?s1 q)"
    using Suc.prems by simp
  from Suc.IH [OF this] obtain s' where s': "bestfit_init_loop k (p + 1) ?s1 = Some s'"
    "fa_list s' = fa_list s" "fa_nr s' = fa_nr s"
    "\<And>q. if p + 1 \<le> q \<and> q < p + 1 + k then pg_flags (fa_pages s' q) = 0
      else fa_pages s' q = fa_pages ?s1 q" by auto
  have "if p \<le> q \<and> q < p + Suc k then pg_flags (fa_pages s' q) = 0 else fa_pages s' q = fa_pages s q" for q
    using s'(4) [of q] by (cases "q = p") (auto split: if_splits)
  with s' Suc.prems show ?case by auto
qed auto

lemma bestfit_init_memmap_spec:
  assumes "\<And>q. PageReserved (fa_pages s q)" "0 < n"
  shows "\<exists>s'. bestfit_init_memmap base n (bestfit_init s) = Some s' \<and> bestfit_inv s' \<and>
    bestfit_free_set s' = {base..<base + n}"
proof -
  from bestfit_init_loop_spec [of base n "bestfit_init s"] assms(1) obtain s1 where
    s1: "bestfit_init_loop n base (bestfit_init s) = Some s1" "fa_list s1 = []" "fa_nr s1 = 0"
    "\<And>q. if base \<le> q \<and> q < base + n then pg_flags (fa_pages s1 q) = 0
       else fa_pages s1 q = fa_pages s q"
    by (auto simp: bestfit_init_def)
  have pg: "\<not> PageReserved (fa_pages s1 q) \<and> \<not> PageProperty (fa_pages s1 q)"
    if "base \<le> q \<and> q < base + n" for q using s1(4) [of q] that by simp
  have "PageReserved (fa_pages s1 q)" if "\<not> (base \<le> q \<and> q < base + n)" for q
    using s1(4) [of q] that assms(1) by auto
  with pg s1(1-3) assms(2) show ?thesis
    by (auto simp: bestfit_init_memmap_def bestfit_inv_def heads_ok_def bestfit_free_set_def
        block_def split: if_splits)
qed

text \<open>C22: The best-fit manager, given one region of a wholly reserved page array, serves every
  sequence of block requests (of any positive sizes) and releases without stopping: held blocks are
  disjoint from each other and from the free pages, nothing is lost, and the counter is exact.\<close>

theorem bestfit_pmm_safe:
  assumes "\<And>q. PageReserved (fa_pages s q)" "0 < n"
    and "\<forall>k. MAlloc k \<in> set rs \<longrightarrow> 0 < k"
  shows "\<exists>s0 s' held. bestfit_init_memmap base n (bestfit_init s) = Some s0 \<and>
    run_reqs bestfit_alloc_pages bestfit_free_pages rs s0 [] = Some (s', held) \<and>
    blocks_disjoint held \<and> held_pages held \<inter> bestfit_free_set s' = {} \<and>
    bestfit_free_set s' \<union> held_pages held = {base..<base + n} \<and>
    bestfit_nr_free_pages s' + sum_list (map snd held) = n"
proof -
  from bestfit_init_memmap_spec [OF assms(1,2)] obtain s0 where
    s0: "bestfit_init_memmap base n (bestfit_init s) = Some s0" "bestfit_inv s0"
      "bestfit_free_set s0 = {base..<base + n}" by blast
  with bpm.run_safe [OF s0(2), of rs] bpm.nr_free [OF s0(2)] assms(3) show ?thesis by auto
qed

definition all_reserved :: free_area where
  "all_reserved = \<lparr>fa_pages = \<lambda>_. \<lparr>pg_ref = 0, pg_flags = 1, pg_property = 0, pg_zone = 0, pg_index = 0\<rparr>,
     fa_list = [], fa_nr = 0\<rparr>"

theorem bestfit_pmm_safe_witness:
  "\<exists>s0 s' held. bestfit_init_memmap 4 8 (bestfit_init all_reserved) = Some s0 \<and>
    run_reqs bestfit_alloc_pages bestfit_free_pages [MAlloc 3, MAlloc 2, MFree 1, MAlloc 2] s0 [] =
      Some (s', held) \<and> bestfit_nr_free_pages s' + sum_list (map snd held) = 8"
proof -
  have res: "PageReserved (fa_pages all_reserved q)" for q
    by (simp add: all_reserved_def PageReserved_def PG_defs test_bit_w_def)
  have "0 < (8 :: nat)" "\<forall>k. MAlloc k \<in> set [MAlloc 3, MAlloc 2, MFree 1, MAlloc 2] \<longrightarrow> 0 < k"
    by auto
  from bestfit_pmm_safe [OF res this, of 4] show ?thesis by blast
qed

text \<open>C23: Allocation is best fit: it takes the first of the shortest free blocks that are large enough,
  and is refused, changing nothing, exactly when no free block is large enough.  Afterwards the block
  is off the free list, what it has beyond the request is a block of its own at the front of the list,
  the free counter is less by the request, and no other page is changed.\<close>

theorem bestfit_alloc_best:
  assumes inv: "bestfit_inv s" and n: "0 < n"
  shows "if \<forall>q\<in>set (fa_list s). pg_property (fa_pages s q) < n then bestfit_alloc_pages n s = Some (None, s)
    else \<exists>xs p ys. fa_list s = xs @ p # ys \<and> n \<le> pg_property (fa_pages s p) \<and>
      (\<forall>q\<in>set xs. n \<le> pg_property (fa_pages s q) \<longrightarrow> pg_property (fa_pages s p) < pg_property (fa_pages s q)) \<and>
      (\<forall>q\<in>set ys. n \<le> pg_property (fa_pages s q) \<longrightarrow> pg_property (fa_pages s p) \<le> pg_property (fa_pages s q)) \<and>
      bestfit_alloc_pages n s = Some (Some p,
        s\<lparr>fa_pages := \<lambda>q.
            if q = p then ClearPageProperty (fa_pages s p)
            else if q = p + n \<and> n < pg_property (fa_pages s p)
            then (fa_pages s q)\<lparr>pg_property := pg_property (fa_pages s p) - n\<rparr>
            else fa_pages s q,
          fa_list := (if n < pg_property (fa_pages s p) then (p + n) # xs @ ys else xs @ ys),
          fa_nr := fa_nr s - n\<rparr>)"
proof (cases "\<forall>q\<in>set (fa_list s). pg_property (fa_pages s q) < n")
  case True
  then have "bestfit_scan (fa_pages s) n (fa_list s) None = None"
    using bestfit_scan_Some [where n = n and pgs = "fa_pages s" and ps = "fa_list s"]
    by (auto split: option.splits)
  with True n show ?thesis by (simp add: bestfit_alloc_pages_def)
next
  case False
  then obtain q where q: "q \<in> set (fa_list s)" "n \<le> npg s q" by (auto simp: npg_def not_less)
  have "npg s q \<le> fa_nr s" using inv q(1) by (simp add: bestfit_inv_def member_le_sum_list)
  with q(2) have le: "\<not> n > fa_nr s" by simp
  obtain p where sc: "bestfit_scan (fa_pages s) n (fa_list s) None = Some p"
    using bestfit_scan_Some [where n = n and pgs = "fa_pages s" and ps = "fa_list s"] q
    by (fastforce simp: npg_def split: option.splits)
  from bestfit_scan_first [OF this] obtain xs ys where l: "fa_list s = xs @ p # ys" "n \<le> pg_property (fa_pages s p)"
    "\<forall>q\<in>set xs. n \<le> pg_property (fa_pages s q) \<longrightarrow> pg_property (fa_pages s p) < pg_property (fa_pages s q)"
    "\<forall>q\<in>set ys. n \<le> pg_property (fa_pages s q) \<longrightarrow> pg_property (fa_pages s p) \<le> pg_property (fa_pages s q)"
    by auto
  have "distinct (fa_list s)" using inv heads_ok_distinct by (auto simp: bestfit_inv_def)
  then have "remove1 p (fa_list s) = xs @ ys" by (simp add: l(1) remove1_split)
  then have "bestfit_alloc_pages n s = Some (Some p,
        s\<lparr>fa_pages := \<lambda>q.
            if q = p then ClearPageProperty (fa_pages s p)
            else if q = p + n \<and> n < pg_property (fa_pages s p)
            then (fa_pages s q)\<lparr>pg_property := pg_property (fa_pages s p) - n\<rparr>
            else fa_pages s q,
          fa_list := (if n < pg_property (fa_pages s p) then (p + n) # xs @ ys else xs @ ys),
          fa_nr := fa_nr s - n\<rparr>)"
    using n le sc by (auto simp: bestfit_alloc_pages_def Let_def upd_page_def fun_eq_iff)
  with False l show ?thesis by (simp only: if_False) blast
qed

definition fit_blocks :: free_area where
  "fit_blocks = \<lparr>fa_pages = (\<lambda>p. \<lparr>pg_ref = 0, pg_flags = 0,
       pg_property = (if p = 3 then 5 else if p = 10 \<or> p = 20 then 3 else 0), pg_zone = 0, pg_index = 0\<rparr>),
     fa_list = [3, 10, 20], fa_nr = 11\<rparr>"

lemma fit_blocks_inv: "bestfit_inv fit_blocks"
  by (simp add: bestfit_inv_def heads_ok_def block_def fit_blocks_def npg_def PageReserved_def PageProperty_def
    PG_defs test_bit_w_def)

theorem bestfit_alloc_best_witness:
  "(\<exists>s'. bestfit_alloc_pages 2 fit_blocks = Some (Some 10, s') \<and> fa_list s' = [12, 3, 20] \<and> fa_nr s' = 9) \<and>
   bestfit_alloc_pages 6 fit_blocks = Some (None, fit_blocks)"
proof (rule conjI)
  have pr: "pg_property (fa_pages fit_blocks q) = (if q = 3 then 5 else if q = 10 \<or> q = 20 then 3 else 0)"
    "fa_list fit_blocks = [3, 10, 20]" "fa_nr fit_blocks = 11" for q by (simp_all add: fit_blocks_def)
  from bestfit_alloc_best [OF fit_blocks_inv, of 2] obtain xs p ys s' where
    l: "[3, 10, 20] = xs @ p # ys" "2 \<le> pg_property (fa_pages fit_blocks p)"
      "\<forall>q\<in>set xs. 2 \<le> pg_property (fa_pages fit_blocks q) \<longrightarrow> pg_property (fa_pages fit_blocks p) < pg_property (fa_pages fit_blocks q)"
      "\<forall>q\<in>set ys. 2 \<le> pg_property (fa_pages fit_blocks q) \<longrightarrow> pg_property (fa_pages fit_blocks p) \<le> pg_property (fa_pages fit_blocks q)"
      "bestfit_alloc_pages 2 fit_blocks = Some (Some p, s')"
      "fa_list s' = (if 2 < pg_property (fa_pages fit_blocks p) then (p + 2) # xs @ ys else xs @ ys)" "fa_nr s' = 11 - 2"
    by (auto simp: pr(2,3) pr(1) [of 3])
  from l(1) have "xs = [] \<and> p = 3 \<and> ys = [10, 20] \<or> xs = [3] \<and> p = 10 \<and> ys = [20] \<or> xs = [3, 10] \<and> p = 20 \<and> ys = []"
    by (auto simp: Cons_eq_append_conv)
  with l show "\<exists>s'. bestfit_alloc_pages 2 fit_blocks = Some (Some 10, s') \<and> fa_list s' = [12, 3, 20] \<and> fa_nr s' = 9"
    by (auto simp: pr(1))
  show "bestfit_alloc_pages 6 fit_blocks = Some (None, fit_blocks)"
    using bestfit_alloc_best [OF fit_blocks_inv, of 6] by (simp add: pr)
qed


definition three_blocks :: free_area where
  "three_blocks = \<lparr>fa_pages = (\<lambda>p. \<lparr>pg_ref = 0, pg_flags = (if p \<in> {0, 5} then 2 else 0),
     pg_property = (if p = 0 then 2 else if p = 5 then 4 else 0), pg_zone = 0, pg_index = 0\<rparr>),
     fa_list = [5, 0], fa_nr = 6\<rparr>"

lemma three_blocks_simps:
  "fa_list three_blocks = [5, 0]" "fa_nr three_blocks = 6"
  "npg three_blocks 5 = 4" "npg three_blocks 0 = 2"
  "\<not> PageReserved (fa_pages three_blocks q)" "PageProperty (fa_pages three_blocks q) \<longleftrightarrow> q = 0 \<or> q = 5"
  by (simp_all add: three_blocks_def npg_def PageReserved_def PageProperty_def PG_defs test_bit_w_def)

lemma three_blocks_inv: "bestfit_inv three_blocks"
  by (simp add: bestfit_inv_def heads_ok_def block_def three_blocks_simps)


text \<open>C25: When an allocation splits a block, the remainder that goes back on the free list is not
  marked: its head page never has the property flag, although every other way onto the free list
  sets the flag.\<close>

theorem bestfit_split_unmarked:
  assumes "bestfit_inv s" "bestfit_alloc_pages n s = Some (Some p, s')"
    and "n < pg_property (fa_pages s p)"
  shows "p + n \<in> set (fa_list s') \<and> \<not> PageProperty (fa_pages s' (p + n))"
proof (rule bestfit_alloc_split [OF assms(1,2)])
  fix R
  assume R: "fa_list s' = (if n < npg s p then (p + n) # R else R)" "0 < n"
    "heads_ok s (p # R)" "bestfit_free_set s = {p..<p + npg s p} \<union> held_pages (fblk s R)"
    "set (fa_list s) = insert p (set R)"
    "\<And>q. PageProperty (fa_pages s' q) \<longleftrightarrow> q \<noteq> p \<and> PageProperty (fa_pages s q)"
  have lt: "n < npg s p" using assms(3) by (simp add: npg_def)
  have "heads_ok s R" "{p..<p + npg s p} \<inter> held_pages (fblk s R) = {}"
    using R(3) by (simp_all only: heads_ok_Cons)
  with heads_in_area [of s R "p + n"] lt have "p + n \<notin> set R" by (auto simp: disjoint_iff)
  then have "p + n \<notin> set (fa_list s)" using R(2,5) by simp
  moreover have "\<not> PageReserved (fa_pages s (p + n))"
    using assms(1) R(4) lt by (auto simp: bestfit_inv_def)
  ultimately show ?thesis using assms(1) R(1,6) lt by (auto simp: bestfit_inv_def)
qed

theorem bestfit_split_unmarked_witness:
  "\<exists>s'. bestfit_alloc_pages 1 three_blocks = Some (Some 0, s') \<and>
     1 \<in> set (fa_list s') \<and> \<not> PageProperty (fa_pages s' 1)"
proof -
  have "\<exists>s'. bestfit_alloc_pages 1 three_blocks = Some (Some 0, s')"
    by (simp add: bestfit_alloc_pages_def three_blocks_def)
  then obtain s' where s': "bestfit_alloc_pages 1 three_blocks = Some (Some 0, s')" by blast
  have "1 < pg_property (fa_pages three_blocks 0)" by (simp add: three_blocks_def)
  from bestfit_split_unmarked [OF three_blocks_inv s' this] s' show ?thesis by auto
qed

end
