(* ===== verification/Buddy_pmm.thy ===== *)
theory Buddy_pmm
  imports Pages
begin

text \<open>
  The buddy manager of \<^verbatim>\<open>src/kernel/mm/buddy_pmm.c\<close>, the one the kernel installs
  (\<^verbatim>\<open>init_pmm_manager\<close>): free lists of blocks of \<open>2 ^ order\<close> pages, aligned relative to the base of
  their zone, split on allocation and merged with their buddy on release.
\<close>

section \<open>State and operations\<close>

definition MAX_ORDER :: nat where "MAX_ORDER = 10"
definition MAX_ZONE_NUM :: nat where "MAX_ZONE_NUM = 10"

record buddy =
  bd_pages :: "nat \<Rightarrow> page"
  bd_list :: "nat \<Rightarrow> nat list"
  bd_nr :: "nat \<Rightarrow> nat"
  bd_zones :: "nat \<Rightarrow> nat"
  bd_zone_num :: nat
  bd_npage :: nat

definition bd_upd :: "nat \<Rightarrow> (page \<Rightarrow> page) \<Rightarrow> buddy \<Rightarrow> buddy" where
  "bd_upd p f s = s\<lparr>bd_pages := (bd_pages s)(p := f (bd_pages s p))\<rparr>"

definition buddy_init :: "buddy \<Rightarrow> buddy" where
  "buddy_init s = s\<lparr>bd_list := (\<lambda>i. if i \<le> MAX_ORDER then [] else bd_list s i),
                    bd_nr := (\<lambda>i. if i \<le> MAX_ORDER then 0 else bd_nr s i)\<rparr>"

fun buddy_init_loop :: "nat \<Rightarrow> nat \<Rightarrow> buddy \<Rightarrow> buddy option" where
  "buddy_init_loop 0 p s = Some s"
| "buddy_init_loop (Suc k) p s = do {
     kassert (PageReserved (bd_pages s p));
     buddy_init_loop k (p + 1)
       (bd_upd p (\<lambda>pg. set_page_ref 0 (pg\<lparr>pg_flags := 0, pg_property := 0, pg_zone := bd_zone_num s\<rparr>)) s)
   }"

text \<open>Putting a block on its free list: set the order, mark the head, count it and link it.\<close>

definition add_block :: "nat \<Rightarrow> nat \<Rightarrow> buddy \<Rightarrow> buddy" where
  "add_block p order s =
     (let s1 = bd_upd p (\<lambda>pg. SetPageProperty (pg\<lparr>pg_property := order\<rparr>)) s
      in s1\<lparr>bd_nr := (bd_nr s1)(order := bd_nr s1 order + 1),
            bd_list := (bd_list s1)(order := p # bd_list s1 order)\<rparr>)"

function buddy_carve :: "nat \<Rightarrow> nat \<Rightarrow> nat \<Rightarrow> buddy \<Rightarrow> buddy" where
  "buddy_carve order n p s =
     (if n = 0 then s
      else if n \<ge> 2 ^ order
      then buddy_carve order (n - 2 ^ order) (p + 2 ^ order) (add_block p order s)
      else buddy_carve (order - 1) n p s)"
  by auto

termination
proof (relation "measure (\<lambda>(order, n, _). n + order)", goal_cases)
  case (3 order n p s)
  then show ?case by (cases order) auto
qed auto

definition buddy_init_memmap :: "nat \<Rightarrow> nat \<Rightarrow> buddy \<Rightarrow> buddy option" where
  "buddy_init_memmap base n s = do {
     kassert (n > 0 \<and> bd_zone_num s < MAX_ZONE_NUM);
     s1 \<leftarrow> buddy_init_loop n base s;
     let s2 = s1\<lparr>bd_zones := (bd_zones s1)(bd_zone_num s1 := base), bd_zone_num := bd_zone_num s1 + 1\<rparr>;
     Some (buddy_carve MAX_ORDER n base s2)
   }"

function get_order_from :: "nat \<Rightarrow> nat \<Rightarrow> nat option" where
  "get_order_from n order =
     (if order \<le> MAX_ORDER then (if n \<le> 2 ^ order then Some order else get_order_from n (order + 1))
      else None)"
  by auto
termination by (relation "measure (\<lambda>(_, order). Suc MAX_ORDER - order)") auto

definition get_order :: "nat \<Rightarrow> nat option" where
  "get_order n = get_order_from n 0"

text \<open>Splitting a block of order \<open>order + k\<close> at \<open>page\<close>: the upper half of each size goes back.\<close>

fun buddy_split :: "nat \<Rightarrow> nat \<Rightarrow> nat \<Rightarrow> buddy \<Rightarrow> buddy" where
  "buddy_split order page 0 s = s"
| "buddy_split order page (Suc k) s =
     buddy_split order page k (add_block (page + 2 ^ (order + k)) (order + k) s)"

function buddy_find :: "nat \<Rightarrow> buddy \<Rightarrow> nat option" where
  "buddy_find cur s =
     (if cur \<le> MAX_ORDER then (if bd_list s cur \<noteq> [] then Some cur else buddy_find (cur + 1) s)
      else None)"
  by auto
termination by (relation "measure (\<lambda>(cur, _). Suc MAX_ORDER - cur)") auto

definition buddy_alloc_pages_sub :: "nat \<Rightarrow> buddy \<Rightarrow> (nat option \<times> buddy) option" where
  "buddy_alloc_pages_sub order s = do {
     kassert (order \<le> MAX_ORDER);
     case buddy_find order s of
       None \<Rightarrow> Some (None, s)
     | Some cur \<Rightarrow>
         let page = hd (bd_list s cur);
             s1 = s\<lparr>bd_nr := (bd_nr s)(cur := bd_nr s cur - 1),
                    bd_list := (bd_list s)(cur := remove1 page (bd_list s cur))\<rparr>;
             s2 = buddy_split order page (cur - order) s1
         in Some (Some page, bd_upd page ClearPageProperty s2)
   }"

definition page_is_buddy :: "nat \<Rightarrow> nat \<Rightarrow> nat \<Rightarrow> buddy \<Rightarrow> bool" where
  "page_is_buddy page order zone s \<longleftrightarrow>
     page < bd_npage s \<and> pg_zone (bd_pages s page) = zone \<and>
     \<not> PageReserved (bd_pages s page) \<and> PageProperty (bd_pages s page) \<and>
     pg_property (bd_pages s page) = order"

definition page2idx :: "nat \<Rightarrow> buddy \<Rightarrow> nat" where
  "page2idx page s = page - bd_zones s (pg_zone (bd_pages s page))"

definition idx2page :: "nat \<Rightarrow> nat \<Rightarrow> buddy \<Rightarrow> nat" where
  "idx2page zone idx s = bd_zones s zone + idx"

fun buddy_clear_loop :: "nat \<Rightarrow> nat \<Rightarrow> buddy \<Rightarrow> buddy option" where
  "buddy_clear_loop 0 p s = Some s"
| "buddy_clear_loop (Suc k) p s = do {
     kassert (\<not> PageReserved (bd_pages s p) \<and> \<not> PageProperty (bd_pages s p));
     buddy_clear_loop k (p + 1) (bd_upd p (\<lambda>pg. set_page_ref 0 (pg\<lparr>pg_flags := 0\<rparr>)) s)
   }"

definition del_block :: "nat \<Rightarrow> nat \<Rightarrow> buddy \<Rightarrow> buddy" where
  "del_block p order s =
     bd_upd p ClearPageProperty
       (s\<lparr>bd_nr := (bd_nr s)(order := bd_nr s order - 1),
          bd_list := (bd_list s)(order := remove1 p (bd_list s order))\<rparr>)"

function buddy_merge :: "nat \<Rightarrow> nat \<Rightarrow> nat \<Rightarrow> buddy \<Rightarrow> nat \<times> nat \<times> buddy" where
  "buddy_merge zone order page_idx s =
     (if order < MAX_ORDER
      then let buddy_idx = page_idx XOR 2 ^ order;
               buddy = idx2page zone buddy_idx s
           in if page_is_buddy buddy order zone s
              then buddy_merge zone (order + 1) (page_idx AND buddy_idx) (del_block buddy order s)
              else (order, page_idx, s)
      else (order, page_idx, s))"
  by auto
termination by (relation "measure (\<lambda>(_, order, _). MAX_ORDER - order)") auto

definition buddy_free_pages_sub :: "nat \<Rightarrow> nat \<Rightarrow> buddy \<Rightarrow> buddy option" where
  "buddy_free_pages_sub base order s = do {
     let page_idx = page2idx base s;
     kassert (page_idx AND (2 ^ order - 1) = 0);
     s1 \<leftarrow> buddy_clear_loop (2 ^ order) base s;
     let zone = pg_zone (bd_pages s1 base);
     let (order', page_idx', s2) = buddy_merge zone order page_idx s1;
     Some (add_block (idx2page zone page_idx' s2) order' s2)
   }"

text \<open>The two loops of \<^verbatim>\<open>buddy_free_pages\<close>: sizes grow while the low bits of the index are consumed,
  then shrink while the rest of the length is consumed.\<close>

function buddy_free_up :: "nat \<Rightarrow> nat \<Rightarrow> nat \<Rightarrow> buddy \<Rightarrow> (nat \<times> nat \<times> nat \<times> buddy) option" where
  "buddy_free_up order base n s =
     (if n \<ge> 2 ^ order
      then if order \<le> MAX_ORDER
           then if page2idx base s AND 2 ^ order \<noteq> 0
                then case buddy_free_pages_sub base order s of
                       None \<Rightarrow> None
                     | Some s' \<Rightarrow> buddy_free_up (order + 1) (base + 2 ^ order) (n - 2 ^ order) s'
                else buddy_free_up (order + 1) base n s
           else None
      else Some (order, base, n, s))"
  by auto
termination by (relation "measure (\<lambda>(order, _). Suc MAX_ORDER - order)") auto

function buddy_free_down :: "nat \<Rightarrow> nat \<Rightarrow> nat \<Rightarrow> buddy \<Rightarrow> buddy option" where
  "buddy_free_down order base n s =
     (if n = 0 then Some s
      else if n < 2 ^ order then buddy_free_down (order - 1) base n s
      else case buddy_free_pages_sub base order s of
             None \<Rightarrow> None
           | Some s' \<Rightarrow> buddy_free_down order (base + 2 ^ order) (n - 2 ^ order) s')"
  by auto
termination
proof (relation "measure (\<lambda>(order, _, n, _). n + order)", goal_cases)
  case (2 order base n s)
  then show ?case by (cases order) auto
qed auto

definition buddy_free_pages :: "nat \<Rightarrow> nat \<Rightarrow> buddy \<Rightarrow> buddy option" where
  "buddy_free_pages base n s = do {
     kassert (n > 0);
     if n = 1 then buddy_free_pages_sub base 0 s
     else do {
       (order, base', n', s') \<leftarrow> buddy_free_up 0 base n s;
       buddy_free_down order base' n' s'
     }
   }"

definition buddy_alloc_pages :: "nat \<Rightarrow> buddy \<Rightarrow> (nat option \<times> buddy) option" where
  "buddy_alloc_pages n s = do {
     kassert (n > 0);
     order \<leftarrow> get_order n;
     (page, s1) \<leftarrow> buddy_alloc_pages_sub order s;
     case page of
       None \<Rightarrow> Some (None, s1)
     | Some p \<Rightarrow>
         if n \<noteq> 2 ^ order then do {
           s2 \<leftarrow> buddy_free_pages (p + n) (2 ^ order - n) s1;
           Some (Some p, s2)
         }
         else Some (Some p, s1)
   }"

definition buddy_nr_free_pages :: "buddy \<Rightarrow> nat" where
  "buddy_nr_free_pages s = (\<Sum>order\<le>MAX_ORDER. bd_nr s order * 2 ^ order)"

declare buddy_carve.simps [simp del] get_order_from.simps [simp del] buddy_find.simps [simp del]
  buddy_merge.simps [simp del] buddy_free_up.simps [simp del] buddy_free_down.simps [simp del]

section \<open>Buddy arithmetic\<close>

lemma bit_pow_mult: "bit (2 ^ k * m) k \<longleftrightarrow> odd m" for m :: nat
  by (simp add: bit_iff_odd)

lemma unset_bit_nat: "unset_bit k i = i - of_bool (bit i k) * 2 ^ k" for i :: nat
proof -
  have "set_bit k (unset_bit k i) = i" if "bit i k"
    using that by (intro bit_eqI) (auto simp: bit_simps)
  moreover have "set_bit k (unset_bit k i) = unset_bit k i + 2 ^ k"
    by (simp add: set_bit_eq bit_simps)
  moreover have "unset_bit k i = i" if "\<not> bit i k"
    using that by (intro bit_eqI) (auto simp: bit_simps)
  ultimately show ?thesis by (metis add_diff_cancel_right' diff_zero mult_1 mult_zero_left of_bool_eq)
qed

lemma xor_pow:
  fixes i :: nat
  assumes "2 ^ k dvd i"
  shows "i XOR 2 ^ k = (if 2 ^ Suc k dvd i then i + 2 ^ k else i - 2 ^ k)"
    and "i AND (i XOR 2 ^ k) = (if 2 ^ Suc k dvd i then i else i - 2 ^ k)"
proof -
  obtain m where m: "i = 2 ^ k * m" using assms by blast
  have b: "bit i k \<longleftrightarrow> \<not> 2 ^ Suc k dvd i" by (simp add: m bit_pow_mult mult.commute [of 2])
  have "i XOR 2 ^ k = flip_bit k i" by (simp add: flip_bit_eq_xor push_bit_of_1)
  then show "i XOR 2 ^ k = (if 2 ^ Suc k dvd i then i + 2 ^ k else i - 2 ^ k)"
    using b by (simp add: flip_bit_eq_if set_bit_eq unset_bit_nat)
  have "i AND (i XOR 2 ^ k) = unset_bit k i"
    by (rule bit_eqI) (auto simp: bit_simps)
  then show "i AND (i XOR 2 ^ k) = (if 2 ^ Suc k dvd i then i else i - 2 ^ k)"
    using b by (simp add: unset_bit_nat)
qed

lemma and_pow_zero: "2 ^ k dvd i \<Longrightarrow> i AND (2 ^ k - 1) = 0" for i :: nat
  using take_bit_eq_mask [of k i] by (simp add: take_bit_eq_mod mask_eq_exp_minus_1)

lemma and_pow_bit: "2 ^ k dvd i \<Longrightarrow> (i AND 2 ^ k \<noteq> 0) \<longleftrightarrow> \<not> 2 ^ Suc k dvd i" for i :: nat
proof -
  assume "2 ^ k dvd i"
  then obtain m where m: "i = 2 ^ k * m" by blast
  have "i AND 2 ^ k = of_bool (bit i k) * 2 ^ k"
    by (rule bit_eqI) (auto simp: bit_simps)
  then show ?thesis by (simp add: m bit_pow_mult mult.commute [of 2])
qed

lemma odd_step:
  fixes i :: nat
  assumes "2 ^ k dvd i" "\<not> 2 ^ Suc k dvd i"
  shows "2 ^ Suc k dvd i + 2 ^ k" "2 ^ Suc k dvd i - 2 ^ k" "2 ^ k \<le> i"
proof -
  obtain m where m: "i = 2 ^ k * m" using assms(1) by blast
  with assms(2) have "odd m" by (auto simp: mult.commute [of 2])
  then obtain j where j: "m = 2 * j + 1" by (auto elim: oddE)
  have "i + 2 ^ k = 2 ^ Suc k * (j + 1)" "i - 2 ^ k = 2 ^ Suc k * j"
    by (simp_all add: m j algebra_simps)
  then show "2 ^ Suc k dvd i + 2 ^ k" "2 ^ Suc k dvd i - 2 ^ k" by (metis dvd_triv_left)+
  show "2 ^ k \<le> i" by (simp add: m j)
qed

section \<open>Invariant\<close>

definition heads :: "buddy \<Rightarrow> nat set" where
  "heads s = {q. \<not> PageReserved (bd_pages s q) \<and> PageProperty (bd_pages s q)}"

definition order_of :: "buddy \<Rightarrow> nat \<Rightarrow> nat" where
  "order_of s q = pg_property (bd_pages s q)"

text \<open>A region of unreserved pages of zone \<open>z\<close>.\<close>

definition region :: "buddy \<Rightarrow> nat \<Rightarrow> nat \<Rightarrow> nat \<Rightarrow> bool" where
  "region s z p n \<longleftrightarrow> bd_zones s z \<le> p \<and> p + n \<le> bd_npage s \<and>
     (\<forall>q. p \<le> q \<and> q < p + n \<longrightarrow> \<not> PageReserved (bd_pages s q) \<and> pg_zone (bd_pages s q) = z)"

definition aligned :: "buddy \<Rightarrow> nat \<Rightarrow> nat \<Rightarrow> nat \<Rightarrow> bool" where
  "aligned s z p k \<longleftrightarrow> region s z p (2 ^ k) \<and> 2 ^ k dvd p - bd_zones s z"

definition buddy_free_set :: "buddy \<Rightarrow> nat set" where
  "buddy_free_set s = (\<Union>q\<in>heads s. {q..<q + 2 ^ order_of s q})"

definition buddy_inv :: "buddy \<Rightarrow> bool" where
  "buddy_inv s \<longleftrightarrow>
     (\<forall>k\<le>MAX_ORDER. distinct (bd_list s k) \<and> set (bd_list s k) = {q\<in>heads s. order_of s q = k} \<and>
        bd_nr s k = length (bd_list s k)) \<and>
     (\<forall>q\<in>heads s. order_of s q \<le> MAX_ORDER \<and> aligned s (pg_zone (bd_pages s q)) q (order_of s q)) \<and>
     (\<forall>p\<in>heads s. \<forall>q\<in>heads s. p \<noteq> q \<longrightarrow>
        {p..<p + 2 ^ order_of s p} \<inter> {q..<q + 2 ^ order_of s q} = {}) \<and>
     (\<forall>q. \<not> PageReserved (bd_pages s q) \<longrightarrow> pg_zone (bd_pages s q) < bd_zone_num s)"

text \<open>What the operations on free blocks leave alone.\<close>

definition same_map :: "buddy \<Rightarrow> buddy \<Rightarrow> bool" where
  "same_map s s' \<longleftrightarrow> bd_zones s' = bd_zones s \<and> bd_npage s' = bd_npage s \<and>
     bd_zone_num s' = bd_zone_num s \<and>
     (\<forall>q. pg_zone (bd_pages s' q) = pg_zone (bd_pages s q) \<and>
          PageReserved (bd_pages s' q) = PageReserved (bd_pages s q))"

lemma same_map_refl [simp]: "same_map s s"
  by (simp add: same_map_def)

lemma same_map_trans: "same_map s s' \<Longrightarrow> same_map s' s'' \<Longrightarrow> same_map s s''"
  by (simp add: same_map_def)

lemma same_map_region: "same_map s s' \<Longrightarrow> region s' z p n = region s z p n"
  by (simp add: same_map_def region_def)

lemma same_map_aligned: "same_map s s' \<Longrightarrow> aligned s' z p k = aligned s z p k"
  by (simp add: aligned_def same_map_region) (simp add: same_map_def)

lemma bd_upd_simps [simp]:
  "bd_pages (bd_upd p f s) = (bd_pages s)(p := f (bd_pages s p))"
  "bd_list (bd_upd p f s) = bd_list s" "bd_nr (bd_upd p f s) = bd_nr s"
  "bd_zones (bd_upd p f s) = bd_zones s" "bd_zone_num (bd_upd p f s) = bd_zone_num s"
  "bd_npage (bd_upd p f s) = bd_npage s"
  by (simp_all add: bd_upd_def)

lemma add_block_simps [simp]:
  "bd_pages (add_block p k s) =
     (bd_pages s)(p := SetPageProperty ((bd_pages s p)\<lparr>pg_property := k\<rparr>))"
  "bd_list (add_block p k s) = (bd_list s)(k := p # bd_list s k)"
  "bd_nr (add_block p k s) = (bd_nr s)(k := bd_nr s k + 1)"
  "bd_zones (add_block p k s) = bd_zones s" "bd_zone_num (add_block p k s) = bd_zone_num s"
  "bd_npage (add_block p k s) = bd_npage s"
  by (simp_all add: add_block_def Let_def)

lemma del_block_simps [simp]:
  "bd_pages (del_block p k s) = (bd_pages s)(p := ClearPageProperty (bd_pages s p))"
  "bd_list (del_block p k s) = (bd_list s)(k := remove1 p (bd_list s k))"
  "bd_nr (del_block p k s) = (bd_nr s)(k := bd_nr s k - 1)"
  "bd_zones (del_block p k s) = bd_zones s" "bd_zone_num (del_block p k s) = bd_zone_num s"
  "bd_npage (del_block p k s) = bd_npage s"
  by (simp_all add: del_block_def)

lemma same_map_ops [simp]: "same_map s (add_block p k s)" "same_map s (del_block p k s)"
  by (simp_all add: same_map_def)

lemma heads_add:
  "\<not> PageReserved (bd_pages s p) \<Longrightarrow> heads (add_block p k s) = insert p (heads s)"
  "order_of (add_block p k s) q = (if q = p then k else order_of s q)"
  by (auto simp: heads_def order_of_def)

lemma heads_del:
  "heads (del_block p k s) = heads s - {p}" "order_of (del_block p k s) q = order_of s q"
  by (auto simp: heads_def order_of_def)

lemma heads_in_free: "q \<in> heads s \<Longrightarrow> q \<in> buddy_free_set s"
  by (auto simp: buddy_free_set_def intro!: bexI [of _ q])

lemma pow_block [simp]: "p \<in> {p..<p + 2 ^ k}" for p :: nat
  by simp

lemma aligned_unreserved: "aligned s z p k \<Longrightarrow> \<not> PageReserved (bd_pages s p) \<and> pg_zone (bd_pages s p) = z"
  by (auto simp: aligned_def region_def)

lemma buddy_inv_lists:
  "buddy_inv s \<Longrightarrow> k \<le> MAX_ORDER \<Longrightarrow> distinct (bd_list s k)"
  "buddy_inv s \<Longrightarrow> k \<le> MAX_ORDER \<Longrightarrow> set (bd_list s k) = {q\<in>heads s. order_of s q = k}"
  "buddy_inv s \<Longrightarrow> k \<le> MAX_ORDER \<Longrightarrow> bd_nr s k = length (bd_list s k)"
  by (simp_all add: buddy_inv_def)

lemma buddy_inv_heads:
  "buddy_inv s \<Longrightarrow> q \<in> heads s \<Longrightarrow> order_of s q \<le> MAX_ORDER"
  "buddy_inv s \<Longrightarrow> q \<in> heads s \<Longrightarrow> aligned s (pg_zone (bd_pages s q)) q (order_of s q)"
  "buddy_inv s \<Longrightarrow> p \<in> heads s \<Longrightarrow> q \<in> heads s \<Longrightarrow> p \<noteq> q \<Longrightarrow>
     {p..<p + 2 ^ order_of s p} \<inter> {q..<q + 2 ^ order_of s q} = {}"
  "buddy_inv s \<Longrightarrow> \<not> PageReserved (bd_pages s q) \<Longrightarrow> pg_zone (bd_pages s q) < bd_zone_num s"
  unfolding buddy_inv_def by blast+

lemma buddy_invI:
  assumes "\<And>k. k \<le> MAX_ORDER \<Longrightarrow> distinct (bd_list s k)"
    and "\<And>k. k \<le> MAX_ORDER \<Longrightarrow> set (bd_list s k) = {q\<in>heads s. order_of s q = k}"
    and "\<And>k. k \<le> MAX_ORDER \<Longrightarrow> bd_nr s k = length (bd_list s k)"
    and "\<And>q. q \<in> heads s \<Longrightarrow> order_of s q \<le> MAX_ORDER"
    and "\<And>q. q \<in> heads s \<Longrightarrow> aligned s (pg_zone (bd_pages s q)) q (order_of s q)"
    and "\<And>p q. p \<in> heads s \<Longrightarrow> q \<in> heads s \<Longrightarrow> p \<noteq> q \<Longrightarrow>
      {p..<p + 2 ^ order_of s p} \<inter> {q..<q + 2 ^ order_of s q} = {}"
    and "\<And>q. \<not> PageReserved (bd_pages s q) \<Longrightarrow> pg_zone (bd_pages s q) < bd_zone_num s"
  shows "buddy_inv s"
  unfolding buddy_inv_def by (intro conjI allI ballI impI; rule assms; assumption)

lemma add_block_free_set:
  assumes "\<not> PageReserved (bd_pages s p)" "p \<notin> heads s"
  shows "buddy_free_set (add_block p k s) = buddy_free_set s \<union> {p..<p + 2 ^ k}"
proof -
  have "(\<Union>q\<in>heads s. {q..<q + 2 ^ order_of (add_block p k s) q}) = buddy_free_set s"
    unfolding buddy_free_set_def
    using assms(2) by (intro SUP_cong) (auto simp: heads_add(2))
  then show ?thesis
    using assms(1) by (simp add: buddy_free_set_def [of "add_block p k s"] heads_add Un_commute)
qed

lemma add_block_inv:
  assumes inv: "buddy_inv s" and k: "k \<le> MAX_ORDER" and al: "aligned s z p k"
    and dis: "{p..<p + 2 ^ k} \<inter> buddy_free_set s = {}"
  shows "buddy_inv (add_block p k s)"
    and "buddy_free_set (add_block p k s) = buddy_free_set s \<union> {p..<p + 2 ^ k}"
proof -
  let ?s = "add_block p k s"
  note un = aligned_unreserved [OF al]
  have p: "p \<notin> heads s" using heads_in_free [of p s] dis pow_block [of p k] by blast
  note h = heads_add(1) [OF conjunct1 [OF un]] and o = heads_add(2)
  show "buddy_free_set ?s = buddy_free_set s \<union> {p..<p + 2 ^ k}"
    using un p by (simp add: add_block_free_set)
  have sub: "{q..<q + 2 ^ order_of s q} \<inter> {p..<p + 2 ^ k} = {}" if "q \<in> heads s" for q
    using dis that unfolding buddy_free_set_def by blast
  show "buddy_inv ?s"
  proof (rule buddy_invI)
    fix j assume j: "j \<le> MAX_ORDER"
    show "distinct (bd_list ?s j)"
      using buddy_inv_lists [OF inv j] p by auto
    show "set (bd_list ?s j) = {q \<in> heads ?s. order_of ?s q = j}"
      using buddy_inv_lists(2) [OF inv j] p by (auto simp: h o)
    show "bd_nr ?s j = length (bd_list ?s j)"
      using buddy_inv_lists(3) [OF inv j] by auto
  next
    fix q assume q: "q \<in> heads ?s"
    show "order_of ?s q \<le> MAX_ORDER"
      using q k buddy_inv_heads(1) [OF inv, of q] by (auto simp: h o)
    show "aligned ?s (pg_zone (bd_pages ?s q)) q (order_of ?s q)"
      using q al un buddy_inv_heads(2) [OF inv, of q]
      by (auto simp: h o same_map_aligned [OF same_map_ops(1)])
  next
    fix a b assume "a \<in> heads ?s" "b \<in> heads ?s" "a \<noteq> b"
    then show "{a..<a + 2 ^ order_of ?s a} \<inter> {b..<b + 2 ^ order_of ?s b} = {}"
      using sub [of a] sub [of b] buddy_inv_heads(3) [OF inv, of a b]
      by (cases "a = p"; cases "b = p") (simp_all add: h o Int_commute)
  next
    fix q assume "\<not> PageReserved (bd_pages ?s q)"
    then show "pg_zone (bd_pages ?s q) < bd_zone_num ?s"
      using buddy_inv_heads(4) [OF inv, of q] by (auto split: if_splits)
  qed
qed

lemma del_block_inv:
  assumes inv: "buddy_inv s" and p: "p \<in> heads s" "order_of s p = k"
  shows "buddy_inv (del_block p k s)"
    and "buddy_free_set (del_block p k s) = buddy_free_set s - {p..<p + 2 ^ k}"
    and "{p..<p + 2 ^ k} \<subseteq> buddy_free_set s"
proof -
  let ?s = "del_block p k s"
  have dis: "{q..<q + 2 ^ order_of s q} \<inter> {p..<p + 2 ^ k} = {}" if "q \<in> heads s" "q \<noteq> p" for q
    using buddy_inv_heads(3) [OF inv that(1) p(1) that(2)] p(2) by simp
  show sub: "{p..<p + 2 ^ k} \<subseteq> buddy_free_set s"
    using p by (auto simp: buddy_free_set_def)
  have "buddy_free_set ?s = (\<Union>q\<in>heads s - {p}. {q..<q + 2 ^ order_of s q})"
    by (simp add: buddy_free_set_def heads_del)
  moreover have "buddy_free_set s = (\<Union>q\<in>heads s - {p}. {q..<q + 2 ^ order_of s q}) \<union> {p..<p + 2 ^ k}"
    using p by (auto simp: buddy_free_set_def)
  moreover have "(\<Union>q\<in>heads s - {p}. {q..<q + 2 ^ order_of s q}) \<inter> {p..<p + 2 ^ k} = {}"
    using dis by blast
  ultimately show "buddy_free_set ?s = buddy_free_set s - {p..<p + 2 ^ k}"
    by (simp add: Un_Diff Diff_triv)
  show "buddy_inv ?s"
  proof (rule buddy_invI)
    fix j assume j: "j \<le> MAX_ORDER"
    note l = buddy_inv_lists [OF inv j]
    show "distinct (bd_list ?s j)" using l(1) by auto
    have "set (bd_list ?s j) = set (bd_list s j) - {p}"
      using l(1,2) p(2) by (cases "j = k") simp_all
    then show "set (bd_list ?s j) = {q \<in> heads ?s. order_of ?s q = j}"
      unfolding l(2) heads_del by blast
    show "bd_nr ?s j = length (bd_list ?s j)"
      using l(2,3) p by (cases "j = k") (simp_all add: length_remove1)
  next
    fix q assume q: "q \<in> heads ?s"
    then show "order_of ?s q \<le> MAX_ORDER"
      using buddy_inv_heads(1) [OF inv, of q] by (simp add: heads_del)
    show "aligned ?s (pg_zone (bd_pages ?s q)) q (order_of ?s q)"
      using q buddy_inv_heads(2) [OF inv, of q]
      by (auto simp: heads_del same_map_aligned [OF same_map_ops(2)])
  next
    fix a b assume "a \<in> heads ?s" "b \<in> heads ?s" "a \<noteq> b"
    then show "{a..<a + 2 ^ order_of ?s a} \<inter> {b..<b + 2 ^ order_of ?s b} = {}"
      using buddy_inv_heads(3) [OF inv, of a b] by (simp add: heads_del)
  next
    fix q assume "\<not> PageReserved (bd_pages ?s q)"
    then show "pg_zone (bd_pages ?s q) < bd_zone_num ?s"
      using buddy_inv_heads(4) [OF inv, of q] by (auto split: if_splits)
  qed
qed

text \<open>States that differ only in reference counts and irrelevant flag bits.\<close>

definition same_meta :: "buddy \<Rightarrow> buddy \<Rightarrow> bool" where
  "same_meta s s' \<longleftrightarrow> same_map s s' \<and> bd_list s' = bd_list s \<and> bd_nr s' = bd_nr s \<and>
     (\<forall>q. PageProperty (bd_pages s' q) = PageProperty (bd_pages s q) \<and> order_of s' q = order_of s q)"

lemma same_meta_inv:
  assumes "same_meta s s'"
  shows "heads s' = heads s" "buddy_inv s' = buddy_inv s" "buddy_free_set s' = buddy_free_set s"
proof -
  have m: "same_map s s'" using assms by (simp add: same_meta_def)
  show h: "heads s' = heads s" using assms by (simp add: same_meta_def same_map_def heads_def)
  have o: "order_of s' = order_of s" using assms by (simp add: same_meta_def fun_eq_iff)
  show "buddy_free_set s' = buddy_free_set s" by (simp add: buddy_free_set_def h o)
  show "buddy_inv s' = buddy_inv s"
    using assms by (simp add: buddy_inv_def h o same_map_aligned [OF m])
      (simp add: same_meta_def same_map_def)
qed

lemma buddy_clear_loop_spec:
  assumes "\<forall>q. p \<le> q \<and> q < p + k \<longrightarrow> \<not> PageReserved (bd_pages s q) \<and> \<not> PageProperty (bd_pages s q)"
  shows "\<exists>s'. buddy_clear_loop k p s = Some s' \<and> same_meta s s'"
  using assms
proof (induction k arbitrary: p s)
  case 0
  then show ?case by (simp add: same_meta_def)
next
  case (Suc k)
  let ?s1 = "bd_upd p (\<lambda>pg. set_page_ref 0 (pg\<lparr>pg_flags := 0\<rparr>)) s"
  have m: "same_meta s ?s1"
    using Suc.prems by (auto simp: same_meta_def same_map_def order_of_def)
  then have "\<forall>q. p + 1 \<le> q \<and> q < p + 1 + k \<longrightarrow>
      \<not> PageReserved (bd_pages ?s1 q) \<and> \<not> PageProperty (bd_pages ?s1 q)"
    using Suc.prems by simp
  from Suc.IH [OF this] obtain s' where s': "buddy_clear_loop k (p + 1) ?s1 = Some s'" "same_meta ?s1 s'"
    by blast
  have "same_meta s s'"
    using m s'(2) unfolding same_meta_def by (auto intro: same_map_trans)
  with s' Suc.prems show ?case by auto
qed

section \<open>Release\<close>

lemma region_sub: "region s z p n \<Longrightarrow> p \<le> q \<Longrightarrow> q + k \<le> p + n \<Longrightarrow> region s z q k"
  by (auto simp: region_def)

lemma region_append:
  assumes "region s z p n" "region s z (p + n) k"
  shows "region s z p (n + k)"
proof -
  have "\<not> PageReserved (bd_pages s q) \<and> pg_zone (bd_pages s q) = z" if "p \<le> q" "q < p + (n + k)" for q
    using assms that by (cases "q < p + n") (auto simp: region_def)
  with assms show ?thesis by (simp add: region_def add.assoc)
qed

text \<open>The merged block of a block at index \<open>i\<close> and its free buddy.\<close>

lemma buddy_union:
  assumes al: "aligned s z (bd_zones s z + i) k" and b: "aligned s z (bd_zones s z + (i XOR 2 ^ k)) k"
  shows "aligned s z (bd_zones s z + (i AND (i XOR 2 ^ k))) (Suc k)"
    "{bd_zones s z + (i AND (i XOR 2 ^ k))..<bd_zones s z + (i AND (i XOR 2 ^ k)) + 2 ^ Suc k} =
      {bd_zones s z + i..<bd_zones s z + i + 2 ^ k} \<union>
      {bd_zones s z + (i XOR 2 ^ k)..<bd_zones s z + (i XOR 2 ^ k) + 2 ^ k}"
    "{bd_zones s z + i..<bd_zones s z + i + 2 ^ k} \<inter>
      {bd_zones s z + (i XOR 2 ^ k)..<bd_zones s z + (i XOR 2 ^ k) + 2 ^ k} = {}"
proof -
  have dvd: "2 ^ k dvd i" using al by (simp add: aligned_def)
  note x = xor_pow [OF dvd]
  have le: "\<not> 2 ^ Suc k dvd i \<Longrightarrow> 2 ^ k \<le> i" using odd_step(3) [OF dvd] by blast
  show "aligned s z (bd_zones s z + (i AND (i XOR 2 ^ k))) (Suc k)"
  proof (cases "2 ^ Suc k dvd i")
    case True
    have "region s z (bd_zones s z + i) (2 ^ k + 2 ^ k)"
      using al b True by (intro region_append) (simp_all add: aligned_def x(1) add.assoc)
    with True show ?thesis unfolding x(2) by (simp add: aligned_def mult_2)
  next
    case False
    have "region s z (bd_zones s z + (i - 2 ^ k)) (2 ^ k + 2 ^ k)"
      using al b False le by (intro region_append) (simp_all add: aligned_def x(1))
    with False odd_step(2) [OF dvd False] show ?thesis unfolding x(2) by (simp add: aligned_def mult_2)
  qed
  show "{bd_zones s z + (i AND (i XOR 2 ^ k))..<bd_zones s z + (i AND (i XOR 2 ^ k)) + 2 ^ Suc k} =
      {bd_zones s z + i..<bd_zones s z + i + 2 ^ k} \<union>
      {bd_zones s z + (i XOR 2 ^ k)..<bd_zones s z + (i XOR 2 ^ k) + 2 ^ k}"
    using le unfolding x(2) unfolding x(1) by (cases "2 ^ Suc k dvd i") auto
  show "{bd_zones s z + i..<bd_zones s z + i + 2 ^ k} \<inter>
      {bd_zones s z + (i XOR 2 ^ k)..<bd_zones s z + (i XOR 2 ^ k) + 2 ^ k} = {}"
    using le unfolding x(2) unfolding x(1) by (cases "2 ^ Suc k dvd i") auto
qed

lemma buddy_merge_spec:
  assumes "buddy_inv s" "k \<le> MAX_ORDER" "aligned s z (bd_zones s z + i) k"
    and "{bd_zones s z + i..<bd_zones s z + i + 2 ^ k} \<inter> buddy_free_set s = {}"
    and "buddy_merge z k i s = (k', i', s')"
  shows "buddy_inv s' \<and> same_map s s' \<and> k' \<le> MAX_ORDER \<and> aligned s' z (bd_zones s' z + i') k' \<and>
    {bd_zones s' z + i'..<bd_zones s' z + i' + 2 ^ k'} \<inter> buddy_free_set s' = {} \<and>
    buddy_free_set s' \<union> {bd_zones s' z + i'..<bd_zones s' z + i' + 2 ^ k'} =
      buddy_free_set s \<union> {bd_zones s z + i..<bd_zones s z + i + 2 ^ k}"
  using assms
proof (induction z k i s rule: buddy_merge.induct)
  case (1 z k i s)
  let ?b = "bd_zones s z + (i XOR 2 ^ k)"
  show ?case
  proof (cases "k < MAX_ORDER \<and> page_is_buddy ?b k z s")
    case False
    then have "(k', i', s') = (k, i, s)"
      using 1(6) by (subst (asm) buddy_merge.simps) (auto simp: idx2page_def Let_def split: if_splits)
    with 1(2-5) show ?thesis by simp
  next
    case True
    then have b: "?b \<in> heads s" "order_of s ?b = k" "pg_zone (bd_pages s ?b) = z"
      by (auto simp: page_is_buddy_def heads_def order_of_def)
    then have ab: "aligned s z ?b k" using buddy_inv_heads(2) [OF 1(2) b(1)] by simp
    note u = buddy_union [OF 1(4) ab] and d = del_block_inv [OF 1(2) b(1,2)]
    let ?s = "del_block ?b k s" and ?i = "i AND (i XOR 2 ^ k)"
    have m: "buddy_merge z (k + 1) ?i ?s = (k', i', s')"
      using 1(6) True by (subst (asm) buddy_merge.simps) (simp add: idx2page_def Let_def)
    have al: "aligned ?s z (bd_zones ?s z + ?i) (k + 1)"
      using u(1) by (simp add: same_map_aligned [OF same_map_ops(2)])
    have dis: "{bd_zones ?s z + ?i..<bd_zones ?s z + ?i + 2 ^ (k + 1)} \<inter> buddy_free_set ?s = {}"
      using u(2) d(2) 1(5) by auto
    have un: "buddy_free_set ?s \<union> {bd_zones ?s z + ?i..<bd_zones ?s z + ?i + 2 ^ (k + 1)} =
        buddy_free_set s \<union> {bd_zones s z + i..<bd_zones s z + i + 2 ^ k}"
      using u(2) d(2,3) by auto
    have "k + 1 \<le> MAX_ORDER" using True by simp
    from 1(1) [OF conjunct1 [OF True] refl idx2page_def [symmetric] conjunct2 [OF True] d(1) this al dis m]
    show ?thesis unfolding un using same_map_trans [OF same_map_ops(2)] by blast
  qed
qed

lemma buddy_free_sub_spec:
  assumes inv: "buddy_inv s" and k: "k \<le> MAX_ORDER" and al: "aligned s z p k"
    and dis: "{p..<p + 2 ^ k} \<inter> buddy_free_set s = {}"
  shows "\<exists>s'. buddy_free_pages_sub p k s = Some s' \<and> buddy_inv s' \<and> same_map s s' \<and>
    buddy_free_set s' = buddy_free_set s \<union> {p..<p + 2 ^ k}"
proof -
  let ?i = "p - bd_zones s z"
  have z: "pg_zone (bd_pages s p) = z" using aligned_unreserved [OF al] by blast
  have p: "bd_zones s z + ?i = p" using al by (simp add: aligned_def region_def)
  have idx: "page2idx p s = ?i" by (simp add: page2idx_def z)
  have "2 ^ k dvd ?i" using al by (simp add: aligned_def)
  then have zero: "?i AND (2 ^ k - 1) = 0" by (rule and_pow_zero)
  have "\<forall>q. p \<le> q \<and> q < p + 2 ^ k \<longrightarrow> \<not> PageReserved (bd_pages s q) \<and> \<not> PageProperty (bd_pages s q)"
  proof (intro allI impI)
    fix q assume q: "p \<le> q \<and> q < p + 2 ^ k"
    then have "q \<notin> heads s" using dis heads_in_free [of q s] by (auto simp: disjoint_iff)
    with q al show "\<not> PageReserved (bd_pages s q) \<and> \<not> PageProperty (bd_pages s q)"
      by (simp add: aligned_def region_def heads_def)
  qed
  from buddy_clear_loop_spec [OF this] obtain s1 where
    s1: "buddy_clear_loop (2 ^ k) p s = Some s1" "same_meta s s1" by blast
  note m1 = same_meta_inv [OF s1(2)]
  have map1: "same_map s s1" using s1(2) by (simp add: same_meta_def)
  have z1: "pg_zone (bd_pages s1 p) = z" "bd_zones s1 = bd_zones s" using map1 z by (simp_all add: same_map_def)
  obtain k' i' s2 where mg: "buddy_merge z k ?i s1 = (k', i', s2)" by (metis prod_cases3)
  have al1: "aligned s1 z (bd_zones s1 z + ?i) k"
    using al p z1(2) by (simp add: same_map_aligned [OF map1])
  have mm: "buddy_inv s2 \<and> same_map s1 s2 \<and> k' \<le> MAX_ORDER \<and> aligned s2 z (bd_zones s2 z + i') k' \<and>
    {bd_zones s2 z + i'..<bd_zones s2 z + i' + 2 ^ k'} \<inter> buddy_free_set s2 = {} \<and>
    buddy_free_set s2 \<union> {bd_zones s2 z + i'..<bd_zones s2 z + i' + 2 ^ k'} =
      buddy_free_set s1 \<union> {bd_zones s1 z + ?i..<bd_zones s1 z + ?i + 2 ^ k}"
    using inv dis p z1(2) m1 by (intro buddy_merge_spec [OF _ k al1 _ mg]) simp_all
  let ?s' = "add_block (bd_zones s2 z + i') k' s2"
  have "buddy_free_pages_sub p k s = Some ?s'"
    using s1(1) idx zero z1(1) mg by (simp add: buddy_free_pages_sub_def idx2page_def)
  moreover have "buddy_inv ?s'" "buddy_free_set ?s' = buddy_free_set s2 \<union>
      {bd_zones s2 z + i'..<bd_zones s2 z + i' + 2 ^ k'}"
    using add_block_inv [of s2 k' z "bd_zones s2 z + i'"] mm by blast+
  moreover have "same_map s ?s'"
    using mm map1 same_map_ops(1) same_map_trans by blast
  ultimately show ?thesis using mm p z1(2) m1(3) by auto
qed

lemma aligned_sub:
  assumes "region s z p n" "2 ^ k \<le> n" "2 ^ k dvd p - bd_zones s z"
  shows "aligned s z p k"
  using assms region_sub [of s z p n p "2 ^ k"] by (simp add: aligned_def)

lemma region_tail:
  assumes "region s z p n" "k \<le> n"
  shows "region s z (p + k) (n - k)"
  using assms by (intro region_sub [OF assms(1)]) auto

lemma idx_add: "region s z p n \<Longrightarrow> p + k - bd_zones s z = (p - bd_zones s z) + k"
  by (simp add: region_def)

lemma ivl_split: "{p..<p + k} \<union> {p + k..<p + k + (n - k)} = {p..<p + n}" if "k \<le> n" for p :: nat
  using that by auto

text \<open>One block of the decomposition: the release succeeds and the rest of the region is untouched.\<close>

lemma free_step:
  assumes "buddy_inv s" "region s z p n" "2 ^ k \<le> n" "2 ^ k dvd p - bd_zones s z" "k \<le> MAX_ORDER"
    and "{p..<p + n} \<inter> buddy_free_set s = {}"
  obtains s' where "buddy_free_pages_sub p k s = Some s'" "buddy_inv s'" "same_map s s'"
    "buddy_free_set s' = buddy_free_set s \<union> {p..<p + 2 ^ k}"
    "region s' z (p + 2 ^ k) (n - 2 ^ k)"
    "{p + 2 ^ k..<p + 2 ^ k + (n - 2 ^ k)} \<inter> buddy_free_set s' = {}"
proof -
  have "{p..<p + 2 ^ k} \<subseteq> {p..<p + n}" using assms(3) by auto
  then have "{p..<p + 2 ^ k} \<inter> buddy_free_set s = {}" using assms(6) by blast
  from buddy_free_sub_spec [OF assms(1,5) aligned_sub [OF assms(2-4)] this] obtain s' where
    s': "buddy_free_pages_sub p k s = Some s'" "buddy_inv s'" "same_map s s'"
      "buddy_free_set s' = buddy_free_set s \<union> {p..<p + 2 ^ k}" by blast
  moreover have "region s' z (p + 2 ^ k) (n - 2 ^ k)"
    using region_tail [OF assms(2,3)] by (simp add: same_map_region [OF s'(3)])
  moreover have "{p + 2 ^ k..<p + 2 ^ k + (n - 2 ^ k)} \<inter> buddy_free_set s' = {}"
    using assms(3,6) by (auto simp: s'(4) disjoint_iff)
  ultimately show ?thesis by (rule that)
qed

lemma buddy_free_up_spec:
  assumes "buddy_inv s" "region s z p n" "2 ^ k dvd p - bd_zones s z" "n < 2 ^ Suc MAX_ORDER"
    and "{p..<p + n} \<inter> buddy_free_set s = {}"
  shows "\<exists>k' p' n' s'. buddy_free_up k p n s = Some (k', p', n', s') \<and> buddy_inv s' \<and> same_map s s' \<and>
    region s' z p' n' \<and> 2 ^ k' dvd p' - bd_zones s' z \<and> n' < 2 ^ k' \<and> n' < 2 ^ Suc MAX_ORDER \<and>
    {p'..<p' + n'} \<inter> buddy_free_set s' = {} \<and>
    buddy_free_set s' \<union> {p'..<p' + n'} = buddy_free_set s \<union> {p..<p + n}"
  using assms
proof (induction k p n s rule: buddy_free_up.induct)
  case (1 k p n s)
  show ?case
  proof (cases "2 ^ k \<le> n")
    case False
    with 1 show ?thesis by (subst buddy_free_up.simps) simp
  next
    case True
    have k: "k \<le> MAX_ORDER"
    proof (rule ccontr)
      assume "\<not> k \<le> MAX_ORDER"
      then have "(2 :: nat) ^ Suc MAX_ORDER \<le> 2 ^ k" by (intro power_increasing) auto
      with True 1(6) show False by simp
    qed
    have "0 < n" using True by (metis gr0I le_zero_eq power_not_zero zero_neq_numeral)
    then have "pg_zone (bd_pages s p) = z" using 1(4) by (simp add: region_def)
    then have bit: "page2idx p s AND 2 ^ k \<noteq> 0 \<longleftrightarrow> \<not> 2 ^ Suc k dvd p - bd_zones s z"
      using and_pow_bit [OF 1(5)] by (simp add: page2idx_def)
    show ?thesis
    proof (cases "2 ^ Suc k dvd p - bd_zones s z")
      case even: True
      with 1(2) [OF True k] 1(3-7) True k bit show ?thesis
        by (subst buddy_free_up.simps) simp
    next
      case odd: False
      obtain s' where s': "buddy_free_pages_sub p k s = Some s'" "buddy_inv s'" "same_map s s'"
        "buddy_free_set s' = buddy_free_set s \<union> {p..<p + 2 ^ k}"
        "region s' z (p + 2 ^ k) (n - 2 ^ k)"
        "{p + 2 ^ k..<p + 2 ^ k + (n - 2 ^ k)} \<inter> buddy_free_set s' = {}"
        by (rule free_step [OF 1(3,4) True 1(5) k 1(7)])
      have d: "2 ^ (k + 1) dvd p + 2 ^ k - bd_zones s' z"
        using odd_step(1) [OF 1(5) odd] idx_add [OF 1(4)] s'(3) by (simp add: same_map_def)
      have lt: "n - 2 ^ k < 2 ^ Suc MAX_ORDER" using 1(6) by (rule le_less_trans [rotated]) simp
      have un: "buddy_free_set s' \<union> {p + 2 ^ k..<p + 2 ^ k + (n - 2 ^ k)} = buddy_free_set s \<union> {p..<p + n}"
        using ivl_split [OF True, of p] by (simp add: s'(4) Un_assoc)
      have "page2idx p s AND 2 ^ k \<noteq> 0" using bit odd by simp
      from 1(1) [OF True k this s'(1,2,5) d lt s'(6)] show ?thesis
        using True k s'(1) bit odd un
        by (subst buddy_free_up.simps) (auto intro: same_map_trans [OF s'(3)])
    qed
  qed
qed

lemma buddy_free_down_spec:
  assumes "buddy_inv s" "region s z p n" "2 ^ k dvd p - bd_zones s z" "n < 2 ^ Suc k"
    and "n < 2 ^ Suc MAX_ORDER" "{p..<p + n} \<inter> buddy_free_set s = {}"
  shows "\<exists>s'. buddy_free_down k p n s = Some s' \<and> buddy_inv s' \<and> same_map s s' \<and>
    buddy_free_set s' = buddy_free_set s \<union> {p..<p + n}"
  using assms
proof (induction k p n s rule: buddy_free_down.induct)
  case (1 k p n s)
  consider "n = 0" | (small) "n \<noteq> 0" "n < 2 ^ k" | (take) "2 ^ k \<le> n" by linarith
  then show ?case
  proof cases
    case 1
    with \<open>buddy_inv s\<close> show ?thesis by (subst buddy_free_down.simps) simp
  next
    case small
    then obtain j where j: "k = Suc j" by (cases k) auto
    with 1(5) have "2 ^ (k - 1) dvd p - bd_zones s z" by (auto elim: dvd_mult_right)
    with 1(1) [OF small] 1(3,4,7,8) small j show ?thesis
      by (subst buddy_free_down.simps) simp
  next
    case take
    have "0 < n" using take by (rule less_le_trans [rotated]) simp
    then have n: "n \<noteq> 0" "\<not> n < 2 ^ k" using take by auto
    have k: "k \<le> MAX_ORDER"
    proof (rule ccontr)
      assume "\<not> k \<le> MAX_ORDER"
      then have "(2 :: nat) ^ Suc MAX_ORDER \<le> 2 ^ k" by (intro power_increasing) auto
      with take 1(7) show False by simp
    qed
    obtain s' where s': "buddy_free_pages_sub p k s = Some s'" "buddy_inv s'" "same_map s s'"
      "buddy_free_set s' = buddy_free_set s \<union> {p..<p + 2 ^ k}"
      "region s' z (p + 2 ^ k) (n - 2 ^ k)"
      "{p + 2 ^ k..<p + 2 ^ k + (n - 2 ^ k)} \<inter> buddy_free_set s' = {}"
      by (rule free_step [OF 1(3,4) take 1(5) k 1(8)])
    have d: "2 ^ k dvd p + 2 ^ k - bd_zones s' z"
      using 1(5) idx_add [OF 1(4)] s'(3) by (simp add: same_map_def)
    have lt: "n - 2 ^ k < 2 ^ Suc k" "n - 2 ^ k < 2 ^ Suc MAX_ORDER" using 1(6,7) by auto
    from 1(2) [OF n s'(1,2,5) d lt s'(6)] s'(4) ivl_split [OF take, of p] show ?thesis
      using n s'(1)
      by (subst buddy_free_down.simps) (auto simp: Un_assoc intro: same_map_trans [OF s'(3)])
  qed
qed

definition buddy_req :: "nat \<Rightarrow> bool" where
  "buddy_req n \<longleftrightarrow> 0 < n \<and> n \<le> 2 ^ MAX_ORDER"

definition buddy_usable :: "buddy \<Rightarrow> nat \<Rightarrow> nat \<Rightarrow> bool" where
  "buddy_usable s p n \<longleftrightarrow> region s (pg_zone (bd_pages s p)) p n"

lemma region_usable: "region s z p n \<Longrightarrow> 0 < n \<Longrightarrow> buddy_usable s p n"
  by (auto simp: buddy_usable_def region_def)

lemma buddy_free_pages_spec:
  assumes inv: "buddy_inv s" and reg: "region s z p n" and n: "0 < n" "n < 2 ^ Suc MAX_ORDER"
    and dis: "{p..<p + n} \<inter> buddy_free_set s = {}"
  shows "\<exists>s'. buddy_free_pages p n s = Some s' \<and> buddy_inv s' \<and> same_map s s' \<and>
    buddy_free_set s' = buddy_free_set s \<union> {p..<p + n}"
proof (cases "n = 1")
  case True
  then have "aligned s z p 0" using reg by (simp add: aligned_def)
  from buddy_free_sub_spec [OF inv _ this] dis True show ?thesis
    by (simp add: buddy_free_pages_def)
next
  case False
  from buddy_free_up_spec [OF inv reg _ n(2) dis, of 0] obtain k p' n' s1 where
    up: "buddy_free_up 0 p n s = Some (k, p', n', s1)" "buddy_inv s1" "same_map s s1"
      "region s1 z p' n'" "2 ^ k dvd p' - bd_zones s1 z" "n' < 2 ^ k" "n' < 2 ^ Suc MAX_ORDER"
      "{p'..<p' + n'} \<inter> buddy_free_set s1 = {}"
      "buddy_free_set s1 \<union> {p'..<p' + n'} = buddy_free_set s \<union> {p..<p + n}" by auto
  have "n' < 2 ^ Suc k" using up(6) by simp
  from buddy_free_down_spec [OF up(2,4,5) this up(7,8)] up(1,3,9) False n(1) show ?thesis
    by (auto simp: buddy_free_pages_def intro: same_map_trans)
qed

section \<open>Allocation\<close>

lemma get_order_from_spec:
  assumes "k \<le> j" "j \<le> MAX_ORDER" "n \<le> 2 ^ j"
  shows "\<exists>m. get_order_from n k = Some m \<and> m \<le> j \<and> n \<le> 2 ^ m \<and> (k < m \<longrightarrow> 2 ^ (m - 1) < n)"
  using assms
proof (induction n k rule: get_order_from.induct)
  case (1 n k)
  show ?case
  proof (cases "n \<le> 2 ^ k")
    case True
    with 1 show ?thesis by (subst get_order_from.simps) simp
  next
    case False
    with 1(2-4) have "k < j" by (metis le_neq_implies_less)
    with 1 False obtain m where
      "get_order_from n (k + 1) = Some m" "m \<le> j" "n \<le> 2 ^ m" "k + 1 < m \<longrightarrow> 2 ^ (m - 1) < n"
      by auto
    moreover have "m \<noteq> k" using False \<open>n \<le> 2 ^ m\<close> by auto
    moreover have "get_order_from n k = get_order_from n (k + 1)"
      using 1(2,3) False by (subst get_order_from.simps) simp
    moreover have "2 ^ (m - 1) < n" if "k < m"
      using that False \<open>k + 1 < m \<longrightarrow> 2 ^ (m - 1) < n\<close> by (cases "m = k + 1") auto
    ultimately show ?thesis by auto
  qed
qed

lemma get_order_spec:
  "buddy_req n \<Longrightarrow> \<exists>m. get_order n = Some m \<and> m \<le> MAX_ORDER \<and> n \<le> 2 ^ m \<and> (0 < m \<longrightarrow> 2 ^ (m - 1) < n)"
  using get_order_from_spec [of 0 MAX_ORDER n] by (simp add: get_order_def buddy_req_def)

lemma buddy_find_spec:
  "case buddy_find k s of
     None \<Rightarrow> \<forall>j. k \<le> j \<and> j \<le> MAX_ORDER \<longrightarrow> bd_list s j = []
   | Some c \<Rightarrow> k \<le> c \<and> c \<le> MAX_ORDER \<and> bd_list s c \<noteq> [] \<and> (\<forall>j. k \<le> j \<and> j < c \<longrightarrow> bd_list s j = [])"
proof (induction k s rule: buddy_find.induct)
  case (1 k s)
  show ?case
  proof (cases "k \<le> MAX_ORDER \<and> bd_list s k = []")
    case False
    then show ?thesis by (subst buddy_find.simps) auto
  next
    case True
    then have e: "buddy_find k s = buddy_find (k + 1) s" by (subst buddy_find.simps) simp
    have low: "bd_list s j = []" if "\<forall>j. k + 1 \<le> j \<and> P j \<longrightarrow> bd_list s j = []" "k \<le> j" "P j" for j P
      using that True by (cases "j = k") auto
    have IH: "case buddy_find (k + 1) s of
        None \<Rightarrow> \<forall>j. k + 1 \<le> j \<and> j \<le> MAX_ORDER \<longrightarrow> bd_list s j = []
      | Some c \<Rightarrow> k + 1 \<le> c \<and> c \<le> MAX_ORDER \<and> bd_list s c \<noteq> [] \<and>
          (\<forall>j. k + 1 \<le> j \<and> j < c \<longrightarrow> bd_list s j = [])"
      using 1(1) True by blast
    show ?thesis
    proof (cases "buddy_find (k + 1) s")
      case None
      with IH low [of "\<lambda>j. j \<le> MAX_ORDER"] show ?thesis unfolding e by simp
    next
      case (Some c)
      with IH low [of "\<lambda>j. j < c"] show ?thesis unfolding e by simp
    qed
  qed
qed

lemma halves_ivl: "a \<le> b \<Longrightarrow> {p + b..<p + b + b} \<union> {p + a..<p + b} = {p + a..<p + (b + b)}" for p :: nat
  by auto

lemma buddy_split_spec:
  assumes "buddy_inv s" "aligned s z p (k + j)" "k + j \<le> MAX_ORDER"
    and "{p..<p + 2 ^ (k + j)} \<inter> buddy_free_set s = {}"
  shows "buddy_inv (buddy_split k p j s) \<and> same_map s (buddy_split k p j s) \<and>
    buddy_free_set (buddy_split k p j s) = buddy_free_set s \<union> {p + 2 ^ k..<p + 2 ^ (k + j)}"
  using assms
proof (induction j arbitrary: s)
  case (Suc j)
  let ?c = "k + j" and ?b = "p + 2 ^ (k + j)"
  let ?s = "add_block ?b ?c s"
  have dvd: "2 ^ Suc ?c dvd p - bd_zones s z" and reg: "region s z p (2 ^ Suc ?c)"
    using Suc.prems(2) by (simp_all add: aligned_def)
  have half: "(2 :: nat) ^ Suc ?c = 2 ^ ?c + 2 ^ ?c" by simp
  have ab: "aligned s z ?b ?c" "aligned s z p ?c"
    using region_sub [OF reg, of ?b "2 ^ ?c"] region_sub [OF reg, of p "2 ^ ?c"] dvd idx_add [OF reg, of "2 ^ ?c"]
    by (auto simp: aligned_def half elim: dvd_mult_right intro!: dvd_add)
  have dis: "{?b..<?b + 2 ^ ?c} \<inter> buddy_free_set s = {}" "{p..<?b} \<inter> buddy_free_set s = {}"
    using Suc.prems(4) by (auto simp: disjoint_iff half)
  have c: "?c \<le> MAX_ORDER" using Suc.prems(3) by simp
  note a = add_block_inv [OF Suc.prems(1) c ab(1) dis(1)]
  have "{p..<p + 2 ^ ?c} \<inter> buddy_free_set ?s = {}"
    using dis(2) by (auto simp: a(2) disjoint_iff)
  with Suc.IH [OF a(1) _ c] ab(2) have "buddy_inv (buddy_split k p j ?s) \<and>
      same_map ?s (buddy_split k p j ?s) \<and>
      buddy_free_set (buddy_split k p j ?s) = buddy_free_set ?s \<union> {p + 2 ^ k..<p + 2 ^ ?c}"
    by (simp add: same_map_aligned [OF same_map_ops(1)])
  moreover have "{?b..<?b + 2 ^ ?c} \<union> {p + 2 ^ k..<?b} = {p + 2 ^ k..<p + 2 ^ (k + Suc j)}"
    using halves_ivl [of "2 ^ k" "2 ^ ?c" p] by (simp add: mult_2)
  ultimately show ?case
    using same_map_trans [OF same_map_ops(1) [of s ?b ?c]] by (simp add: a(2) Un_assoc)
qed simp

lemma add_block_upd: "q \<noteq> p \<Longrightarrow> bd_upd p f (add_block q k s) = add_block q k (bd_upd p f s)"
  by (simp add: add_block_def bd_upd_def Let_def fun_upd_twist)

lemma buddy_split_upd: "bd_upd p f (buddy_split k p j s) = buddy_split k p j (bd_upd p f s)"
  by (induction j arbitrary: s) (simp_all add: add_block_upd)

lemma block_prefix:
  fixes p a b :: nat
  assumes "a \<le> b"
  shows "{p..<p + a} \<subseteq> {p..<p + b}" "{p + a..<p + b} \<subseteq> {p..<p + b}"
    "{p..<p + b} - {p + a..<p + b} = {p..<p + a}" "{p..<p + a} \<inter> {p + a..<p + b} = {}"
  using assms by auto

lemma buddy_alloc_sub_spec:
  assumes inv: "buddy_inv s" and k: "k \<le> MAX_ORDER"
  shows "buddy_alloc_pages_sub k s = Some (None, s) \<and> (\<forall>j. k \<le> j \<and> j \<le> MAX_ORDER \<longrightarrow> bd_list s j = []) \<or>
    (\<exists>p s'. buddy_alloc_pages_sub k s = Some (Some p, s') \<and> buddy_inv s' \<and> same_map s s' \<and>
       aligned s (pg_zone (bd_pages s p)) p k \<and> {p..<p + 2 ^ k} \<subseteq> buddy_free_set s \<and>
       buddy_free_set s' = buddy_free_set s - {p..<p + 2 ^ k})"
proof (cases "buddy_find k s")
  case None
  with buddy_find_spec [of k s] k show ?thesis by (simp add: buddy_alloc_pages_sub_def)
next
  case (Some c)
  with buddy_find_spec [of k s] have c: "k \<le> c" "c \<le> MAX_ORDER" "bd_list s c \<noteq> []" by simp_all
  let ?p = "hd (bd_list s c)" and ?s = "del_block (hd (bd_list s c)) c s"
  let ?s' = "buddy_split k ?p (c - k) ?s"
  have "?p \<in> set (bd_list s c)" using c(3) by simp
  then have h: "?p \<in> heads s" "order_of s ?p = c" using buddy_inv_lists(2) [OF inv c(2)] by auto
  note d = del_block_inv [OF inv h]
  have al: "aligned s (pg_zone (bd_pages s ?p)) ?p c" using buddy_inv_heads(2) [OF inv h(1)] h(2) by simp
  have r: "buddy_alloc_pages_sub k s = Some (Some ?p, ?s')"
    using Some k by (simp add: buddy_alloc_pages_sub_def Let_def buddy_split_upd del_block_def)
  have dis: "{?p..<?p + 2 ^ (k + (c - k))} \<inter> buddy_free_set ?s = {}" using c(1) d(2) by auto
  have "aligned ?s (pg_zone (bd_pages s ?p)) ?p (k + (c - k))"
    using al c(1) by (simp add: same_map_aligned [OF same_map_ops(2)])
  from buddy_split_spec [OF d(1) this _ dis] c(1,2) have
    sp: "buddy_inv ?s'" "same_map ?s ?s'"
      "buddy_free_set ?s' = buddy_free_set ?s \<union> {?p + 2 ^ k..<?p + 2 ^ c}" by auto
  have pow: "(2 :: nat) ^ k \<le> 2 ^ c" using c(1) by simp
  have al': "aligned s (pg_zone (bd_pages s ?p)) ?p k"
    using al c(1) region_sub [of s _ ?p "2 ^ c" ?p "2 ^ k"] pow
    by (auto simp: aligned_def intro: power_le_dvd)
  note sub = block_prefix [OF pow, of ?p]
  have "buddy_free_set ?s' = buddy_free_set s - {?p..<?p + 2 ^ k}"
    using sp(3) d(2,3) sub by blast
  then show ?thesis
    using r sp al' same_map_trans [OF same_map_ops(2) sp(2)] d(3) sub(1) by blast
qed

lemma buddy_alloc_spec:
  assumes inv: "buddy_inv s" and n: "buddy_req n"
  shows "buddy_alloc_pages n s = Some (None, s) \<or>
    (\<exists>p s'. buddy_alloc_pages n s = Some (Some p, s') \<and> buddy_inv s' \<and> same_map s s' \<and>
       buddy_usable s p n \<and> {p..<p + n} \<subseteq> buddy_free_set s \<and>
       buddy_free_set s' = buddy_free_set s - {p..<p + n})"
proof -
  from get_order_spec [OF n] obtain k where k: "get_order n = Some k" "k \<le> MAX_ORDER" "n \<le> 2 ^ k"
    by blast
  have n0: "0 < n" using n by (simp add: buddy_req_def)
  from buddy_alloc_sub_spec [OF inv k(2)] consider
    (none) "buddy_alloc_pages_sub k s = Some (None, s)"
  | (some) p s1 where "buddy_alloc_pages_sub k s = Some (Some p, s1)" "buddy_inv s1" "same_map s s1"
      "aligned s (pg_zone (bd_pages s p)) p k" "{p..<p + 2 ^ k} \<subseteq> buddy_free_set s"
      "buddy_free_set s1 = buddy_free_set s - {p..<p + 2 ^ k}" by blast
  then show ?thesis
  proof cases
    case none
    then show ?thesis using k(1) n0 by (simp add: buddy_alloc_pages_def)
  next
    case (some p s1)
    let ?z = "pg_zone (bd_pages s p)"
    have reg: "region s ?z p (2 ^ k)" using some(4) by (simp add: aligned_def)
    have us: "buddy_usable s p n"
      using region_sub [OF reg, of p n] k(3) by (simp add: buddy_usable_def)
    have ivl: "{p..<p + n} \<subseteq> {p..<p + 2 ^ k}" using k(3) by auto
    show ?thesis
    proof (cases "n = 2 ^ k")
      case True
      have "buddy_alloc_pages n s = Some (Some p, s1)"
        using some(1) k(1) n0 True by (simp add: buddy_alloc_pages_def)
      then show ?thesis using some us True by blast
    next
      case False
      have "(2 :: nat) ^ k < 2 ^ Suc MAX_ORDER" using k(2) by (intro power_strict_increasing) auto
      with False k(3) have lt: "0 < 2 ^ k - n" "2 ^ k - n < 2 ^ Suc MAX_ORDER" by linarith+
      have tail: "region s1 ?z (p + n) (2 ^ k - n)"
        using region_tail [OF reg k(3)] by (simp add: same_map_region [OF some(3)])
      have e: "p + n + (2 ^ k - n) = p + 2 ^ k" using k(3) by simp
      have dis: "{p + n..<p + n + (2 ^ k - n)} \<inter> buddy_free_set s1 = {}"
        unfolding e some(6) by auto
      from buddy_free_pages_spec [OF some(2) tail lt dis] obtain s2 where
        s2: "buddy_free_pages (p + n) (2 ^ k - n) s1 = Some s2" "buddy_inv s2" "same_map s1 s2"
          "buddy_free_set s2 = buddy_free_set s1 \<union> {p + n..<p + 2 ^ k}" unfolding e by blast
      have "buddy_alloc_pages n s = Some (Some p, s2)"
        using some(1) k(1) n0 False s2(1) by (simp add: buddy_alloc_pages_def)
      moreover have "{p..<p + 2 ^ k} = {p..<p + n} \<union> {p + n..<p + 2 ^ k}"
        "{p..<p + n} \<inter> {p + n..<p + 2 ^ k} = {}" using k(3) by auto
      then have "buddy_free_set s2 = buddy_free_set s - {p..<p + n}"
        using s2(4) some(5,6) by blast
      ultimately show ?thesis
        using s2(2) same_map_trans [OF some(3) s2(3)] us ivl some(5) by blast
    qed
  qed
qed

lemma finite_heads: "buddy_inv s \<Longrightarrow> finite (heads s)"
proof -
  assume inv: "buddy_inv s"
  have "heads s \<subseteq> (\<Union>k\<le>MAX_ORDER. set (bd_list s k))"
    using buddy_inv_lists(2) [OF inv] buddy_inv_heads(1) [OF inv] by auto
  then show ?thesis by (rule finite_subset) simp
qed

text \<open>The counters add up to the number of free pages.\<close>

lemma buddy_nr_card: 
  assumes inv: "buddy_inv s"
  shows "buddy_nr_free_pages s = card (buddy_free_set s)"
proof -
  have "card (buddy_free_set s) = (\<Sum>q\<in>heads s. card {q..<q + 2 ^ order_of s q})"
    unfolding buddy_free_set_def
    using finite_heads [OF inv] buddy_inv_heads(3) [OF inv] by (intro card_UN_disjoint) auto
  also have "\<dots> = (\<Sum>q\<in>(\<Union>k\<in>{..MAX_ORDER}. set (bd_list s k)). 2 ^ order_of s q)"
  proof -
    have "heads s = (\<Union>k\<in>{..MAX_ORDER}. set (bd_list s k))"
      using buddy_inv_lists(2) [OF inv] buddy_inv_heads(1) [OF inv] by auto
    then show ?thesis by simp
  qed
  also have "\<dots> = (\<Sum>k\<le>MAX_ORDER. \<Sum>q\<in>set (bd_list s k). 2 ^ order_of s q)"
    using buddy_inv_lists(2) [OF inv] finite_heads [OF inv] by (intro sum.UNION_disjoint) auto
  also have "\<dots> = (\<Sum>k\<le>MAX_ORDER. bd_nr s k * 2 ^ k)"
  proof (rule sum.cong [OF refl])
    fix k assume "k \<in> {..MAX_ORDER}"
    then have k: "k \<le> MAX_ORDER" by simp
    have "(\<Sum>q\<in>set (bd_list s k). 2 ^ order_of s q) = (\<Sum>q\<in>set (bd_list s k). (2 :: nat) ^ k)"
      using buddy_inv_lists(2) [OF inv k] by (intro sum.cong) auto
    then show "(\<Sum>q\<in>set (bd_list s k). 2 ^ order_of s q) = bd_nr s k * 2 ^ k"
      using buddy_inv_lists(1,3) [OF inv k] by (simp add: distinct_card)
  qed
  finally show ?thesis by (simp add: buddy_nr_free_pages_def)
qed

lemma same_map_usable: "same_map s s' \<Longrightarrow> buddy_usable s' p n = buddy_usable s p n"
  by (simp add: buddy_usable_def same_map_region) (simp add: same_map_def)

interpretation bd: pmm_manager buddy_inv buddy_free_set buddy_nr_free_pages buddy_usable buddy_req
  buddy_alloc_pages buddy_free_pages
proof
  fix s s' :: buddy and n p q k :: nat and r :: "nat option"
  assume inv: "buddy_inv s"
  show "finite (buddy_free_set s)" using finite_heads [OF inv] by (simp add: buddy_free_set_def)
  show "buddy_nr_free_pages s = card (buddy_free_set s)" by (rule buddy_nr_card [OF inv])
  assume n: "buddy_req n"
  note a = buddy_alloc_spec [OF inv n]
  show "\<exists>r s'. buddy_alloc_pages n s = Some (r, s')" using a by blast
  show "s' = s" if "buddy_alloc_pages n s = Some (None, s')" using a that by auto
  show "buddy_inv s'" if "buddy_alloc_pages n s = Some (Some p, s')" using a that by auto
  show "{p..<p + n} \<subseteq> buddy_free_set s \<and> buddy_free_set s' = buddy_free_set s - {p..<p + n} \<and>
      buddy_usable s' p n" if "buddy_alloc_pages n s = Some (Some p, s')"
    using a that by (auto simp: same_map_usable)
  show "buddy_usable s' q k" if "buddy_alloc_pages n s = Some (r, s')" "buddy_usable s q k"
    using a that by (auto simp: same_map_usable)
  assume us: "buddy_usable s p n" and dis: "{p..<p + n} \<inter> buddy_free_set s = {}"
  have "0 < n" "n < 2 ^ Suc MAX_ORDER" using n by (auto simp: buddy_req_def MAX_ORDER_def)
  from buddy_free_pages_spec [OF inv us [unfolded buddy_usable_def] this dis]
  show "\<exists>s'. buddy_free_pages p n s = Some s' \<and> buddy_inv s' \<and>
      buddy_free_set s' = buddy_free_set s \<union> {p..<p + n} \<and>
      (\<forall>q k. buddy_usable s q k \<longrightarrow> buddy_usable s' q k)"
    by (auto simp: same_map_usable)
qed

section \<open>Initialisation\<close>

lemma buddy_carve_spec:
  assumes "buddy_inv s" "region s z p n" "2 ^ k dvd p - bd_zones s z" "k \<le> MAX_ORDER"
    and "{p..<p + n} \<inter> buddy_free_set s = {}"
  shows "buddy_inv (buddy_carve k n p s) \<and> same_map s (buddy_carve k n p s) \<and>
    buddy_free_set (buddy_carve k n p s) = buddy_free_set s \<union> {p..<p + n}"
  using assms
proof (induction k n p s rule: buddy_carve.induct)
  case (1 k n p s)
  consider "n = 0" | (take) "n \<noteq> 0" "2 ^ k \<le> n" | (small) "n \<noteq> 0" "\<not> 2 ^ k \<le> n" by blast
  then show ?case
  proof cases
    case 1
    with \<open>buddy_inv s\<close> show ?thesis by (subst (1 2 3) buddy_carve.simps) simp
  next
    case take
    let ?s = "add_block p k s"
    have al: "aligned s z p k" by (rule aligned_sub [OF 1(4) take(2) 1(5)])
    have "{p..<p + 2 ^ k} \<inter> buddy_free_set s = {}"
      using 1(7) block_prefix(1) [OF take(2), of p] by blast
    note a = add_block_inv [OF 1(3,6) al this]
    have reg: "region ?s z (p + 2 ^ k) (n - 2 ^ k)"
      using region_tail [OF 1(4) take(2)] by (simp add: same_map_region [OF same_map_ops(1)])
    have d: "2 ^ k dvd p + 2 ^ k - bd_zones ?s z" using 1(5) idx_add [OF 1(4)] by simp
    have dis: "{p + 2 ^ k..<p + 2 ^ k + (n - 2 ^ k)} \<inter> buddy_free_set ?s = {}"
      using 1(7) take(2) by (auto simp: a(2) disjoint_iff)
    have c: "buddy_carve k n p s = buddy_carve k (n - 2 ^ k) (p + 2 ^ k) ?s"
      using take by (subst buddy_carve.simps) simp
    from 1(1) [OF take a(1) reg d 1(6) dis] show ?thesis
      unfolding c using ivl_split [OF take(2), of p] same_map_trans [OF same_map_ops(1) [of s p k]]
      by (simp add: a(2) Un_assoc)
  next
    case small
    then obtain j where j: "k = Suc j" by (cases k) auto
    with 1(5) have d: "2 ^ (k - 1) dvd p - bd_zones s z" by (auto elim: dvd_mult_right)
    have c: "buddy_carve k n p s = buddy_carve (k - 1) n p s"
      using small by (subst buddy_carve.simps) simp
    from 1(2) [OF small 1(3,4) d _ 1(7)] 1(6) show ?thesis unfolding c by simp
  qed
qed

lemma buddy_init_loop_spec:
  assumes "\<forall>q. p \<le> q \<and> q < p + k \<longrightarrow> PageReserved (bd_pages s q)"
  shows "\<exists>pgs. buddy_init_loop k p s = Some (s\<lparr>bd_pages := pgs\<rparr>) \<and>
    (\<forall>q. if p \<le> q \<and> q < p + k then pg_flags (pgs q) = 0 \<and> pg_zone (pgs q) = bd_zone_num s
         else pgs q = bd_pages s q)"
  using assms
proof (induction k arbitrary: p s)
  case 0
  show ?case by (intro exI [of _ "bd_pages s"]) auto
next
  case (Suc k)
  let ?s1 = "bd_upd p (\<lambda>pg. set_page_ref 0 (pg\<lparr>pg_flags := 0, pg_property := 0, pg_zone := bd_zone_num s\<rparr>)) s"
  have "\<forall>q. p + 1 \<le> q \<and> q < p + 1 + k \<longrightarrow> PageReserved (bd_pages ?s1 q)"
    using Suc.prems by simp
  from Suc.IH [OF this] obtain pgs where
    pgs: "buddy_init_loop k (p + 1) ?s1 = Some (?s1\<lparr>bd_pages := pgs\<rparr>)"
      "\<And>q. if p + 1 \<le> q \<and> q < p + 1 + k then pg_flags (pgs q) = 0 \<and> pg_zone (pgs q) = bd_zone_num s
         else pgs q = bd_pages ?s1 q" by auto
  have "?s1\<lparr>bd_pages := pgs\<rparr> = s\<lparr>bd_pages := pgs\<rparr>" by (simp add: bd_upd_def)
  moreover have "if p \<le> q \<and> q < p + Suc k then pg_flags (pgs q) = 0 \<and> pg_zone (pgs q) = bd_zone_num s
      else pgs q = bd_pages s q" for q
    using pgs(2) [of q] by (cases "q = p") (auto split: if_splits)
  ultimately show ?case using pgs(1) Suc.prems by (intro exI [of _ pgs] conjI allI) simp_all
qed

lemma buddy_init_memmap_spec:
  assumes inv: "buddy_inv s" and n: "0 < n" "bd_zone_num s < MAX_ZONE_NUM" "base + n \<le> bd_npage s"
    and res: "\<forall>q. base \<le> q \<and> q < base + n \<longrightarrow> PageReserved (bd_pages s q)"
  shows "\<exists>s'. buddy_init_memmap base n s = Some s' \<and> buddy_inv s' \<and>
    buddy_free_set s' = buddy_free_set s \<union> {base..<base + n}"
proof -
  let ?z = "bd_zone_num s"
  from buddy_init_loop_spec [OF res] obtain pgs where
    pgs: "buddy_init_loop n base s = Some (s\<lparr>bd_pages := pgs\<rparr>)"
      "\<And>q. if base \<le> q \<and> q < base + n then pg_flags (pgs q) = 0 \<and> pg_zone (pgs q) = ?z
         else pgs q = bd_pages s q" by blast
  let ?s = "s\<lparr>bd_pages := pgs, bd_zones := (bd_zones s)(?z := base), bd_zone_num := Suc ?z\<rparr>"
  have new: "\<not> PageReserved (pgs q) \<and> \<not> PageProperty (pgs q) \<and> pg_zone (pgs q) = ?z"
    if "base \<le> q \<and> q < base + n" for q using pgs(2) [of q] that by simp
  have old: "pgs q = bd_pages s q" if "\<not> (base \<le> q \<and> q < base + n)" for q
    using pgs(2) [of q] that by simp
  have unres: "pgs q = bd_pages s q" if "\<not> PageReserved (bd_pages s q)" for q
    using old res that by blast
  have h: "heads ?s = heads s"
  proof (rule set_eqI)
    fix q
    show "q \<in> heads ?s \<longleftrightarrow> q \<in> heads s"
      using new [of q] old [of q] res by (cases "base \<le> q \<and> q < base + n") (simp_all add: heads_def)
  qed
  have o: "order_of ?s q = order_of s q" "bd_pages ?s q = bd_pages s q" if "q \<in> heads s" for q
    using unres [of q] that by (simp_all add: heads_def order_of_def)
  have fs: "buddy_free_set ?s = buddy_free_set s" using o by (simp add: buddy_free_set_def h)
  have al: "aligned ?s z q k" if a: "aligned s z q k" and z: "z \<noteq> ?z" for z q k
  proof -
    have "pgs r = bd_pages s r" if "q \<le> r" "r < q + 2 ^ k" for r
      using a that unres by (simp add: aligned_def region_def)
    with a z show ?thesis by (simp add: aligned_def region_def)
  qed
  have zone: "pg_zone (bd_pages s q) \<noteq> ?z" if "q \<in> heads s" for q
    using buddy_inv_heads(4) [OF inv, of q] that by (auto simp: heads_def)
  have inv': "buddy_inv ?s"
  proof (rule buddy_invI)
    fix q assume "q \<in> heads ?s"
    then have q: "q \<in> heads s" by (simp only: h)
    show "aligned ?s (pg_zone (bd_pages ?s q)) q (order_of ?s q)"
      using al [OF buddy_inv_heads(2) [OF inv q] zone [OF q]] o [OF q] by simp
    show "order_of ?s q \<le> MAX_ORDER" using buddy_inv_heads(1) [OF inv q] o [OF q] by simp
  next
    fix a b assume ab: "a \<in> heads ?s" "b \<in> heads ?s" "a \<noteq> b"
    then have "a \<in> heads s" "b \<in> heads s" by (simp_all only: h)
    then show "{a..<a + 2 ^ order_of ?s a} \<inter> {b..<b + 2 ^ order_of ?s b} = {}"
      using buddy_inv_heads(3) [OF inv, of a b] ab(3) o by simp
  next
    fix q assume q: "\<not> PageReserved (bd_pages ?s q)"
    show "pg_zone (bd_pages ?s q) < bd_zone_num ?s"
    proof (cases "base \<le> q \<and> q < base + n")
      case False
      with q old [OF False] buddy_inv_heads(4) [OF inv, of q] show ?thesis by simp
    qed (use new in simp)
  next
    fix j assume j: "j \<le> MAX_ORDER"
    show "set (bd_list ?s j) = {q \<in> heads ?s. order_of ?s q = j}"
      using buddy_inv_lists(2) [OF inv j] o unfolding h by auto
  qed (use buddy_inv_lists [OF inv] in simp_all)
  have reg: "region ?s ?z base n" using new n(3) by (simp add: region_def)
  have "{base..<base + n} \<inter> buddy_free_set ?s = {}"
  proof -
    have "\<not> PageReserved (bd_pages s r)" if "r \<in> buddy_free_set s" for r
    proof -
      from that obtain q where q: "q \<in> heads s" "q \<le> r" "r < q + 2 ^ order_of s q"
        by (auto simp: buddy_free_set_def)
      from buddy_inv_heads(2) [OF inv q(1)] q(2,3) show ?thesis unfolding aligned_def region_def by blast
    qed
    then show ?thesis using res by (auto simp: fs)
  qed
  from buddy_carve_spec [OF inv' reg _ order_refl this] fs have
    "buddy_inv (buddy_carve MAX_ORDER n base ?s) \<and>
     buddy_free_set (buddy_carve MAX_ORDER n base ?s) = buddy_free_set s \<union> {base..<base + n}" by simp
  then show ?thesis using n(1,2) pgs(1) by (simp add: buddy_init_memmap_def)
qed

lemma buddy_init_inv:
  "(\<And>q. PageReserved (bd_pages s q)) \<Longrightarrow> buddy_inv (buddy_init s) \<and> buddy_free_set (buddy_init s) = {}"
  by (simp add: buddy_inv_def buddy_init_def heads_def buddy_free_set_def)

section \<open>Properties\<close>

text \<open>C3: The buddy manager, given one region of a wholly reserved page array, serves every sequence
  of block requests of 1 to 1024 pages (any size, not only powers of two) and releases without
  stopping: the alignment and flag assertions hold at every step, held blocks are disjoint from each
  other and from the free pages, no page is lost and the sum of the order counters is exact.\<close>

theorem buddy_pmm_safe:
  assumes "\<forall>q. PageReserved (bd_pages s q)" "bd_zone_num s = 0" "0 < n" "base + n \<le> bd_npage s"
    and "\<forall>k. MAlloc k \<in> set rs \<longrightarrow> 0 < k \<and> k \<le> 1024"
  shows "\<exists>s0 s' held. buddy_init_memmap base n (buddy_init s) = Some s0 \<and>
    run_reqs buddy_alloc_pages buddy_free_pages rs s0 [] = Some (s', held) \<and>
    blocks_disjoint held \<and> held_pages held \<inter> buddy_free_set s' = {} \<and>
    buddy_free_set s' \<union> held_pages held = {base..<base + n} \<and>
    buddy_nr_free_pages s' + sum_list (map snd held) = n"
proof -
  have i: "buddy_inv (buddy_init s)" "buddy_free_set (buddy_init s) = {}"
    using buddy_init_inv [of s] assms(1) by auto
  have "bd_zone_num (buddy_init s) < MAX_ZONE_NUM" "base + n \<le> bd_npage (buddy_init s)"
    "\<forall>q. base \<le> q \<and> q < base + n \<longrightarrow> PageReserved (bd_pages (buddy_init s) q)"
    using assms(1,2,4) by (simp_all add: buddy_init_def MAX_ZONE_NUM_def)
  from buddy_init_memmap_spec [OF i(1) assms(3) this] i(2) obtain s0 where
    s0: "buddy_init_memmap base n (buddy_init s) = Some s0" "buddy_inv s0"
      "buddy_free_set s0 = {base..<base + n}" by auto
  have "buddy_req k" if "MAlloc k \<in> set rs" for k
    using assms(5) that by (simp add: buddy_req_def MAX_ORDER_def)
  with bd.run_safe [OF s0(2), of rs] s0 bd.nr_free [OF s0(2)] show ?thesis by auto
qed

definition reserved_buddy :: buddy where
  "reserved_buddy = \<lparr>bd_pages = \<lambda>_. \<lparr>pg_ref = 0, pg_flags = 1, pg_property = 0, pg_zone = 0, pg_index = 0\<rparr>,
     bd_list = \<lambda>_. [], bd_nr = \<lambda>_. 0, bd_zones = \<lambda>_. 0, bd_zone_num = 0, bd_npage = 4096\<rparr>"

theorem buddy_pmm_safe_witness:
  "\<exists>s0 s' held. buddy_init_memmap 100 1500 (buddy_init reserved_buddy) = Some s0 \<and>
    run_reqs buddy_alloc_pages buddy_free_pages [MAlloc 5, MAlloc 700, MFree 1, MAlloc 1] s0 [] =
      Some (s', held) \<and> buddy_nr_free_pages s' + sum_list (map snd held) = 1500"
proof -
  have "\<forall>q. PageReserved (bd_pages reserved_buddy q)" "bd_zone_num reserved_buddy = 0"
    "0 < (1500 :: nat)" "100 + 1500 \<le> bd_npage reserved_buddy"
    "\<forall>k. MAlloc k \<in> set [MAlloc 5, MAlloc 700, MFree 1, MAlloc 1] \<longrightarrow> 0 < k \<and> k \<le> 1024"
    by (auto simp: reserved_buddy_def PageReserved_def PG_defs test_bit_w_def)
  from buddy_pmm_safe [OF this] show ?thesis by blast
qed

text \<open>C27: The buddy manager rounds a request up to the least sufficient power of two: for 1 to 1024
  pages \<open>get_order\<close> returns the order \<open>m\<close> with \<open>2 ^ (m - 1) < n \<le> 2 ^ m\<close>, and for more it stops.\<close>

theorem get_order_exact:
  "get_order n =
     (if n \<le> 1024 then Some (LEAST m. n \<le> 2 ^ m) else None)"
proof (cases "n \<le> 1024")
  case True
  from get_order_from_spec [of 0 MAX_ORDER n] True obtain m where
    m: "get_order n = Some m" "n \<le> 2 ^ m" "0 < m \<longrightarrow> 2 ^ (m - 1) < n"
    by (auto simp: get_order_def MAX_ORDER_def)
  have "(LEAST m. n \<le> 2 ^ m) = m"
  proof (rule Least_equality)
    show "n \<le> 2 ^ m" by (rule m(2))
    fix y assume y: "n \<le> 2 ^ y"
    show "m \<le> y"
    proof (rule ccontr)
      assume "\<not> m \<le> y"
      then have "(2 :: nat) ^ y \<le> 2 ^ (m - 1)" "0 < m" by (auto intro: power_increasing)
      with m(3) y show False by linarith
    qed
  qed
  with True m(1) show ?thesis by simp
next
  case False
  have "get_order_from n k = None" for k
    using False
  proof (induction n k rule: get_order_from.induct)
    case (1 n k)
    have "2 ^ k \<le> (1024 :: nat)" if "k \<le> MAX_ORDER"
      using power_increasing [of k 10 "2 :: nat"] that by (simp add: MAX_ORDER_def)
    then show ?case using 1 by (subst get_order_from.simps) auto
  qed
  with False show ?thesis by (simp add: get_order_def)
qed

end
