(* ===== verification/Sched.thy ===== *)
theory Sched
  imports Prelude
begin

text \<open>
  Process control blocks (\<^verbatim>\<open>src/kernel/process/process.h\<close>), the scheduler core with its timer list
  (\<^verbatim>\<open>src/kernel/schedule/schedule.c\<close>) and the three scheduling classes (first come first served,
  round robin, multi-level feedback queue).  A pointer to a process, run queue or timer is a
  natural number.  The record \<open>kst\<close> is extended by the theories of the components that own
  more state, so every operation here works on any extension.  The struct of function pointers
  \<^verbatim>\<open>ScheduleClass\<close> is the record \<open>sched_class\<close>, its contract the locale \<open>scheduler\<close>.
\<close>

section \<open>State\<close>

datatype pstate = STATE_UNINIT | STATE_SLEEPING | STATE_RUNNABLE | STATE_ZOMBIE

record proc =
  p_state :: pstate
  p_pid :: int
  p_runs :: int
  p_need_resched :: bool
  p_parent :: "nat option"
  p_mm :: "nat option"
  p_flags :: u32
  p_exit_code :: int
  p_wait_state :: u32
  p_child :: "nat option"
  p_left :: "nat option"
  p_right :: "nat option"
  p_rq :: "nat option"
  p_time_slice :: int

record runq =
  rq_list :: "nat list"
  rq_count :: nat
  rq_max :: int

record timer =
  tm_expires :: nat
  tm_process :: "nat option"

record kst =
  k_procs :: "nat \<Rightarrow> proc"
  k_rqs :: "runq list"
  k_timer :: "nat \<Rightarrow> timer"
  k_timers :: "nat list"
  k_current :: nat
  k_idle :: nat

definition WT_INTERRUPTED :: u32 where "WT_INTERRUPTED = 0x80000000"
definition WT_CHILD :: u32 where "WT_CHILD = 0x00000001 OR WT_INTERRUPTED"
definition WT_TIMER :: u32 where "WT_TIMER = 0x00000002 OR WT_INTERRUPTED"
definition WT_KSWAPD :: u32 where "WT_KSWAPD = 0x00000003"
definition WT_KBD :: u32 where "WT_KBD = 0x00000004 OR WT_INTERRUPTED"
definition WT_KSEM :: u32 where "WT_KSEM = 0x00000100"
definition WT_USEM :: u32 where "WT_USEM = 0x00000101 OR WT_INTERRUPTED"

definition upd_proc :: "nat \<Rightarrow> (proc \<Rightarrow> proc) \<Rightarrow> 'a kst_scheme \<Rightarrow> 'a kst_scheme" where
  "upd_proc p f s = s\<lparr>k_procs := (k_procs s)(p := f (k_procs s p))\<rparr>"

definition upd_rq :: "nat \<Rightarrow> (runq \<Rightarrow> runq) \<Rightarrow> 'a kst_scheme \<Rightarrow> 'a kst_scheme" where
  "upd_rq i f s = s\<lparr>k_rqs := (k_rqs s)[i := f (k_rqs s ! i)]\<rparr>"

definition upd_timer :: "nat \<Rightarrow> (timer \<Rightarrow> timer) \<Rightarrow> 'a kst_scheme \<Rightarrow> 'a kst_scheme" where
  "upd_timer t f s = s\<lparr>k_timer := (k_timer s)(t := f (k_timer s t))\<rparr>"

text \<open>The link \<^verbatim>\<open>run_link\<close> of a process is empty exactly when the process is on no run list.\<close>

definition run_linked :: "nat \<Rightarrow> 'a kst_scheme \<Rightarrow> bool" where
  "run_linked p s = list_ex (\<lambda>rq. p \<in> set (rq_list rq)) (k_rqs s)"

section \<open>Scheduling classes\<close>

record 'k sched_class =
  cls_init :: "nat \<Rightarrow> 'k \<Rightarrow> 'k"
  cls_enqueue :: "nat \<Rightarrow> nat \<Rightarrow> 'k \<Rightarrow> 'k option"
  cls_dequeue :: "nat \<Rightarrow> nat \<Rightarrow> 'k \<Rightarrow> 'k option"
  cls_pick_next :: "nat \<Rightarrow> 'k \<Rightarrow> nat option"
  cls_process_tick :: "nat \<Rightarrow> nat \<Rightarrow> 'k \<Rightarrow> 'k"

subsection \<open>First come, first served\<close>

definition FCFS_init :: "nat \<Rightarrow> 'a kst_scheme \<Rightarrow> 'a kst_scheme" where
  "FCFS_init i s = upd_rq i (\<lambda>rq. rq\<lparr>rq_list := [], rq_count := 0\<rparr>) s"

definition FCFS_enqueue :: "nat \<Rightarrow> nat \<Rightarrow> 'a kst_scheme \<Rightarrow> 'a kst_scheme option" where
  "FCFS_enqueue i p s = do {
     kassert (\<not> run_linked p s);
     let s1 = upd_rq i (\<lambda>rq. rq\<lparr>rq_list := rq_list rq @ [p]\<rparr>) s;
     let s2 = upd_proc p (\<lambda>pr. pr\<lparr>p_rq := Some i\<rparr>) s1;
     Some (upd_rq i (\<lambda>rq. rq\<lparr>rq_count := rq_count rq + 1\<rparr>) s2)
   }"

definition FCFS_dequeue :: "nat \<Rightarrow> nat \<Rightarrow> 'a kst_scheme \<Rightarrow> 'a kst_scheme option" where
  "FCFS_dequeue i p s = do {
     kassert (run_linked p s \<and> p_rq (k_procs s p) = Some i);
     Some (upd_rq i (\<lambda>rq. rq\<lparr>rq_list := remove1 p (rq_list rq), rq_count := rq_count rq - 1\<rparr>) s)
   }"

definition FCFS_pick_next :: "nat \<Rightarrow> 'a kst_scheme \<Rightarrow> nat option" where
  "FCFS_pick_next i s = (case rq_list (k_rqs s ! i) of [] \<Rightarrow> None | p # _ \<Rightarrow> Some p)"

definition FCFS_process_tick :: "nat \<Rightarrow> nat \<Rightarrow> 'a kst_scheme \<Rightarrow> 'a kst_scheme" where
  "FCFS_process_tick i p s = s"

definition FCFS_schedule_class :: "'a kst_scheme sched_class" where
  "FCFS_schedule_class = \<lparr>cls_init = FCFS_init, cls_enqueue = FCFS_enqueue,
     cls_dequeue = FCFS_dequeue, cls_pick_next = FCFS_pick_next,
     cls_process_tick = FCFS_process_tick\<rparr>"

subsection \<open>Round robin\<close>

definition RR_init :: "nat \<Rightarrow> 'a kst_scheme \<Rightarrow> 'a kst_scheme" where
  "RR_init i s = upd_rq i (\<lambda>rq. rq\<lparr>rq_list := [], rq_count := 0\<rparr>) s"

definition RR_enqueue :: "nat \<Rightarrow> nat \<Rightarrow> 'a kst_scheme \<Rightarrow> 'a kst_scheme option" where
  "RR_enqueue i p s = do {
     kassert (\<not> run_linked p s);
     let s1 = upd_rq i (\<lambda>rq. rq\<lparr>rq_list := rq_list rq @ [p]\<rparr>) s;
     let ts = p_time_slice (k_procs s1 p);
     let mx = rq_max (k_rqs s1 ! i);
     let s2 = (if ts = 0 \<or> ts > mx then upd_proc p (\<lambda>pr. pr\<lparr>p_time_slice := mx\<rparr>) s1 else s1);
     let s3 = upd_proc p (\<lambda>pr. pr\<lparr>p_rq := Some i\<rparr>) s2;
     Some (upd_rq i (\<lambda>rq. rq\<lparr>rq_count := rq_count rq + 1\<rparr>) s3)
   }"

definition RR_dequeue :: "nat \<Rightarrow> nat \<Rightarrow> 'a kst_scheme \<Rightarrow> 'a kst_scheme option" where
  "RR_dequeue i p s = do {
     kassert (run_linked p s \<and> p_rq (k_procs s p) = Some i);
     Some (upd_rq i (\<lambda>rq. rq\<lparr>rq_list := remove1 p (rq_list rq), rq_count := rq_count rq - 1\<rparr>) s)
   }"

definition RR_pick_next :: "nat \<Rightarrow> 'a kst_scheme \<Rightarrow> nat option" where
  "RR_pick_next i s = (case rq_list (k_rqs s ! i) of [] \<Rightarrow> None | p # _ \<Rightarrow> Some p)"

definition RR_process_tick :: "nat \<Rightarrow> nat \<Rightarrow> 'a kst_scheme \<Rightarrow> 'a kst_scheme" where
  "RR_process_tick i p s =
     (let s1 = (if p_time_slice (k_procs s p) > 0
                then upd_proc p (\<lambda>pr. pr\<lparr>p_time_slice := p_time_slice pr - 1\<rparr>) s else s)
      in if p_time_slice (k_procs s1 p) = 0
         then upd_proc p (\<lambda>pr. pr\<lparr>p_need_resched := True\<rparr>) s1 else s1)"

definition RR_schedule_class :: "'a kst_scheme sched_class" where
  "RR_schedule_class = \<lparr>cls_init = RR_init, cls_enqueue = RR_enqueue,
     cls_dequeue = RR_dequeue, cls_pick_next = RR_pick_next,
     cls_process_tick = RR_process_tick\<rparr>"

subsection \<open>Multi-level feedback queue\<close>

text \<open>The run queues form a ring in index order; the successor of the last one is the first.\<close>

definition next_rq :: "nat \<Rightarrow> 'a kst_scheme \<Rightarrow> nat" where
  "next_rq i s = (if Suc i < length (k_rqs s) then Suc i else 0)"

definition MLFQ_init :: "nat \<Rightarrow> 'a kst_scheme \<Rightarrow> 'a kst_scheme" where
  "MLFQ_init i s = fold RR_init (rotate i [0..<length (k_rqs s)]) s"

definition MLFQ_enqueue :: "nat \<Rightarrow> nat \<Rightarrow> 'a kst_scheme \<Rightarrow> 'a kst_scheme option" where
  "MLFQ_enqueue i p s = do {
     kassert (\<not> run_linked p s);
     let tgt = (case p_rq (k_procs s p) of
                  None \<Rightarrow> i
                | Some j \<Rightarrow> if p_time_slice (k_procs s p) = 0
                            then (if next_rq j s = i then j else next_rq j s)
                            else i);
     RR_enqueue tgt p s
   }"

definition MLFQ_dequeue :: "nat \<Rightarrow> nat \<Rightarrow> 'a kst_scheme \<Rightarrow> 'a kst_scheme option" where
  "MLFQ_dequeue i p s = do {
     kassert (run_linked p s);
     j \<leftarrow> p_rq (k_procs s p);
     RR_dequeue j p s
   }"

fun MLFQ_pick_loop :: "nat list \<Rightarrow> 'a kst_scheme \<Rightarrow> nat option" where
  "MLFQ_pick_loop [] s = None"
| "MLFQ_pick_loop (j # js) s =
     (case RR_pick_next j s of Some p \<Rightarrow> Some p | None \<Rightarrow> MLFQ_pick_loop js s)"

definition MLFQ_pick_next :: "nat \<Rightarrow> 'a kst_scheme \<Rightarrow> nat option" where
  "MLFQ_pick_next i s = MLFQ_pick_loop (rotate i [0..<length (k_rqs s)]) s"

definition MLFQ_process_tick :: "nat \<Rightarrow> nat \<Rightarrow> 'a kst_scheme \<Rightarrow> 'a kst_scheme" where
  "MLFQ_process_tick i p s =
     RR_process_tick (case p_rq (k_procs s p) of Some j \<Rightarrow> j | None \<Rightarrow> i) p s"

definition MLFQ_schedule_class :: "'a kst_scheme sched_class" where
  "MLFQ_schedule_class = \<lparr>cls_init = MLFQ_init, cls_enqueue = MLFQ_enqueue,
     cls_dequeue = MLFQ_dequeue, cls_pick_next = MLFQ_pick_next,
     cls_process_tick = MLFQ_process_tick\<rparr>"

section \<open>The scheduler core\<close>

text \<open>The scheduler passes its first run queue, index 0, to the class.\<close>

definition schedule_class_enqueue ::
    "'a kst_scheme sched_class \<Rightarrow> nat \<Rightarrow> 'a kst_scheme \<Rightarrow> 'a kst_scheme option" where
  "schedule_class_enqueue c p s = (if p \<noteq> k_idle s then cls_enqueue c 0 p s else Some s)"

definition schedule_class_dequeue ::
    "'a kst_scheme sched_class \<Rightarrow> nat \<Rightarrow> 'a kst_scheme \<Rightarrow> 'a kst_scheme option" where
  "schedule_class_dequeue c p s = cls_dequeue c 0 p s"

definition schedule_class_pick_next :: "'a kst_scheme sched_class \<Rightarrow> 'a kst_scheme \<Rightarrow> nat option" where
  "schedule_class_pick_next c s = cls_pick_next c 0 s"

definition schedule_class_process_tick ::
    "'a kst_scheme sched_class \<Rightarrow> nat \<Rightarrow> 'a kst_scheme \<Rightarrow> 'a kst_scheme" where
  "schedule_class_process_tick c p s =
     (if p \<noteq> k_idle s then cls_process_tick c 0 p s
      else upd_proc p (\<lambda>pr. pr\<lparr>p_need_resched := True\<rparr>) s)"

definition schedule_init :: "'a kst_scheme \<Rightarrow> 'a kst_scheme" where
  "schedule_init s =
     (let s1 = s\<lparr>k_timers := []\<rparr>;
          s2 = s1\<lparr>k_rqs := map (\<lambda>i. (k_rqs s1 ! i)\<lparr>rq_max := 8 * 2 ^ i\<rparr>) [0..<length (k_rqs s1)]\<rparr>
      in cls_init MLFQ_schedule_class 0 s2)"

definition wakeup_process ::
    "'a kst_scheme sched_class \<Rightarrow> nat \<Rightarrow> 'a kst_scheme \<Rightarrow> 'a kst_scheme option" where
  "wakeup_process c p s = do {
     kassert (p_state (k_procs s p) \<noteq> STATE_ZOMBIE);
     if p_state (k_procs s p) \<noteq> STATE_RUNNABLE then
       let s1 = upd_proc p (\<lambda>pr. pr\<lparr>p_state := STATE_RUNNABLE, p_wait_state := 0\<rparr>) s
       in if p \<noteq> k_current s1 then schedule_class_enqueue c p s1 else Some s1
     else Some s
   }"

text \<open>Switching to a process: of \<^verbatim>\<open>process_run\<close> the assignment of \<^verbatim>\<open>current\<close> is the part visible to
  the kernel data; the stack, page directory and register switch is the hardware's.\<close>

definition process_run :: "nat \<Rightarrow> 'a kst_scheme \<Rightarrow> 'a kst_scheme" where
  "process_run p s = s\<lparr>k_current := p\<rparr>"

definition schedule :: "'a kst_scheme sched_class \<Rightarrow> 'a kst_scheme \<Rightarrow> 'a kst_scheme option" where
  "schedule c s = do {
     let s1 = upd_proc (k_current s) (\<lambda>pr. pr\<lparr>p_need_resched := False\<rparr>) s;
     s2 \<leftarrow> (if p_state (k_procs s1 (k_current s1)) = STATE_RUNNABLE \<and> k_current s1 \<noteq> k_idle s1
            then schedule_class_enqueue c (k_current s1) s1 else Some s1);
     (nxt, s3) \<leftarrow> (case schedule_class_pick_next c s2 of
                     Some p \<Rightarrow> do { s' \<leftarrow> schedule_class_dequeue c p s2; Some (p, s') }
                   | None \<Rightarrow> Some (k_idle s2, s2));
     let s4 = upd_proc nxt (\<lambda>pr. pr\<lparr>p_runs := p_runs pr + 1\<rparr>) s3;
     Some (if nxt \<noteq> k_current s4 then process_run nxt s4 else s4)
   }"

section \<open>Timers\<close>

fun timer_insert :: "nat \<Rightarrow> nat list \<Rightarrow> (nat \<Rightarrow> timer) \<Rightarrow> (nat \<Rightarrow> timer) \<times> nat list" where
  "timer_insert t [] tm = (tm, [t])"
| "timer_insert t (e # es) tm =
     (if tm_expires (tm t) < tm_expires (tm e)
      then (tm(e := (tm e)\<lparr>tm_expires := tm_expires (tm e) - tm_expires (tm t)\<rparr>), t # e # es)
      else let (tm', es') = timer_insert t es
                 (tm(t := (tm t)\<lparr>tm_expires := tm_expires (tm t) - tm_expires (tm e)\<rparr>))
           in (tm', e # es'))"

definition add_timer :: "nat \<Rightarrow> 'a kst_scheme \<Rightarrow> 'a kst_scheme option" where
  "add_timer t s = do {
     kassert (tm_expires (k_timer s t) > 0 \<and> tm_process (k_timer s t) \<noteq> None);
     kassert (t \<notin> set (k_timers s));
     let (tm, ts) = timer_insert t (k_timers s) (k_timer s);
     Some (s\<lparr>k_timer := tm, k_timers := ts\<rparr>)
   }"

fun succ_in :: "nat \<Rightarrow> nat list \<Rightarrow> nat option" where
  "succ_in t [] = None"
| "succ_in t (e # es) = (if e = t then (case es of [] \<Rightarrow> None | n # _ \<Rightarrow> Some n) else succ_in t es)"

definition del_timer :: "nat \<Rightarrow> 'a kst_scheme \<Rightarrow> 'a kst_scheme" where
  "del_timer t s =
     (if t \<in> set (k_timers s)
      then let s1 = (if tm_expires (k_timer s t) \<noteq> 0
                     then case succ_in t (k_timers s) of
                            None \<Rightarrow> s
                          | Some n \<Rightarrow> upd_timer n
                              (\<lambda>tm. tm\<lparr>tm_expires := tm_expires tm + tm_expires (k_timer s t)\<rparr>) s
                     else s)
           in s1\<lparr>k_timers := remove1 t (k_timers s1)\<rparr>
      else s)"

fun run_expired ::
    "'a kst_scheme sched_class \<Rightarrow> nat list \<Rightarrow> 'a kst_scheme \<Rightarrow> 'a kst_scheme option" where
  "run_expired c [] s = Some s"
| "run_expired c (t # ts) s =
     (if tm_expires (k_timer s t) = 0
      then do {
        p \<leftarrow> tm_process (k_timer s t);
        kassert (p_wait_state (k_procs s p) \<noteq> 0 \<longrightarrow> p_wait_state (k_procs s p) AND WT_INTERRUPTED \<noteq> 0);
        s1 \<leftarrow> wakeup_process c p s;
        run_expired c ts (del_timer t s1)
      }
      else Some s)"

definition run_timer_list :: "'a kst_scheme sched_class \<Rightarrow> 'a kst_scheme \<Rightarrow> 'a kst_scheme option" where
  "run_timer_list c s = do {
     s1 \<leftarrow> (case k_timers s of
              [] \<Rightarrow> Some s
            | t # _ \<Rightarrow> do {
                kassert (tm_expires (k_timer s t) \<noteq> 0);
                let s' = upd_timer t (\<lambda>tm. tm\<lparr>tm_expires := tm_expires tm - 1\<rparr>) s;
                run_expired c (k_timers s') s'
              });
     Some (schedule_class_process_tick c (k_current s1) s1)
   }"

section \<open>Run-queue invariant\<close>

definition queued :: "'a kst_scheme \<Rightarrow> nat set" where
  "queued s = {p. \<exists>i<length (k_rqs s). p \<in> set (rq_list (k_rqs s ! i))}"

definition rqs_inv :: "'a kst_scheme \<Rightarrow> bool" where
  "rqs_inv s \<longleftrightarrow> k_rqs s \<noteq> [] \<and>
     (\<forall>i<length (k_rqs s). distinct (rq_list (k_rqs s ! i)) \<and>
        rq_count (k_rqs s ! i) = length (rq_list (k_rqs s ! i)) \<and>
        (\<forall>p\<in>set (rq_list (k_rqs s ! i)). p_rq (k_procs s p) = Some i)) \<and>
     (\<forall>p i. p_rq (k_procs s p) = Some i \<longrightarrow> i < length (k_rqs s))"

text \<open>The classes with one queue leave the others empty.\<close>

definition single_inv :: "'a kst_scheme \<Rightarrow> bool" where
  "single_inv s \<longleftrightarrow> rqs_inv s \<and> (\<forall>i<length (k_rqs s). i \<noteq> 0 \<longrightarrow> rq_list (k_rqs s ! i) = [])"

text \<open>A class may change the queue membership and the time slice of a process, nothing else.\<close>

definition proc_same :: "proc \<Rightarrow> proc \<Rightarrow> bool" where
  "proc_same a b \<longleftrightarrow> p_state b = p_state a \<and>
     p_pid b = p_pid a \<and>
     p_parent b = p_parent a \<and>
     p_mm b = p_mm a \<and>
     p_flags b = p_flags a \<and>
     p_exit_code b = p_exit_code a \<and>
     p_wait_state b = p_wait_state a \<and>
     p_child b = p_child a \<and>
     p_left b = p_left a \<and>
     p_right b = p_right a"

definition same_core :: "'a kst_scheme \<Rightarrow> 'a kst_scheme \<Rightarrow> bool" where
  "same_core s s' \<longleftrightarrow> k_timer s' = k_timer s \<and> k_timers s' = k_timers s \<and> k_idle s' = k_idle s \<and>
     kst.more s' = kst.more s \<and> (\<forall>q. proc_same (k_procs s q) (k_procs s' q))"

lemma proc_sameD:
  assumes "proc_same a b"
  shows "p_state b = p_state a"
    "p_pid b = p_pid a"
    "p_parent b = p_parent a"
    "p_mm b = p_mm a"
    "p_flags b = p_flags a"
    "p_exit_code b = p_exit_code a"
    "p_wait_state b = p_wait_state a"
    "p_child b = p_child a"
    "p_left b = p_left a"
    "p_right b = p_right a"
  using assms by (simp_all add: proc_same_def)

lemma proc_same_refl [simp]: "proc_same a a"
  and proc_same_upd [simp]: "proc_same a (a\<lparr>p_rq := r\<rparr>)" "proc_same a (a\<lparr>p_time_slice := t\<rparr>)"
    "proc_same a (a\<lparr>p_need_resched := b\<rparr>)" "proc_same a (a\<lparr>p_runs := n\<rparr>)"
    "proc_same a (a\<lparr>p_time_slice := t, p_rq := r\<rparr>)"
    "proc_same a (a\<lparr>p_time_slice := t, p_need_resched := b\<rparr>)"
  by (simp_all add: proc_same_def)

lemma proc_same_trans: "proc_same a b \<Longrightarrow> proc_same b c \<Longrightarrow> proc_same a c"
  by (simp add: proc_same_def)

lemma same_core_refl [simp]: "same_core s s"
  by (simp add: same_core_def)

lemma same_core_trans: "same_core s s' \<Longrightarrow> same_core s' s'' \<Longrightarrow> same_core s s''"
  unfolding same_core_def by (elim conjE, intro conjI allI) (simp_all, metis proc_same_trans)

lemma same_coreD:
  assumes "same_core s s'"
  shows "p_state (k_procs s' q) = p_state (k_procs s q)"
    "p_wait_state (k_procs s' q) = p_wait_state (k_procs s q)"
    "k_timer s' = k_timer s" "k_timers s' = k_timers s" "k_idle s' = k_idle s"
    "kst.more s' = kst.more s"
  using assms proc_sameD [of "k_procs s q" "k_procs s' q"] by (simp_all add: same_core_def)

lemma upd_proc_simps [simp]:
  "k_procs (upd_proc p f s) = (k_procs s)(p := f (k_procs s p))" "k_rqs (upd_proc p f s) = k_rqs s"
  "k_timer (upd_proc p f s) = k_timer s" "k_timers (upd_proc p f s) = k_timers s"
  "k_current (upd_proc p f s) = k_current s" "k_idle (upd_proc p f s) = k_idle s"
  "kst.more (upd_proc p f s) = kst.more s"
  by (simp_all add: upd_proc_def)

lemma upd_rq_simps [simp]:
  "k_procs (upd_rq i f s) = k_procs s" "k_rqs (upd_rq i f s) = (k_rqs s)[i := f (k_rqs s ! i)]"
  "k_timer (upd_rq i f s) = k_timer s" "k_timers (upd_rq i f s) = k_timers s"
  "k_current (upd_rq i f s) = k_current s" "k_idle (upd_rq i f s) = k_idle s"
  "kst.more (upd_rq i f s) = kst.more s"
  by (simp_all add: upd_rq_def)

lemma upd_timer_simps [simp]:
  "k_procs (upd_timer t f s) = k_procs s" "k_rqs (upd_timer t f s) = k_rqs s"
  "k_timer (upd_timer t f s) = (k_timer s)(t := f (k_timer s t))" "k_timers (upd_timer t f s) = k_timers s"
  "k_current (upd_timer t f s) = k_current s" "k_idle (upd_timer t f s) = k_idle s"
  "kst.more (upd_timer t f s) = kst.more s"
  by (simp_all add: upd_timer_def)

lemma run_linked_iff: "run_linked p s \<longleftrightarrow> p \<in> queued s"
  by (auto simp: run_linked_def queued_def list_ex_length)

lemma queued_cong: "k_rqs s' = k_rqs s \<Longrightarrow> queued s' = queued s"
  by (simp add: queued_def)

lemma rqs_inv_cong:
  "k_rqs s' = k_rqs s \<Longrightarrow> \<forall>q. p_rq (k_procs s' q) = p_rq (k_procs s q) \<Longrightarrow> rqs_inv s' = rqs_inv s"
  by (simp add: rqs_inv_def)

lemma queuedD:
  assumes "rqs_inv s" "p \<in> queued s"
  obtains i where "i < length (k_rqs s)" "p \<in> set (rq_list (k_rqs s ! i))" "p_rq (k_procs s p) = Some i"
proof -
  from assms(2) obtain i where i: "i < length (k_rqs s)" "p \<in> set (rq_list (k_rqs s ! i))"
    by (auto simp: queued_def)
  moreover have "p_rq (k_procs s p) = Some i" using assms(1) i unfolding rqs_inv_def by blast
  ultimately show thesis by (rule that)
qed

text \<open>Enqueueing at the tail of queue \<open>i\<close>, and unlinking from it, on any state with the new lists.\<close>

lemma rqs_invD:
  assumes "rqs_inv s" "i < length (k_rqs s)"
  shows "distinct (rq_list (k_rqs s ! i))" "rq_count (k_rqs s ! i) = length (rq_list (k_rqs s ! i))"
    "p \<in> set (rq_list (k_rqs s ! i)) \<Longrightarrow> p_rq (k_procs s p) = Some i"
  using assms unfolding rqs_inv_def by blast+

lemma rqs_invI:
  assumes "k_rqs s \<noteq> []"
    and "\<And>i. i < length (k_rqs s) \<Longrightarrow> distinct (rq_list (k_rqs s ! i))"
    and "\<And>i. i < length (k_rqs s) \<Longrightarrow> rq_count (k_rqs s ! i) = length (rq_list (k_rqs s ! i))"
    and "\<And>i p. i < length (k_rqs s) \<Longrightarrow> p \<in> set (rq_list (k_rqs s ! i)) \<Longrightarrow> p_rq (k_procs s p) = Some i"
    and "\<And>p i. p_rq (k_procs s p) = Some i \<Longrightarrow> i < length (k_rqs s)"
  shows "rqs_inv s"
  unfolding rqs_inv_def by (intro conjI allI ballI impI; rule assms; assumption?)

lemma rqs_inv_more:
  "rqs_inv s \<Longrightarrow> k_rqs s \<noteq> []" "rqs_inv s \<Longrightarrow> p_rq (k_procs s p) = Some i \<Longrightarrow> i < length (k_rqs s)"
  unfolding rqs_inv_def by blast+

lemma enqueue_inv:
  assumes inv: "rqs_inv s" and i: "i < length (k_rqs s)" and p: "p \<notin> queued s"
    and rqs: "k_rqs s' = (k_rqs s)[i := rq]" "rq_list rq = rq_list (k_rqs s ! i) @ [p]"
      "rq_count rq = rq_count (k_rqs s ! i) + 1"
    and pr: "\<And>q. p_rq (k_procs s' q) = (if q = p then Some i else p_rq (k_procs s q))"
  shows "rqs_inv s'" "queued s' = insert p (queued s)"
proof -
  have len: "length (k_rqs s') = length (k_rqs s)" by (simp add: rqs)
  have np: "p \<notin> set (rq_list (k_rqs s ! j))" if "j < length (k_rqs s)" for j
    using p that by (auto simp: queued_def)
  have nth: "rq_list (k_rqs s' ! j) = (if j = i then rq_list (k_rqs s ! i) @ [p] else rq_list (k_rqs s ! j))"
    "rq_count (k_rqs s' ! j) = (if j = i then rq_count (k_rqs s ! i) + 1 else rq_count (k_rqs s ! j))" for j
    using i by (simp_all add: rqs)
  show "rqs_inv s'"
  proof (rule rqs_invI)
    show "k_rqs s' \<noteq> []" using i len by auto
  next
    fix j assume "j < length (k_rqs s')"
    then have j: "j < length (k_rqs s)" by (simp add: len)
    note o = rqs_invD [OF inv j]
    show "distinct (rq_list (k_rqs s' ! j))" using o(1) np [OF j] by (auto simp: nth)
    show "rq_count (k_rqs s' ! j) = length (rq_list (k_rqs s' ! j))" using o(2) by (auto simp: nth)
    show "p_rq (k_procs s' q) = Some j" if "q \<in> set (rq_list (k_rqs s' ! j))" for q
      using that o(3) [of q] np [OF j] by (auto simp: nth pr split: if_splits)
  next
    fix q j assume "p_rq (k_procs s' q) = Some j"
    then show "j < length (k_rqs s')" using rqs_inv_more(2) [OF inv, of q j] i by (auto simp: pr len split: if_splits)
  qed
  show "queued s' = insert p (queued s)"
    unfolding queued_def len using i by (auto simp: nth split: if_splits)
qed

lemma dequeue_inv:
  assumes inv: "rqs_inv s" and i: "i < length (k_rqs s)" and p: "p \<in> set (rq_list (k_rqs s ! i))"
    and rqs: "k_rqs s' = (k_rqs s)[i := rq]" "rq_list rq = remove1 p (rq_list (k_rqs s ! i))"
      "rq_count rq = rq_count (k_rqs s ! i) - 1"
    and pr: "\<And>q. p_rq (k_procs s' q) = p_rq (k_procs s q)"
  shows "rqs_inv s'" "queued s' = queued s - {p}"
proof -
  have len: "length (k_rqs s') = length (k_rqs s)" by (simp add: rqs)
  have np: "p \<notin> set (rq_list (k_rqs s ! j))" if "j < length (k_rqs s)" "j \<noteq> i" for j
    using rqs_invD(3) [OF inv that(1), of p] rqs_invD(3) [OF inv i p] that(2) by auto
  have d: "distinct (rq_list (k_rqs s ! i))" by (rule rqs_invD(1) [OF inv i])
  have nth: "rq_list (k_rqs s' ! j) = (if j = i then remove1 p (rq_list (k_rqs s ! i)) else rq_list (k_rqs s ! j))"
    "rq_count (k_rqs s' ! j) = (if j = i then rq_count (k_rqs s ! i) - 1 else rq_count (k_rqs s ! j))" for j
    using i by (simp_all add: rqs)
  have set: "set (rq_list (k_rqs s' ! j)) = set (rq_list (k_rqs s ! j)) - {p}" if "j < length (k_rqs s)" for j
    using np [OF that] d by (auto simp: nth)
  show "rqs_inv s'"
  proof (rule rqs_invI)
    show "k_rqs s' \<noteq> []" using i len by auto
  next
    fix j assume "j < length (k_rqs s')"
    then have j: "j < length (k_rqs s)" by (simp add: len)
    note o = rqs_invD [OF inv j]
    show "distinct (rq_list (k_rqs s' ! j))" using o(1) d by (auto simp: nth)
    show "rq_count (k_rqs s' ! j) = length (rq_list (k_rqs s' ! j))"
      using o(2) p by (auto simp: nth length_remove1)
    show "p_rq (k_procs s' q) = Some j" if "q \<in> set (rq_list (k_rqs s' ! j))" for q
      using that o(3) [of q] by (simp add: set [OF j] pr)
  next
    fix q j assume "p_rq (k_procs s' q) = Some j"
    then show "j < length (k_rqs s')" using rqs_inv_more(2) [OF inv, of q j] by (simp add: pr len)
  qed
  show "queued s' = queued s - {p}"
    unfolding queued_def len using set by auto
qed

definition run_next :: "nat \<Rightarrow> 'a kst_scheme \<Rightarrow> 'a kst_scheme" where
  "run_next p s = process_run p (upd_proc p (\<lambda>pr. pr\<lparr>p_runs := p_runs pr + 1\<rparr>) s)"

lemma run_next_simps:
  "k_rqs (run_next p s) = k_rqs s" "p_rq (k_procs (run_next p s) q) = p_rq (k_procs s q)"
  "p_state (k_procs (run_next p s) q) = p_state (k_procs s q)"
  "p_wait_state (k_procs (run_next p s) q) = p_wait_state (k_procs s q)"
  "k_current (run_next p s) = p" "k_idle (run_next p s) = k_idle s" "k_timer (run_next p s) = k_timer s"
  "k_timers (run_next p s) = k_timers s" "kst.more (run_next p s) = kst.more s"
  by (simp_all add: run_next_def process_run_def)

section \<open>The contract of a scheduling class\<close>

text \<open>The run queue holds exactly the runnable processes other than the running and the idle one.\<close>

definition sched_ok :: "('a kst_scheme \<Rightarrow> bool) \<Rightarrow> 'a kst_scheme \<Rightarrow> bool" where
  "sched_ok qinv s \<longleftrightarrow> qinv s \<and>
     (\<forall>p. p \<in> queued s \<longleftrightarrow>
        p_state (k_procs s p) = STATE_RUNNABLE \<and> p \<noteq> k_current s \<and> p \<noteq> k_idle s)"

locale scheduler =
  fixes c :: "'a kst_scheme sched_class"
    and qinv :: "'a kst_scheme \<Rightarrow> bool"
  assumes qinv_cong: "k_rqs s' = k_rqs s \<Longrightarrow> \<forall>q. p_rq (k_procs s' q) = p_rq (k_procs s q) \<Longrightarrow>
      qinv s \<Longrightarrow> qinv s'"
    and enqueue: "qinv s \<Longrightarrow> p \<notin> queued s \<Longrightarrow> \<exists>s'. cls_enqueue c 0 p s = Some s' \<and> qinv s' \<and>
      queued s' = insert p (queued s) \<and> same_core s s' \<and> k_current s' = k_current s"
    and dequeue: "qinv s \<Longrightarrow> p \<in> queued s \<Longrightarrow> \<exists>s'. cls_dequeue c 0 p s = Some s' \<and> qinv s' \<and>
      queued s' = queued s - {p} \<and> same_core s s' \<and> k_current s' = k_current s"
    and pick_none: "qinv s \<Longrightarrow> cls_pick_next c 0 s = None \<Longrightarrow> queued s = {}"
    and pick_some: "qinv s \<Longrightarrow> cls_pick_next c 0 s = Some p \<Longrightarrow> p \<in> queued s"
    and tick: "k_rqs (cls_process_tick c 0 p s) = k_rqs s"
      "p_rq (k_procs (cls_process_tick c 0 p s) q) = p_rq (k_procs s q)"
      "same_core s (cls_process_tick c 0 p s)"
      "k_current (cls_process_tick c 0 p s) = k_current s"
begin

lemma sched_okD:
  "sched_ok qinv s \<Longrightarrow> qinv s"
  "sched_ok qinv s \<Longrightarrow> p \<in> queued s \<longleftrightarrow>
     p_state (k_procs s p) = STATE_RUNNABLE \<and> p \<noteq> k_current s \<and> p \<noteq> k_idle s"
  by (simp_all add: sched_ok_def)

lemma sched_ok_cong:
  assumes "sched_ok qinv s" "k_rqs s' = k_rqs s" "\<forall>q. p_rq (k_procs s' q) = p_rq (k_procs s q)"
    "\<forall>q. p_state (k_procs s' q) = p_state (k_procs s q)" "k_current s' = k_current s" "k_idle s' = k_idle s"
  shows "sched_ok qinv s'"
  using assms qinv_cong [of s' s] queued_cong [of s' s] by (simp add: sched_ok_def)

lemma wakeup_ok:
  assumes ok: "sched_ok qinv s" and st: "p_state (k_procs s p) \<noteq> STATE_ZOMBIE"
  shows "\<exists>s'. wakeup_process c p s = Some s' \<and> sched_ok qinv s' \<and>
    (\<forall>q. p_state (k_procs s' q) = (if q = p then STATE_RUNNABLE else p_state (k_procs s q))) \<and>
    (\<forall>q. p_wait_state (k_procs s' q) =
       (if q = p \<and> p_state (k_procs s p) \<noteq> STATE_RUNNABLE then 0 else p_wait_state (k_procs s q))) \<and>
    k_current s' = k_current s \<and> k_idle s' = k_idle s \<and> k_timer s' = k_timer s \<and>
    k_timers s' = k_timers s \<and> kst.more s' = kst.more s"
proof (cases "p_state (k_procs s p) = STATE_RUNNABLE")
  case True
  then have "wakeup_process c p s = Some s" by (simp add: wakeup_process_def)
  with ok True show ?thesis by auto
next
  case False
  let ?s1 = "upd_proc p (\<lambda>pr. pr\<lparr>p_state := STATE_RUNNABLE, p_wait_state := 0\<rparr>) s"
  have q1: "qinv ?s1" using qinv_cong [of ?s1 s] sched_okD(1) [OF ok] by simp
  have qq: "queued ?s1 = queued s" by (rule queued_cong) simp
  have np: "p \<notin> queued s" using False sched_okD(2) [OF ok, of p] by simp
  show ?thesis
  proof (cases "p = k_current s \<or> p = k_idle s")
    case True
    then have "wakeup_process c p s = Some ?s1"
      using False st by (auto simp: wakeup_process_def schedule_class_enqueue_def Let_def)
    moreover have "sched_ok qinv ?s1"
      using q1 True sched_okD(2) [OF ok] by (auto simp: sched_ok_def qq)
    ultimately show ?thesis using False by (intro exI [of _ ?s1]) simp
  next
    case other: False
    from enqueue [OF q1, of p] np obtain s' where
      s': "cls_enqueue c 0 p ?s1 = Some s'" "qinv s'" "queued s' = insert p (queued s)"
        "same_core ?s1 s'" "k_current s' = k_current s" by (auto simp: qq)
    note same = same_coreD [OF s'(4)]
    have "wakeup_process c p s = Some s'"
      using False st other s'(1) by (simp add: wakeup_process_def schedule_class_enqueue_def)
    moreover have "sched_ok qinv s'"
      using s'(2,3,5) other sched_okD(2) [OF ok] by (auto simp: sched_ok_def same)
    ultimately show ?thesis using s'(5) False by (intro exI [of _ s']) (simp add: same)
  qed
qed

lemma schedule_ok:
  assumes ok: "sched_ok qinv s"
  shows "\<exists>s'. schedule c s = Some s' \<and> sched_ok qinv s' \<and>
    (\<forall>q. p_state (k_procs s' q) = p_state (k_procs s q)) \<and>
    (k_current s' = k_idle s \<and> (\<forall>q. p_state (k_procs s q) = STATE_RUNNABLE \<longrightarrow> q = k_idle s) \<or>
     k_current s' \<noteq> k_idle s \<and> p_state (k_procs s (k_current s')) = STATE_RUNNABLE) \<and>
    k_idle s' = k_idle s \<and> k_timer s' = k_timer s \<and> k_timers s' = k_timers s \<and>
    kst.more s' = kst.more s \<and> (\<forall>q. p_wait_state (k_procs s' q) = p_wait_state (k_procs s q))"
proof -
  let ?s1 = "upd_proc (k_current s) (\<lambda>pr. pr\<lparr>p_need_resched := False\<rparr>) s"
  let ?run = "p_state (k_procs s (k_current s)) = STATE_RUNNABLE \<and> k_current s \<noteq> k_idle s"
  have q1: "qinv ?s1" using qinv_cong [of ?s1 s] sched_okD(1) [OF ok] by simp
  have qq: "queued ?s1 = queued s" by (rule queued_cong) simp
  have c1: "same_core s ?s1" by (simp add: same_core_def)
  have np: "k_current s \<notin> queued s" using sched_okD(2) [OF ok, of "k_current s"] by simp
  obtain s2 where s2: "(if ?run then schedule_class_enqueue c (k_current s) ?s1 else Some ?s1) = Some s2"
    "qinv s2" "queued s2 = (if ?run then insert (k_current s) (queued s) else queued s)"
    "same_core ?s1 s2" "k_current s2 = k_current s"
    using enqueue [OF q1, of "k_current s"] np q1 by (cases ?run) (auto simp: schedule_class_enqueue_def qq)
  have e2: "(if p_state (k_procs ?s1 (k_current ?s1)) = STATE_RUNNABLE \<and> k_current ?s1 \<noteq> k_idle ?s1
      then schedule_class_enqueue c (k_current ?s1) ?s1 else Some ?s1) = Some s2"
    using s2(1) by (simp only: upd_proc_simps) (simp split: if_splits)
  have runnable: "p \<in> queued s2 \<longleftrightarrow> p_state (k_procs s p) = STATE_RUNNABLE \<and> p \<noteq> k_idle s" for p
    using sched_okD(2) [OF ok, of p] by (auto simp: s2(3))
  note same = same_coreD [OF same_core_trans [OF c1 s2(4)]]
  show ?thesis
  proof (cases "cls_pick_next c 0 s2")
    case None
    let ?s' = "run_next (k_idle s) s2"
    have empty: "queued s2 = {}" by (rule pick_none [OF s2(2) None])
    then have idle: "\<not> (p_state (k_procs s p) = STATE_RUNNABLE \<and> p \<noteq> k_idle s)" for p
      using runnable [of p] by simp
    have q: "qinv ?s'" "queued ?s' = {}"
      using qinv_cong [of ?s' s2] s2(2) queued_cong [of ?s' s2] empty by (simp_all add: run_next_simps)
    have "sched_ok qinv ?s'" using idle unfolding sched_ok_def q(2) run_next_simps same by (simp add: q(1))
    moreover have "schedule c s = Some ?s'"
      unfolding schedule_def Let_def e2 using None same(5)
      by (simp add: schedule_class_pick_next_def process_run_def run_next_def)
    ultimately show ?thesis
      using idle by (intro exI [of _ ?s']) (simp add: run_next_simps same)
  next
    case (Some p)
    have p: "p \<in> queued s2" by (rule pick_some [OF s2(2) Some])
    from dequeue [OF s2(2) p] obtain s3 where s3: "cls_dequeue c 0 p s2 = Some s3" "qinv s3"
      "queued s3 = queued s2 - {p}" "same_core s2 s3" "k_current s3 = k_current s2" by blast
    let ?s' = "run_next p s3"
    note same' = same_coreD [OF s3(4)]
    have q: "qinv ?s'" "queued ?s' = queued s2 - {p}"
      using qinv_cong [of ?s' s3] s3(2,3) queued_cong [of ?s' s3] by (simp_all add: run_next_simps)
    have "sched_ok qinv ?s'"
      unfolding sched_ok_def q(2) run_next_simps same same' using runnable by (simp add: q(1)) blast
    moreover have "schedule c s = Some ?s'"
      unfolding schedule_def Let_def e2 using Some s3(1)
      by (simp add: schedule_class_pick_next_def schedule_class_dequeue_def process_run_def run_next_def)
    ultimately show ?thesis
      using runnable [of p] p by (intro exI [of _ ?s']) (simp add: run_next_simps same same')
  qed
qed

end

subsection \<open>The three classes meet the contract\<close>

lemma RR_enqueue_spec:
  assumes inv: "rqs_inv s" and i: "i < length (k_rqs s)" and p: "p \<notin> queued s"
  shows "\<exists>s'. RR_enqueue i p s = Some s' \<and> rqs_inv s' \<and> queued s' = insert p (queued s) \<and>
    same_core s s' \<and> k_current s' = k_current s \<and>
    (\<forall>j. rq_list (k_rqs s' ! j) = (if j = i then rq_list (k_rqs s ! i) @ [p] else rq_list (k_rqs s ! j))) \<and>
    length (k_rqs s') = length (k_rqs s)"
proof -
  obtain s' where s': "RR_enqueue i p s = Some s'"
    using p by (simp add: RR_enqueue_def run_linked_iff Let_def)
  let ?rq = "(k_rqs s ! i)\<lparr>rq_list := rq_list (k_rqs s ! i) @ [p], rq_count := rq_count (k_rqs s ! i) + 1\<rparr>"
  have st: "k_rqs s' = (k_rqs s)[i := ?rq]"
    "\<And>q. p_rq (k_procs s' q) = (if q = p then Some i else p_rq (k_procs s q))"
    "same_core s s'" "k_current s' = k_current s"
    using s' p i by (auto simp: RR_enqueue_def run_linked_iff Let_def same_core_def)
  from enqueue_inv [OF inv i p st(1) _ _ st(2)] s' st(3,4) i show ?thesis
    by (simp add: st(1) nth_list_update)
qed

lemma RR_dequeue_spec:
  assumes inv: "rqs_inv s" and i: "i < length (k_rqs s)" and p: "p \<in> set (rq_list (k_rqs s ! i))"
  shows "\<exists>s'. RR_dequeue i p s = Some s' \<and> rqs_inv s' \<and> queued s' = queued s - {p} \<and>
    same_core s s' \<and> k_current s' = k_current s \<and>
    (\<forall>j. rq_list (k_rqs s' ! j) = (if j = i then remove1 p (rq_list (k_rqs s ! i)) else rq_list (k_rqs s ! j))) \<and>
    length (k_rqs s') = length (k_rqs s)"
proof -
  let ?f = "\<lambda>rq. rq\<lparr>rq_list := remove1 p (rq_list rq), rq_count := rq_count rq - 1\<rparr>"
  let ?s' = "upd_rq i ?f s"
  have "p \<in> queued s" using i p by (auto simp: queued_def)
  then have "RR_dequeue i p s = Some ?s'"
    using rqs_invD(3) [OF inv i p] by (simp add: RR_dequeue_def run_linked_iff)
  moreover have "rqs_inv ?s'" "queued ?s' = queued s - {p}"
    using dequeue_inv [OF inv i p, of ?s' "?f (k_rqs s ! i)"] by simp_all
  moreover have "same_core s ?s'" by (simp add: same_core_def)
  ultimately show ?thesis using i by (simp add: nth_list_update)
qed

lemma single_len: "single_inv s \<Longrightarrow> rqs_inv s" "single_inv s \<Longrightarrow> 0 < length (k_rqs s)"
  using rqs_inv_more(1) [of s] by (simp_all add: single_inv_def)

lemma single_queued:
  assumes "single_inv s"
  shows "queued s = set (rq_list (k_rqs s ! 0))"
proof -
  have "rq_list (k_rqs s ! i) = []" if "i < length (k_rqs s)" "i \<noteq> 0" for i
    using assms that by (simp add: single_inv_def)
  then have "p \<in> set (rq_list (k_rqs s ! 0))" if "i < length (k_rqs s)" "p \<in> set (rq_list (k_rqs s ! i))" for p i
    using that by (cases "i = 0") auto
  with single_len(2) [OF assms] show ?thesis unfolding queued_def by blast
qed

lemma FCFS_enqueue_spec:
  assumes inv: "rqs_inv s" and i: "i < length (k_rqs s)" and p: "p \<notin> queued s"
  shows "\<exists>s'. FCFS_enqueue i p s = Some s' \<and> rqs_inv s' \<and> queued s' = insert p (queued s) \<and>
    same_core s s' \<and> k_current s' = k_current s \<and>
    (\<forall>j. rq_list (k_rqs s' ! j) = (if j = i then rq_list (k_rqs s ! i) @ [p] else rq_list (k_rqs s ! j))) \<and>
    length (k_rqs s') = length (k_rqs s)"
proof -
  obtain s' where s': "FCFS_enqueue i p s = Some s'"
    using p by (simp add: FCFS_enqueue_def run_linked_iff Let_def)
  let ?rq = "(k_rqs s ! i)\<lparr>rq_list := rq_list (k_rqs s ! i) @ [p], rq_count := rq_count (k_rqs s ! i) + 1\<rparr>"
  have st: "k_rqs s' = (k_rqs s)[i := ?rq]"
    "\<And>q. p_rq (k_procs s' q) = (if q = p then Some i else p_rq (k_procs s q))"
    "same_core s s'" "k_current s' = k_current s"
    using s' p i by (auto simp: FCFS_enqueue_def run_linked_iff Let_def same_core_def)
  from enqueue_inv [OF inv i p st(1) _ _ st(2)] s' st(3,4) i show ?thesis
    by (simp add: st(1) nth_list_update)
qed

lemma FCFS_RR_eq: "FCFS_dequeue = RR_dequeue" "FCFS_pick_next = RR_pick_next"
  by (simp_all add: fun_eq_iff FCFS_dequeue_def RR_dequeue_def FCFS_pick_next_def RR_pick_next_def)

lemma single_inv_step:
  assumes "single_inv s" "rqs_inv s'" "length (k_rqs s') = length (k_rqs s)"
    and "\<forall>j. rq_list (k_rqs s' ! j) = (if j = 0 then l else rq_list (k_rqs s ! j))"
  shows "single_inv s'"
  using assms by (simp add: single_inv_def)

interpretation fcfs: scheduler FCFS_schedule_class single_inv
proof
  fix s s' :: "'a kst_scheme" and p q :: nat
  show "k_rqs s' = k_rqs s \<Longrightarrow> \<forall>q. p_rq (k_procs s' q) = p_rq (k_procs s q) \<Longrightarrow> single_inv s \<Longrightarrow> single_inv s'"
    using rqs_inv_cong [of s' s] by (simp add: single_inv_def)
  show "k_rqs (cls_process_tick FCFS_schedule_class 0 p s) = k_rqs s"
    "p_rq (k_procs (cls_process_tick FCFS_schedule_class 0 p s) q) = p_rq (k_procs s q)"
    "same_core s (cls_process_tick FCFS_schedule_class 0 p s)"
    "k_current (cls_process_tick FCFS_schedule_class 0 p s) = k_current s"
    by (simp_all add: FCFS_schedule_class_def FCFS_process_tick_def)
  assume inv: "single_inv s"
  note r = single_len [OF inv]
  show "\<exists>s'. cls_enqueue FCFS_schedule_class 0 p s = Some s' \<and> single_inv s' \<and>
      queued s' = insert p (queued s) \<and> same_core s s' \<and> k_current s' = k_current s" if "p \<notin> queued s"
    using FCFS_enqueue_spec [OF r that] single_inv_step [OF inv] by (auto simp: FCFS_schedule_class_def)
  show "\<exists>s'. cls_dequeue FCFS_schedule_class 0 p s = Some s' \<and> single_inv s' \<and>
      queued s' = queued s - {p} \<and> same_core s s' \<and> k_current s' = k_current s" if "p \<in> queued s"
    using RR_dequeue_spec [OF r, of p] that single_inv_step [OF inv]
    by (auto simp: FCFS_schedule_class_def FCFS_RR_eq single_queued [OF inv])
  show "queued s = {}" if "cls_pick_next FCFS_schedule_class 0 s = None"
    using that by (simp add: single_queued [OF inv] FCFS_schedule_class_def FCFS_pick_next_def split: list.splits)
  show "p \<in> queued s" if "cls_pick_next FCFS_schedule_class 0 s = Some p"
    using that by (simp add: single_queued [OF inv] FCFS_schedule_class_def FCFS_pick_next_def split: list.splits)
qed

lemma RR_tick_simps:
  "k_rqs (RR_process_tick i p s) = k_rqs s" "p_rq (k_procs (RR_process_tick i p s) q) = p_rq (k_procs s q)"
  "same_core s (RR_process_tick i p s)" "k_current (RR_process_tick i p s) = k_current s"
  by (simp_all add: RR_process_tick_def Let_def same_core_def)

interpretation rr: scheduler RR_schedule_class single_inv
proof
  fix s s' :: "'a kst_scheme" and p q :: nat
  show "k_rqs s' = k_rqs s \<Longrightarrow> \<forall>q. p_rq (k_procs s' q) = p_rq (k_procs s q) \<Longrightarrow> single_inv s \<Longrightarrow> single_inv s'"
    using rqs_inv_cong [of s' s] by (simp add: single_inv_def)
  show "k_rqs (cls_process_tick RR_schedule_class 0 p s) = k_rqs s"
    "p_rq (k_procs (cls_process_tick RR_schedule_class 0 p s) q) = p_rq (k_procs s q)"
    "same_core s (cls_process_tick RR_schedule_class 0 p s)"
    "k_current (cls_process_tick RR_schedule_class 0 p s) = k_current s"
    by (simp_all add: RR_schedule_class_def RR_tick_simps)
  assume inv: "single_inv s"
  note r = single_len [OF inv]
  show "\<exists>s'. cls_enqueue RR_schedule_class 0 p s = Some s' \<and> single_inv s' \<and>
      queued s' = insert p (queued s) \<and> same_core s s' \<and> k_current s' = k_current s" if "p \<notin> queued s"
    using RR_enqueue_spec [OF r that] single_inv_step [OF inv] by (auto simp: RR_schedule_class_def)
  show "\<exists>s'. cls_dequeue RR_schedule_class 0 p s = Some s' \<and> single_inv s' \<and>
      queued s' = queued s - {p} \<and> same_core s s' \<and> k_current s' = k_current s" if "p \<in> queued s"
    using RR_dequeue_spec [OF r, of p] that single_inv_step [OF inv]
    by (auto simp: RR_schedule_class_def single_queued [OF inv])
  show "queued s = {}" if "cls_pick_next RR_schedule_class 0 s = None"
    using that by (simp add: single_queued [OF inv] RR_schedule_class_def RR_pick_next_def split: list.splits)
  show "p \<in> queued s" if "cls_pick_next RR_schedule_class 0 s = Some p"
    using that by (simp add: single_queued [OF inv] RR_schedule_class_def RR_pick_next_def split: list.splits)
qed

lemma MLFQ_pick_loop_spec:
  "case MLFQ_pick_loop js s of
     None \<Rightarrow> \<forall>j\<in>set js. rq_list (k_rqs s ! j) = []
   | Some p \<Rightarrow> \<exists>xs j ys ps. js = xs @ j # ys \<and> rq_list (k_rqs s ! j) = p # ps \<and>
       (\<forall>i\<in>set xs. rq_list (k_rqs s ! i) = [])"
proof (induction js)
  case (Cons j js)
  show ?case
  proof (cases "rq_list (k_rqs s ! j)")
    case Nil
    then have e: "MLFQ_pick_loop (j # js) s = MLFQ_pick_loop js s" by (simp add: RR_pick_next_def)
    show ?thesis
    proof (cases "MLFQ_pick_loop js s")
      case None
      with Cons Nil show ?thesis unfolding e by simp
    next
      case (Some p)
      with Cons obtain xs i ys ps where "js = xs @ i # ys" "rq_list (k_rqs s ! i) = p # ps"
        "\<forall>i\<in>set xs. rq_list (k_rqs s ! i) = []" by auto
      then have "j # js = (j # xs) @ i # ys \<and> rq_list (k_rqs s ! i) = p # ps \<and>
          (\<forall>i\<in>set (j # xs). rq_list (k_rqs s ! i) = [])" using Nil by simp
      then show ?thesis unfolding e Some option.case by blast
    qed
  next
    case (Cons p ps)
    then have "MLFQ_pick_loop (j # js) s = Some p" by (simp add: RR_pick_next_def)
    moreover have "j # js = [] @ j # js" by simp
    ultimately show ?thesis using Cons by (auto intro!: exI [of _ "[]"])
  qed
qed simp

lemma MLFQ_target:
  assumes "rqs_inv s"
  shows "(case p_rq (k_procs s p) of None \<Rightarrow> 0
     | Some j \<Rightarrow> if p_time_slice (k_procs s p) = 0 then (if next_rq j s = 0 then j else next_rq j s) else 0)
    < length (k_rqs s)"
proof -
  have "0 < length (k_rqs s)" using rqs_inv_more(1) [OF assms] by simp
  then show ?thesis
    using rqs_inv_more(2) [OF assms, of p] by (auto simp: next_rq_def split: option.split)
qed

interpretation mlfq: scheduler MLFQ_schedule_class rqs_inv
proof
  fix s s' :: "'a kst_scheme" and p q :: nat
  show "k_rqs s' = k_rqs s \<Longrightarrow> \<forall>q. p_rq (k_procs s' q) = p_rq (k_procs s q) \<Longrightarrow> rqs_inv s \<Longrightarrow> rqs_inv s'"
    using rqs_inv_cong [of s' s] by simp
  show "k_rqs (cls_process_tick MLFQ_schedule_class 0 p s) = k_rqs s"
    "p_rq (k_procs (cls_process_tick MLFQ_schedule_class 0 p s) q) = p_rq (k_procs s q)"
    "same_core s (cls_process_tick MLFQ_schedule_class 0 p s)"
    "k_current (cls_process_tick MLFQ_schedule_class 0 p s) = k_current s"
    by (simp_all add: MLFQ_schedule_class_def MLFQ_process_tick_def RR_tick_simps)
  assume inv: "rqs_inv s"
  show "\<exists>s'. cls_enqueue MLFQ_schedule_class 0 p s = Some s' \<and> rqs_inv s' \<and>
      queued s' = insert p (queued s) \<and> same_core s s' \<and> k_current s' = k_current s" if "p \<notin> queued s"
    using RR_enqueue_spec [OF inv MLFQ_target [OF inv, of p] that] that
    by (auto simp: MLFQ_schedule_class_def MLFQ_enqueue_def run_linked_iff Let_def)
  show "\<exists>s'. cls_dequeue MLFQ_schedule_class 0 p s = Some s' \<and> rqs_inv s' \<and>
      queued s' = queued s - {p} \<and> same_core s s' \<and> k_current s' = k_current s" if "p \<in> queued s"
  proof -
    obtain i where "i < length (k_rqs s)" "p \<in> set (rq_list (k_rqs s ! i))" "p_rq (k_procs s p) = Some i"
      using queuedD [OF inv \<open>p \<in> queued s\<close>] by blast
    with RR_dequeue_spec [OF inv, of i p] that show ?thesis
      by (auto simp: MLFQ_schedule_class_def MLFQ_dequeue_def run_linked_iff)
  qed
  have pick: "cls_pick_next MLFQ_schedule_class 0 s = MLFQ_pick_loop [0..<length (k_rqs s)] s"
    by (simp add: MLFQ_schedule_class_def MLFQ_pick_next_def)
  note sp = MLFQ_pick_loop_spec [of "[0..<length (k_rqs s)]" s]
  show "queued s = {}" if "cls_pick_next MLFQ_schedule_class 0 s = None"
    using sp that unfolding pick by (auto simp: queued_def)
  show "p \<in> queued s" if "cls_pick_next MLFQ_schedule_class 0 s = Some p"
  proof -
    from sp that obtain xs j ys ps where j: "[0..<length (k_rqs s)] = xs @ j # ys"
      "rq_list (k_rqs s ! j) = p # ps" unfolding pick by auto
    from j(1) have "j \<in> set [0..<length (k_rqs s)]" by simp
    with j(2) show ?thesis by (auto simp: queued_def)
  qed
qed

section \<open>Timer arithmetic\<close>

text \<open>The timer list stores differences; \<open>due\<close> is the remaining time of each timer in list order.\<close>

fun due :: "nat \<Rightarrow> (nat \<Rightarrow> timer) \<Rightarrow> nat list \<Rightarrow> (nat \<times> nat) list" where
  "due acc tm [] = []"
| "due acc tm (t # ts) = (t, acc + tm_expires (tm t)) # due (acc + tm_expires (tm t)) tm ts"

lemma due_cong:
  "(\<And>t. t \<in> set ts \<Longrightarrow> tm_expires (tm' t) = tm_expires (tm t)) \<Longrightarrow> due acc tm' ts = due acc tm ts"
  by (induction ts arbitrary: acc) auto

lemma due_fst [simp]: "map fst (due acc tm ts) = ts"
  by (induction ts arbitrary: acc) auto

lemma due_ge: "(t, d) \<in> set (due acc tm ts) \<Longrightarrow> acc \<le> d"
proof (induction ts arbitrary: acc)
  case (Cons a ts)
  then show ?case by (auto dest: add_leD1)
qed simp

lemma timer_insert_spec:
  assumes "t \<notin> set es" "distinct es" "timer_insert t es tm = (tm', es')"
  shows "set es' = insert t (set es) \<and> distinct es' \<and>
    set (due acc tm' es') = insert (t, acc + tm_expires (tm t)) (set (due acc tm es)) \<and>
    (\<forall>e. e \<noteq> t \<and> e \<notin> set es \<longrightarrow> tm' e = tm e) \<and> (\<forall>e. tm_process (tm' e) = tm_process (tm e)) \<and>
    (0 < tm_expires (tm t) \<longrightarrow> (\<forall>h. es \<noteq> [] \<and> h = hd es \<longrightarrow> 0 < tm_expires (tm h)) \<longrightarrow>
       0 < tm_expires (tm' (hd es')))"
  using assms
proof (induction es arbitrary: tm tm' es' acc)
  case Nil
  then show ?case by auto
next
  case (Cons e es)
  show ?case
  proof (cases "tm_expires (tm t) < tm_expires (tm e)")
    case True
    then have r: "tm' = tm(e := (tm e)\<lparr>tm_expires := tm_expires (tm e) - tm_expires (tm t)\<rparr>)" "es' = t # e # es"
      using Cons.prems(3) by auto
    have d: "t \<notin> set es" "distinct es" "t \<noteq> e" "e \<notin> set es" using Cons.prems(1,2) by auto
    have tm': "tm' t = tm t" "tm_expires (tm' e) = tm_expires (tm e) - tm_expires (tm t)"
      "\<And>x. x \<noteq> e \<Longrightarrow> tm' x = tm x" "\<And>x. tm_process (tm' x) = tm_process (tm x)"
      using d(3) by (simp_all add: r(1))
    have "due a tm' es = due a tm es" for a
      using d(4) tm'(3) by (intro due_cong) metis
    with tm' True d show ?thesis unfolding r(2) by auto
  next
    case False
    let ?tm = "tm(t := (tm t)\<lparr>tm_expires := tm_expires (tm t) - tm_expires (tm e)\<rparr>)"
    obtain es1 where r: "timer_insert t es ?tm = (tm', es1)" "es' = e # es1"
      using Cons.prems(3) False by (auto split: prod.splits)
    have d: "t \<notin> set es" "distinct es" "t \<noteq> e" "e \<notin> set es" using Cons.prems(1,2) by auto
    note ih = Cons.IH [OF d(1,2) r(1), of "acc + tm_expires (tm e)"]
    have e: "tm' e = tm e" using ih d by auto
    have tm1: "due a ?tm es = due a tm es" "tm_expires (?tm t) = tm_expires (tm t) - tm_expires (tm e)"
      "\<And>x. x \<noteq> t \<Longrightarrow> ?tm x = tm x" "\<And>x. tm_process (?tm x) = tm_process (tm x)" for a
      using d(1) by (auto intro!: due_cong)
    note ih' = ih [unfolded tm1]
    have "acc + tm_expires (tm e) + (tm_expires (tm t) - tm_expires (tm e)) = acc + tm_expires (tm t)"
      using False by simp
    then have "set (due acc tm' es') = insert (t, acc + tm_expires (tm t)) (set (due acc tm (e # es)))"
      using ih' by (simp add: r(2) e insert_commute)
    moreover have "\<forall>x. x \<noteq> t \<and> x \<notin> set es \<longrightarrow> tm' x = tm x" using ih tm1(3) by auto
    ultimately show ?thesis using ih' d e unfolding r(2) by auto
  qed
qed

lemma due_append:
  "due acc tm (xs @ ys) = due acc tm xs @ due (acc + sum_list (map (\<lambda>t. tm_expires (tm t)) xs)) tm ys"
  by (induction xs arbitrary: acc) (simp_all add: add.assoc)

lemma due_filter: "t \<notin> set ts \<Longrightarrow> filter (\<lambda>(x, _). x \<noteq> t) (due acc tm ts) = due acc tm ts"
  by (induction ts arbitrary: acc) auto

lemma succ_in_split: "t \<notin> set xs \<Longrightarrow> succ_in t (xs @ t # ys) = (case ys of [] \<Rightarrow> None | n # _ \<Rightarrow> Some n)"
  by (induction xs) auto

lemma del_timer_spec:
  assumes "distinct (k_timers s)" "t \<in> set (k_timers s)"
  shows "k_timers (del_timer t s) = remove1 t (k_timers s)"
    "due 0 (k_timer (del_timer t s)) (k_timers (del_timer t s)) =
       filter (\<lambda>(x, _). x \<noteq> t) (due 0 (k_timer s) (k_timers s))"
    "\<And>q. tm_process (k_timer (del_timer t s) q) = tm_process (k_timer s q)"
    "k_procs (del_timer t s) = k_procs s" "k_rqs (del_timer t s) = k_rqs s"
    "k_current (del_timer t s) = k_current s" "k_idle (del_timer t s) = k_idle s"
proof -
  obtain xs ys where ts: "k_timers s = xs @ t # ys" "t \<notin> set xs" "t \<notin> set ys"
    using distinct_in_split [OF assms(2,1)] by blast
  let ?tm = "k_timer s" and ?tm' = "k_timer (del_timer t s)"
  show timers: "k_timers (del_timer t s) = remove1 t (k_timers s)"
    using assms(2) by (simp add: del_timer_def Let_def split: option.split)
  show "\<And>q. tm_process (?tm' q) = tm_process (?tm q)" "k_procs (del_timer t s) = k_procs s"
    "k_rqs (del_timer t s) = k_rqs s" "k_current (del_timer t s) = k_current s"
    "k_idle (del_timer t s) = k_idle s"
    by (simp_all add: del_timer_def Let_def split: option.split)
  have succ: "succ_in t (k_timers s) = (case ys of [] \<Rightarrow> None | n # _ \<Rightarrow> Some n)"
    unfolding ts(1) by (rule succ_in_split [OF ts(2)])
  have dist: "distinct (xs @ t # ys)" using assms(1) ts(1) by simp
  have new: "tm_expires (?tm' q) = tm_expires (?tm q) + (if ys \<noteq> [] \<and> q = hd ys then tm_expires (?tm t) else 0)" for q
    using assms(2) succ by (cases ys) (auto simp: del_timer_def)
  have "ys \<noteq> [] \<Longrightarrow> hd ys \<notin> set xs" using dist by (cases ys) auto
  then have pre: "due 0 ?tm' xs = due 0 ?tm xs" "map (\<lambda>t. tm_expires (?tm' t)) xs = map (\<lambda>t. tm_expires (?tm t)) xs"
    by (auto intro!: due_cong simp: new)
  have post: "due a ?tm' ys = due (a + tm_expires (?tm t)) ?tm ys" for a
  proof (cases ys)
    case (Cons n zs)
    have "due b ?tm' zs = due b ?tm zs" for b
      using dist Cons by (intro due_cong) (auto simp: new)
    then show ?thesis using Cons by (simp add: new ac_simps)
  qed simp
  show "due 0 ?tm' (k_timers (del_timer t s)) = filter (\<lambda>(x, _). x \<noteq> t) (due 0 ?tm (k_timers s))"
    unfolding timers ts(1) using ts(2,3) by (simp add: remove1_split due_append pre post due_filter)
qed

lemma due_tick:
  assumes "0 < tm_expires (tm t)" "t \<notin> set ts"
  shows "due 0 (tm(t := (tm t)\<lparr>tm_expires := tm_expires (tm t) - 1\<rparr>)) (t # ts) =
    map (\<lambda>(x, d). (x, d - 1)) (due 0 tm (t # ts))"
proof -
  let ?tm = "tm(t := (tm t)\<lparr>tm_expires := tm_expires (tm t) - 1\<rparr>)"
  have same: "due a ?tm ts = due a tm ts" for a using assms(2) by (intro due_cong) auto
  have shift: "0 < a \<Longrightarrow> due (a - 1) tm xs = map (\<lambda>(x, d). (x, d - 1)) (due a tm xs)" for a xs
  proof (induction xs arbitrary: a)
    case (Cons x xs)
    then have "a - 1 + tm_expires (tm x) = a + tm_expires (tm x) - 1" by simp
    with Cons.IH [of "a + tm_expires (tm x)"] Cons.prems show ?case by simp
  qed simp
  show ?thesis using shift [OF assms(1), of ts] by (simp add: same del: One_nat_def)
qed

lemma due_zero_prefix:
  "filter (\<lambda>(x, d). 0 < d) (due 0 tm ts) = due 0 tm (dropWhile (\<lambda>t. tm_expires (tm t) = 0) ts)"
  "{t. (t, 0) \<in> set (due 0 tm ts)} = set (takeWhile (\<lambda>t. tm_expires (tm t) = 0) ts)"
proof -
  have pos: "filter (\<lambda>(x, d). 0 < d) (due a tm xs) = due a tm xs" "(t, 0) \<notin> set (due a tm xs)"
    if "0 < a" for a t xs
    using that by (induction xs arbitrary: a) auto
  show "filter (\<lambda>(x, d). 0 < d) (due 0 tm ts) = due 0 tm (dropWhile (\<lambda>t. tm_expires (tm t) = 0) ts)"
    by (induction ts) (auto simp: pos)
  show "{t. (t, 0) \<in> set (due 0 tm ts)} = set (takeWhile (\<lambda>t. tm_expires (tm t) = 0) ts)"
  proof (induction ts)
    case (Cons a ts)
    show ?case
      using Cons pos(2) [of "tm_expires (tm a)" _ ts] by (cases "tm_expires (tm a) = 0") auto
  qed simp
qed

text \<open>A timer's process can be woken: it exists, is not a zombie and does not wait for an event that
  only its owner may signal.\<close>

definition wakeable :: "'a kst_scheme \<Rightarrow> nat \<Rightarrow> bool" where
  "wakeable s t \<longleftrightarrow> (\<exists>p. tm_process (k_timer s t) = Some p \<and> p_state (k_procs s p) \<noteq> STATE_ZOMBIE \<and>
     (p_wait_state (k_procs s p) \<noteq> 0 \<longrightarrow> p_wait_state (k_procs s p) AND WT_INTERRUPTED \<noteq> 0))"

definition timers_ok :: "'a kst_scheme \<Rightarrow> bool" where
  "timers_ok s \<longleftrightarrow> distinct (k_timers s) \<and> (\<forall>t\<in>set (k_timers s). wakeable s t) \<and>
     (k_timers s \<noteq> [] \<longrightarrow> 0 < tm_expires (k_timer s (hd (k_timers s))))"

context scheduler
begin

lemma run_expired_ok:
  assumes "sched_ok qinv s" "distinct (k_timers s)" "\<forall>t\<in>set (k_timers s). wakeable s t"
  shows "\<exists>s'. run_expired c (k_timers s) s = Some s' \<and> sched_ok qinv s' \<and> k_timer s' = k_timer s \<and>
    k_timers s' = dropWhile (\<lambda>t. tm_expires (k_timer s t) = 0) (k_timers s) \<and>
    (\<forall>t\<in>set (takeWhile (\<lambda>t. tm_expires (k_timer s t) = 0) (k_timers s)). \<forall>p.
       tm_process (k_timer s t) = Some p \<longrightarrow> p_state (k_procs s' p) = STATE_RUNNABLE) \<and>
    (\<forall>t. wakeable s t \<longrightarrow> wakeable s' t) \<and>
    (\<forall>p. p_state (k_procs s p) = STATE_RUNNABLE \<longrightarrow> p_state (k_procs s' p) = STATE_RUNNABLE) \<and>
    k_current s' = k_current s \<and> k_idle s' = k_idle s"
  using assms
proof (induction "k_timers s" arbitrary: s)
  case Nil
  then show ?case by (simp flip: Nil.hyps)
next
  case (Cons t ts)
  show ?case
  proof (cases "tm_expires (k_timer s t) = 0")
    case False
    then show ?thesis using Cons.prems by (simp flip: Cons.hyps(2))
  next
    case True
    from Cons.prems(3) Cons.hyps(2) have "wakeable s t" by (metis list.set_intros(1))
    then obtain p where p: "tm_process (k_timer s t) = Some p" "p_state (k_procs s p) \<noteq> STATE_ZOMBIE"
      "p_wait_state (k_procs s p) \<noteq> 0 \<longrightarrow> p_wait_state (k_procs s p) AND WT_INTERRUPTED \<noteq> 0"
      by (auto simp: wakeable_def)
    from wakeup_ok [OF Cons.prems(1) p(2)] obtain s1 where
      s1: "wakeup_process c p s = Some s1" "sched_ok qinv s1"
        "\<forall>q. p_state (k_procs s1 q) = (if q = p then STATE_RUNNABLE else p_state (k_procs s q))"
        "\<forall>q. p_wait_state (k_procs s1 q) =
          (if q = p \<and> p_state (k_procs s p) \<noteq> STATE_RUNNABLE then 0 else p_wait_state (k_procs s q))"
        "k_current s1 = k_current s" "k_idle s1 = k_idle s" "k_timer s1 = k_timer s"
        "k_timers s1 = k_timers s" by blast
    let ?s2 = "del_timer t s1"
    have s2: "?s2 = s1\<lparr>k_timers := ts\<rparr>"
      using True Cons.hyps(2) Cons.prems(2) s1(7,8) by (simp add: del_timer_def flip: Cons.hyps(2))
    have ok2: "sched_ok qinv ?s2" by (rule sched_ok_cong [OF s1(2)]) (simp_all add: s2)
    have d2: "distinct (k_timers ?s2)" using Cons.prems(2) by (simp add: s2 flip: Cons.hyps(2))
    have wk: "wakeable ?s2 t'" if "wakeable s t'" for t'
      using that s1(3,4) by (auto simp: wakeable_def s2 s1(7))
    have tm2: "k_timers ?s2 = ts" "k_timer ?s2 = k_timer s" "k_current ?s2 = k_current s" "k_idle ?s2 = k_idle s"
      by (simp_all add: s2 s1(5-7))
    have "\<forall>t\<in>set (k_timers ?s2). wakeable ?s2 t"
      using Cons.prems(3) wk by (simp add: tm2(1) flip: Cons.hyps(2))
    note IH = Cons.hyps(1) [OF tm2(1) [symmetric] ok2 d2 this, unfolded tm2]
    from IH obtain s' where
      s': "run_expired c ts ?s2 = Some s'" "sched_ok qinv s'" "k_timer s' = k_timer s"
        "k_timers s' = dropWhile (\<lambda>t. tm_expires (k_timer s t) = 0) ts"
        "\<forall>t\<in>set (takeWhile (\<lambda>t. tm_expires (k_timer s t) = 0) ts). \<forall>p.
           tm_process (k_timer s t) = Some p \<longrightarrow> p_state (k_procs s' p) = STATE_RUNNABLE"
        "\<forall>t. wakeable ?s2 t \<longrightarrow> wakeable s' t"
        "\<forall>p. p_state (k_procs ?s2 p) = STATE_RUNNABLE \<longrightarrow> p_state (k_procs s' p) = STATE_RUNNABLE"
        "k_current s' = k_current s" "k_idle s' = k_idle s" by blast
    have run: "run_expired c (k_timers s) s = Some s'"
      using True p s1(1) s'(1) by (simp flip: Cons.hyps(2))
    have pr: "p_state (k_procs s' p) = STATE_RUNNABLE" using s'(7) s1(3) by (simp add: s2)
    have mono: "\<forall>q. p_state (k_procs s q) = STATE_RUNNABLE \<longrightarrow> p_state (k_procs s' q) = STATE_RUNNABLE"
      using s'(7) s1(3) by (simp add: s2)
    moreover have "\<forall>t. wakeable s t \<longrightarrow> wakeable s' t" using wk s'(6) by blast
    ultimately show ?thesis
      using run s' pr True p(1) by (simp flip: Cons.hyps(2))
  qed
qed

lemma tick_same:
  "k_rqs (schedule_class_process_tick c p u) = k_rqs u"
  "p_rq (k_procs (schedule_class_process_tick c p u) q) = p_rq (k_procs u q)"
  "same_core u (schedule_class_process_tick c p u)"
  "k_current (schedule_class_process_tick c p u) = k_current u"
  using tick(1,2,4) [of p u] tick(3) [of u p]
  by (simp_all add: schedule_class_process_tick_def same_core_def)

lemmas tick_core = same_coreD [OF tick_same(3)]

lemma tick_sched_ok: "sched_ok qinv u \<Longrightarrow> sched_ok qinv (schedule_class_process_tick c p u)"
  by (erule sched_ok_cong) (simp_all add: tick_same(1,2,4) tick_core)

lemma tick_timers_ok: "timers_ok u \<Longrightarrow> timers_ok (schedule_class_process_tick c p u)"
  by (simp add: timers_ok_def wakeable_def tick_core)

text \<open>The part of the tick that concerns the timer list.\<close>

lemma timers_advance:
  assumes ok: "sched_ok qinv s" and tok: "timers_ok s" and ts: "k_timers s = t # ts"
  defines "s1 \<equiv> upd_timer t (\<lambda>tm. tm\<lparr>tm_expires := tm_expires tm - 1\<rparr>) s"
  shows "\<exists>s'. run_expired c (k_timers s1) s1 = Some s' \<and> sched_ok qinv s' \<and> timers_ok s' \<and>
    due 0 (k_timer s') (k_timers s') =
      map (\<lambda>(t, d). (t, d - 1)) (filter (\<lambda>(t, d). 1 < d) (due 0 (k_timer s) (k_timers s))) \<and>
    (\<forall>t p. (t, 1) \<in> set (due 0 (k_timer s) (k_timers s)) \<longrightarrow> tm_process (k_timer s t) = Some p \<longrightarrow>
       p_state (k_procs s' p) = STATE_RUNNABLE) \<and>
    (\<forall>p. p_state (k_procs s p) = STATE_RUNNABLE \<longrightarrow> p_state (k_procs s' p) = STATE_RUNNABLE) \<and>
    (\<forall>t. tm_process (k_timer s' t) = tm_process (k_timer s t))"
proof -
  have hd: "0 < tm_expires (k_timer s t)" "distinct (t # ts)"
    using tok ts by (simp_all add: timers_ok_def)
  have ok1: "sched_ok qinv s1" unfolding s1_def by (rule sched_ok_cong [OF ok]) simp_all
  have d1: "distinct (k_timers s1)" using hd(2) ts by (simp add: s1_def)
  have wk1: "wakeable s1 t' = wakeable s t'" for t' by (simp add: wakeable_def s1_def)
  have "\<forall>t\<in>set (k_timers s1). wakeable s1 t"
    using tok by (simp add: wk1 timers_ok_def) (simp add: s1_def)
  from run_expired_ok [OF ok1 d1 this] obtain s' where
    s': "run_expired c (k_timers s1) s1 = Some s'" "sched_ok qinv s'" "k_timer s' = k_timer s1"
      "k_timers s' = dropWhile (\<lambda>t. tm_expires (k_timer s1 t) = 0) (k_timers s1)"
      "\<forall>t\<in>set (takeWhile (\<lambda>t. tm_expires (k_timer s1 t) = 0) (k_timers s1)). \<forall>p.
         tm_process (k_timer s1 t) = Some p \<longrightarrow> p_state (k_procs s' p) = STATE_RUNNABLE"
      "\<forall>t. wakeable s1 t \<longrightarrow> wakeable s' t"
      "\<forall>p. p_state (k_procs s1 p) = STATE_RUNNABLE \<longrightarrow> p_state (k_procs s' p) = STATE_RUNNABLE"
    by blast
  have due1: "due 0 (k_timer s1) (k_timers s1) = map (\<lambda>(x, d). (x, d - 1)) (due 0 (k_timer s) (k_timers s))"
    using due_tick [where tm = "k_timer s" and t = t and ts = ts] hd ts by (simp add: s1_def)
  have "due 0 (k_timer s') (k_timers s') = filter (\<lambda>(x, d). 0 < d) (due 0 (k_timer s1) (k_timers s1))"
    unfolding s'(3,4) by (rule due_zero_prefix(1) [symmetric])
  also have "\<dots> = map (\<lambda>(t, d). (t, d - 1)) (filter (\<lambda>(t, d). 1 < d) (due 0 (k_timer s) (k_timers s)))"
    unfolding due1 by (simp add: filter_map comp_def case_prod_unfold)
  finally have due': "due 0 (k_timer s') (k_timers s') = \<dots>" .
  have fired: "p_state (k_procs s' p) = STATE_RUNNABLE"
    if "(t', 1) \<in> set (due 0 (k_timer s) (k_timers s))" "tm_process (k_timer s t') = Some p" for t' p
  proof -
    have "(t', 0) \<in> set (due 0 (k_timer s1) (k_timers s1))"
      unfolding due1 using that(1) by force
    then have "t' \<in> set (takeWhile (\<lambda>t. tm_expires (k_timer s1 t) = 0) (k_timers s1))"
      using due_zero_prefix(2) [of "k_timer s1" "k_timers s1"] by blast
    moreover have "tm_process (k_timer s1 t') = Some p" using that(2) by (cases "t' = t") (simp_all add: s1_def)
    ultimately show ?thesis using s'(5) by blast
  qed
  have "wakeable s' t'" if "t' \<in> set (k_timers s')" for t'
  proof -
    have "t' \<in> set (k_timers s)" using that set_dropWhileD unfolding s'(4) by (fastforce simp: s1_def)
    with tok wk1 s'(6) show ?thesis by (simp add: timers_ok_def)
  qed
  moreover have "0 < tm_expires (k_timer s' (hd (k_timers s')))" if "k_timers s' \<noteq> []"
    using that hd_dropWhile [of "\<lambda>t. tm_expires (k_timer s1 t) = 0" "k_timers s1"] by (simp add: s'(3,4))
  moreover have "distinct (k_timers s')" using d1 by (simp add: s'(4))
  ultimately have "timers_ok s'" by (simp add: timers_ok_def)
  moreover have "\<forall>p. p_state (k_procs s p) = STATE_RUNNABLE \<longrightarrow> p_state (k_procs s' p) = STATE_RUNNABLE"
    using s'(7) by (simp add: s1_def)
  moreover have "\<forall>t. tm_process (k_timer s' t) = tm_process (k_timer s t)"
    unfolding s'(3) by (simp add: s1_def)
  ultimately show ?thesis using s'(1,2) due' fired by blast
qed

lemma run_timer_list_ok:
  assumes ok: "sched_ok qinv s" and tok: "timers_ok s"
  shows "\<exists>s'. run_timer_list c s = Some s' \<and> sched_ok qinv s' \<and> timers_ok s' \<and>
    due 0 (k_timer s') (k_timers s') =
      map (\<lambda>(t, d). (t, d - 1)) (filter (\<lambda>(t, d). 1 < d) (due 0 (k_timer s) (k_timers s))) \<and>
    (\<forall>t p. (t, 1) \<in> set (due 0 (k_timer s) (k_timers s)) \<longrightarrow> tm_process (k_timer s t) = Some p \<longrightarrow>
       p_state (k_procs s' p) = STATE_RUNNABLE) \<and>
    (\<forall>p. p_state (k_procs s p) = STATE_RUNNABLE \<longrightarrow> p_state (k_procs s' p) = STATE_RUNNABLE) \<and>
    (\<forall>t. tm_process (k_timer s' t) = tm_process (k_timer s t))"
proof (cases "k_timers s")
  case Nil
  then have "run_timer_list c s = Some (schedule_class_process_tick c (k_current s) s)"
    by (simp add: run_timer_list_def)
  with tick_sched_ok [OF ok] tick_timers_ok [OF tok] Nil show ?thesis by (simp add: tick_core)
next
  case (Cons t ts)
  from timers_advance [OF ok tok Cons] obtain s' where
    s': "run_expired c (k_timers (upd_timer t (\<lambda>tm. tm\<lparr>tm_expires := tm_expires tm - 1\<rparr>) s))
        (upd_timer t (\<lambda>tm. tm\<lparr>tm_expires := tm_expires tm - 1\<rparr>) s) = Some s'" "sched_ok qinv s'" "timers_ok s'"
      "due 0 (k_timer s') (k_timers s') =
        map (\<lambda>(t, d). (t, d - 1)) (filter (\<lambda>(t, d). 1 < d) (due 0 (k_timer s) (k_timers s)))"
      "\<forall>t p. (t, 1) \<in> set (due 0 (k_timer s) (k_timers s)) \<longrightarrow> tm_process (k_timer s t) = Some p \<longrightarrow>
         p_state (k_procs s' p) = STATE_RUNNABLE"
      "\<forall>p. p_state (k_procs s p) = STATE_RUNNABLE \<longrightarrow> p_state (k_procs s' p) = STATE_RUNNABLE"
      "\<forall>t. tm_process (k_timer s' t) = tm_process (k_timer s t)"
    by blast
  have "tm_expires (k_timer s t) \<noteq> 0" using tok Cons by (simp add: timers_ok_def)
  then have "run_timer_list c s = Some (schedule_class_process_tick c (k_current s') s')"
    using s'(1) Cons by (simp add: run_timer_list_def)
  with tick_sched_ok [OF s'(2)] tick_timers_ok [OF s'(3)] s'(4-7) show ?thesis
    by (simp add: tick_core)
qed

end

section \<open>Runs of timer interrupts and reschedules\<close>

text \<open>The clock interrupt calls \<^verbatim>\<open>run_timer_list\<close>; on the way out of a trap, and wherever a process gives
  up the processor, \<^verbatim>\<open>schedule\<close> is called.  A run is any interleaving of the two.\<close>

datatype sched_event = Tick | Resched

fun sched_run :: "'a kst_scheme sched_class \<Rightarrow> sched_event list \<Rightarrow> 'a kst_scheme \<Rightarrow> 'a kst_scheme option" where
  "sched_run c [] s = Some s"
| "sched_run c (Tick # es) s = do { s1 \<leftarrow> run_timer_list c s; sched_run c es s1 }"
| "sched_run c (Resched # es) s = do { s1 \<leftarrow> schedule c s; sched_run c es s1 }"

abbreviation nticks :: "sched_event list \<Rightarrow> nat" where
  "nticks es \<equiv> length (filter (\<lambda>e. e = Tick) es)"

definition fires :: "'a kst_scheme \<Rightarrow> nat \<Rightarrow> nat \<Rightarrow> bool" where
  "fires s p d \<longleftrightarrow> (\<exists>t. (t, d) \<in> set (due 0 (k_timer s) (k_timers s)) \<and> tm_process (k_timer s t) = Some p)"

lemma due_pos:
  assumes "timers_ok s" "(t, d) \<in> set (due 0 (k_timer s) (k_timers s))"
  shows "0 < d"
proof (cases "k_timers s")
  case (Cons t' ts)
  then have "0 < tm_expires (k_timer s t')" using assms(1) by (simp add: timers_ok_def)
  with assms(2) Cons show ?thesis using due_ge [of t d "tm_expires (k_timer s t')" "k_timer s" ts] by auto
qed (use assms(2) in simp)

context scheduler
begin

lemma sched_run_ok:
  assumes "sched_ok qinv s" "timers_ok s"
  shows "\<exists>s'. sched_run c es s = Some s' \<and> sched_ok qinv s' \<and> timers_ok s' \<and>
    (\<forall>p d. fires s p d \<longrightarrow>
      (if d \<le> nticks es then p_state (k_procs s' p) = STATE_RUNNABLE else fires s' p (d - nticks es))) \<and>
    (\<forall>p. p_state (k_procs s p) = STATE_RUNNABLE \<longrightarrow> p_state (k_procs s' p) = STATE_RUNNABLE)"
  using assms
proof (induction es arbitrary: s)
  case Nil
  then show ?case by (auto simp: fires_def dest: due_pos)
next
  case (Cons e es)
  show ?case
  proof (cases e)
    case Tick
    from run_timer_list_ok [OF Cons.prems] obtain s1 where
      s1: "run_timer_list c s = Some s1" "sched_ok qinv s1" "timers_ok s1"
        "due 0 (k_timer s1) (k_timers s1) =
          map (\<lambda>(t, d). (t, d - 1)) (filter (\<lambda>(t, d). 1 < d) (due 0 (k_timer s) (k_timers s)))"
        "\<forall>t p. (t, 1) \<in> set (due 0 (k_timer s) (k_timers s)) \<longrightarrow> tm_process (k_timer s t) = Some p \<longrightarrow>
           p_state (k_procs s1 p) = STATE_RUNNABLE"
        "\<forall>p. p_state (k_procs s p) = STATE_RUNNABLE \<longrightarrow> p_state (k_procs s1 p) = STATE_RUNNABLE"
        "\<forall>t. tm_process (k_timer s1 t) = tm_process (k_timer s t)" by blast
    from Cons.IH [OF s1(2,3)] obtain s' where
      s': "sched_run c es s1 = Some s'" "sched_ok qinv s'" "timers_ok s'"
        "\<And>p d. fires s1 p d \<Longrightarrow>
          (if d \<le> nticks es then p_state (k_procs s' p) = STATE_RUNNABLE else fires s' p (d - nticks es))"
        "\<And>p. p_state (k_procs s1 p) = STATE_RUNNABLE \<Longrightarrow> p_state (k_procs s' p) = STATE_RUNNABLE" by blast
    have step: "p_state (k_procs s1 p) = STATE_RUNNABLE \<and> d = 1 \<or> fires s1 p (d - 1) \<and> 1 < d"
      if fr: "fires s p d" for p d
    proof -
      from fr obtain t where t: "(t, d) \<in> set (due 0 (k_timer s) (k_timers s))" "tm_process (k_timer s t) = Some p"
        unfolding fires_def by blast
      have "0 < d" using due_pos [OF Cons.prems(2) t(1)] .
      moreover have "fires s1 p (d - 1)" if "1 < d"
        unfolding fires_def s1(4) using t s1(7) that by force
      moreover have "p_state (k_procs s1 p) = STATE_RUNNABLE" if "d = 1"
        using t s1(5) that by blast
      ultimately show ?thesis by linarith
    qed
    have "if d \<le> nticks (e # es) then p_state (k_procs s' p) = STATE_RUNNABLE
        else fires s' p (d - nticks (e # es))" if "fires s p d" for p d
      using step [OF that] s'(4) [of p "d - 1"] s'(5) [of p] Tick by (auto split: if_splits)
    moreover have "sched_run c (e # es) s = Some s'" using s'(1) s1(1) Tick by simp
    ultimately show ?thesis using s'(2,3,5) s1(6) by blast
  next
    case Resched
    from schedule_ok [OF Cons.prems(1)] obtain s1 where
      s1: "schedule c s = Some s1" "sched_ok qinv s1" "\<forall>q. p_state (k_procs s1 q) = p_state (k_procs s q)"
        "k_timer s1 = k_timer s" "k_timers s1 = k_timers s"
        "\<forall>q. p_wait_state (k_procs s1 q) = p_wait_state (k_procs s q)" by blast
    have "timers_ok s1" using Cons.prems(2) s1(3-6) by (simp add: timers_ok_def wakeable_def)
    note IH = Cons.IH [OF s1(2) this]
    have fr: "fires s1 = fires s" using s1(4,5) by (intro ext) (simp add: fires_def)
    have run: "sched_run c (e # es) s = sched_run c es s1" "nticks (e # es) = nticks es"
      using s1(1) Resched by simp_all
    show ?thesis using IH unfolding run fr s1(3) [rule_format] .
  qed
qed

end

section \<open>A concrete machine\<close>

definition proc0 :: proc where
  "proc0 = \<lparr>p_state = STATE_UNINIT, p_pid = 0, p_runs = 0, p_need_resched = False, p_parent = None,
     p_mm = None, p_flags = 0, p_exit_code = 0, p_wait_state = 0, p_child = None, p_left = None,
     p_right = None, p_rq = None, p_time_slice = 0\<rparr>"

text \<open>A machine with the idle process 0 running, process 1 queued and process 2 asleep on a timer.\<close>

definition st0 :: "'a \<Rightarrow> 'a kst_scheme" where
  "st0 x = \<lparr>k_procs = (\<lambda>p. if p = 0 then proc0\<lparr>p_state := STATE_RUNNABLE\<rparr>
       else if p = 1 then proc0\<lparr>p_state := STATE_RUNNABLE, p_rq := Some 1, p_time_slice := 3\<rparr>
       else if p = 2 then proc0\<lparr>p_state := STATE_SLEEPING, p_wait_state := WT_TIMER\<rparr> else proc0),
     k_rqs = [\<lparr>rq_list = [], rq_count = 0, rq_max = 8\<rparr>, \<lparr>rq_list = [1], rq_count = 1, rq_max = 16\<rparr>],
     k_timer = (\<lambda>t. \<lparr>tm_expires = 5, tm_process = Some 2\<rparr>), k_timers = [7],
     k_current = 0, k_idle = 0, \<dots> = x\<rparr>"

lemma st0_queued: "queued (st0 x) = {1}"
  by (auto simp: queued_def st0_def less_Suc_eq)

lemma st0_ok: "sched_ok rqs_inv (st0 x)"
proof -
  have "rqs_inv (st0 x)"
    by (rule rqs_invI) (auto simp: st0_def less_Suc_eq proc0_def split: if_splits)
  moreover have "p \<in> queued (st0 x) \<longleftrightarrow> p_state (k_procs (st0 x) p) = STATE_RUNNABLE \<and> p \<noteq> k_current (st0 x) \<and> p \<noteq> k_idle (st0 x)"
    for p unfolding st0_queued by (simp add: st0_def proc0_def)
  ultimately show ?thesis by (simp add: sched_ok_def)
qed

lemma st0_timers_ok: "timers_ok (st0 x)"
  by (simp add: timers_ok_def wakeable_def st0_def proc0_def WT_TIMER_def WT_INTERRUPTED_def)

lemma st0_fires: "fires (st0 x) 2 5"
  by (simp add: fires_def st0_def)

section \<open>Properties\<close>

text \<open>C7: On the run queues of the multi-level feedback scheduler a reschedule never stops at an
  assertion, keeps the queues consistent (they hold exactly the runnable processes that are neither
  running nor idle, each on the queue its control block names), changes no process state, and runs a
  runnable process; the idle process runs only when no other process is runnable.\<close>

theorem schedule_runs_runnable:
  assumes "sched_ok rqs_inv s"
  shows "\<exists>s'. schedule MLFQ_schedule_class s = Some s' \<and> sched_ok rqs_inv s' \<and>
    (\<forall>q. p_state (k_procs s' q) = p_state (k_procs s q)) \<and>
    (k_current s' = k_idle s \<and> (\<forall>q. p_state (k_procs s q) = STATE_RUNNABLE \<longrightarrow> q = k_idle s) \<or>
     k_current s' \<noteq> k_idle s \<and> p_state (k_procs s (k_current s')) = STATE_RUNNABLE)"
  using mlfq.schedule_ok [OF assms] by blast

theorem schedule_runs_runnable_witness:
  "sched_ok rqs_inv (st0 ()) \<and> (\<exists>s'. schedule MLFQ_schedule_class (st0 ()) = Some s' \<and> k_current s' = 1)"
proof -
  from schedule_runs_runnable [OF st0_ok [of "()"]] obtain s' where
    s': "schedule MLFQ_schedule_class (st0 ()) = Some s'"
      "k_current s' = k_idle (st0 ()) \<and> (\<forall>q. p_state (k_procs (st0 ()) q) = STATE_RUNNABLE \<longrightarrow> q = k_idle (st0 ())) \<or>
       k_current s' \<noteq> k_idle (st0 ()) \<and> p_state (k_procs (st0 ()) (k_current s')) = STATE_RUNNABLE" by blast
  have "p_state (k_procs (st0 ()) 1) = STATE_RUNNABLE" "k_idle (st0 ()) = 0" by (simp_all add: st0_def)
  with s'(2) have "k_current s' \<noteq> 0 \<and> p_state (k_procs (st0 ()) (k_current s')) = STATE_RUNNABLE" by auto
  then have "k_current s' = 1" by (simp add: st0_def proc0_def split: if_splits)
  with s'(1) st0_ok [of "()"] show ?thesis by blast
qed

lemma MLFQ_enqueue_procs:
  assumes "MLFQ_enqueue i p s = Some s'"
  shows "q \<noteq> p \<Longrightarrow> k_procs s' q = k_procs s q"
    "k_procs s' p = (k_procs s p)\<lparr>p_rq := p_rq (k_procs s' p), p_time_slice := p_time_slice (k_procs s' p)\<rparr>"
  using assms by (auto simp: MLFQ_enqueue_def RR_enqueue_def upd_proc_def upd_rq_def kassert_def Let_def split: if_splits)

lemma wakeup_process_procs:
  assumes "wakeup_process MLFQ_schedule_class p s = Some s'"
  shows "q \<noteq> p \<Longrightarrow> k_procs s' q = k_procs s q"
    "k_procs s' p = (k_procs s p)\<lparr>p_state := STATE_RUNNABLE,
       p_wait_state := (if p_state (k_procs s p) = STATE_RUNNABLE then p_wait_state (k_procs s p) else 0),
       p_rq := p_rq (k_procs s' p), p_time_slice := p_time_slice (k_procs s' p)\<rparr>"
proof -
  let ?s1 = "upd_proc p (\<lambda>pr. pr\<lparr>p_state := STATE_RUNNABLE, p_wait_state := 0\<rparr>) s"
  consider "p_state (k_procs s p) = STATE_RUNNABLE" "s' = s"
    | "p_state (k_procs s p) \<noteq> STATE_RUNNABLE" "s' = ?s1"
    | "p_state (k_procs s p) \<noteq> STATE_RUNNABLE" "MLFQ_enqueue 0 p ?s1 = Some s'"
    using assms by (auto simp: wakeup_process_def schedule_class_enqueue_def MLFQ_schedule_class_def kassert_def Let_def split: if_splits)
  note cases = this
  show "q \<noteq> p \<Longrightarrow> k_procs s' q = k_procs s q"
    by (rule cases) (simp_all add: upd_proc_def MLFQ_enqueue_procs)
  show "k_procs s' p = (k_procs s p)\<lparr>p_state := STATE_RUNNABLE,
       p_wait_state := (if p_state (k_procs s p) = STATE_RUNNABLE then p_wait_state (k_procs s p) else 0),
       p_rq := p_rq (k_procs s' p), p_time_slice := p_time_slice (k_procs s' p)\<rparr>"
  proof (rule cases, goal_cases)
    case 3
    from MLFQ_enqueue_procs(2) [OF 3(2)] 3(1) show ?case by (simp add: upd_proc_def)
  qed (simp_all add: upd_proc_def)
qed

text \<open>C28: Waking a process that is not a zombie makes it runnable, resets what it was waiting for if it was
  not runnable already, and, unless it is the running or the idle process, puts it on a run queue.  Of
  its own record only the run queue and the time slice may change besides; the record of every
  other process, the other queue members, the timers and the running process are unchanged and the
  queues stay consistent, so no wakeup is lost.  Waking a zombie stops the machine.\<close>

theorem wakeup_not_lost:
  assumes "sched_ok rqs_inv s"
  shows "if p_state (k_procs s p) = STATE_ZOMBIE then wakeup_process MLFQ_schedule_class p s = None
    else \<exists>s'. wakeup_process MLFQ_schedule_class p s = Some s' \<and> sched_ok rqs_inv s' \<and>
      queued s' = (if p = k_current s \<or> p = k_idle s then queued s else insert p (queued s)) \<and>
      (\<forall>q. q \<noteq> p \<longrightarrow> k_procs s' q = k_procs s q) \<and>
      k_procs s' p = (k_procs s p)\<lparr>p_state := STATE_RUNNABLE,
        p_wait_state := (if p_state (k_procs s p) = STATE_RUNNABLE then p_wait_state (k_procs s p) else 0),
        p_rq := p_rq (k_procs s' p), p_time_slice := p_time_slice (k_procs s' p)\<rparr> \<and>
      k_current s' = k_current s \<and> k_idle s' = k_idle s \<and> k_timer s' = k_timer s \<and>
      k_timers s' = k_timers s \<and> kst.more s' = kst.more s"
proof (cases "p_state (k_procs s p) = STATE_ZOMBIE")
  case False
  from mlfq.wakeup_ok [OF assms False] obtain s' where
    s': "wakeup_process MLFQ_schedule_class p s = Some s'" "sched_ok rqs_inv s'"
      "\<forall>q. p_state (k_procs s' q) = (if q = p then STATE_RUNNABLE else p_state (k_procs s q))"
      "k_current s' = k_current s" "k_idle s' = k_idle s"
      "k_timer s' = k_timer s \<and> k_timers s' = k_timers s \<and> kst.more s' = kst.more s" by blast
  have "q \<in> queued s' \<longleftrightarrow> q \<in> (if p = k_current s \<or> p = k_idle s then queued s else insert p (queued s))" for q
    using mlfq.sched_okD(2) [OF s'(2), of q] mlfq.sched_okD(2) [OF assms, of q] s'(3-5) by simp
  then have "queued s' = (if p = k_current s \<or> p = k_idle s then queued s else insert p (queued s))" by blast
  with s' wakeup_process_procs [OF s'(1)] False show ?thesis by auto
qed (simp add: wakeup_process_def)

theorem wakeup_not_lost_witness:
  "sched_ok rqs_inv (st0 ()) \<and> (\<exists>s'. wakeup_process MLFQ_schedule_class 2 (st0 ()) = Some s' \<and> queued s' = {1, 2} \<and>
     p_state (k_procs s' 2) = STATE_RUNNABLE \<and> p_wait_state (k_procs s' 2) = 0 \<and>
     k_procs s' 1 = k_procs (st0 ()) 1)"
proof -
  have st: "p_state (k_procs (st0 ()) 2) = STATE_SLEEPING" "(2 :: nat) \<noteq> k_current (st0 ())" "2 \<noteq> k_idle (st0 ())"
    by (simp_all add: st0_def proc0_def)
  from wakeup_not_lost [OF st0_ok [of "()"], of 2] obtain s' where
    s': "wakeup_process MLFQ_schedule_class 2 (st0 ()) = Some s'" "queued s' = insert 2 {1}"
      "\<forall>q. q \<noteq> 2 \<longrightarrow> k_procs s' q = k_procs (st0 ()) q"
      "k_procs s' 2 = (k_procs (st0 ()) 2)\<lparr>p_state := STATE_RUNNABLE, p_wait_state := 0,
        p_rq := p_rq (k_procs s' 2), p_time_slice := p_time_slice (k_procs s' 2)\<rparr>"
    unfolding st0_queued using st by auto
  have "p_state (k_procs s' 2) = STATE_RUNNABLE" "p_wait_state (k_procs s' 2) = 0" by (subst s'(4), simp)+
  with s'(1-3) st0_ok [of "()"] show ?thesis by auto
qed

text \<open>The multi-level feedback queue picks the head of the first non-empty queue in order of time
  slice, and nothing exactly when every queue is empty.\<close>

lemma MLFQ_picks_first_queue:
  "case MLFQ_pick_next 0 s of
     None \<Rightarrow> \<forall>i<length (k_rqs s). rq_list (k_rqs s ! i) = []
   | Some p \<Rightarrow> \<exists>j<length (k_rqs s). (\<exists>ps. rq_list (k_rqs s ! j) = p # ps) \<and>
       (\<forall>i<j. rq_list (k_rqs s ! i) = [])"
proof (cases "MLFQ_pick_next 0 s")
  case None
  then show ?thesis
    using MLFQ_pick_loop_spec [of "[0..<length (k_rqs s)]" s] by (auto simp: MLFQ_pick_next_def)
next
  case (Some p)
  then obtain xs j ys ps where split: "[0..<length (k_rqs s)] = xs @ j # ys"
    and j: "rq_list (k_rqs s ! j) = p # ps" and xs: "\<forall>i\<in>set xs. rq_list (k_rqs s ! i) = []"
    using MLFQ_pick_loop_spec [of "[0..<length (k_rqs s)]" s] by (auto simp: MLFQ_pick_next_def)
  have len: "length xs < length (k_rqs s)" using arg_cong [OF split, of length] by simp
  then have "j = length xs" using arg_cong [OF split, of "\<lambda>l. l ! length xs"] by simp
  moreover have "xs = [0..<length xs]"
    using arg_cong [OF split, of "take (length xs)"] len by (simp add: take_upt)
  then have "set xs = {0..<length xs}" by (metis set_upt)
  ultimately show ?thesis using Some j xs len by auto
qed

lemma due_bound: "x \<in> set ts \<Longrightarrow> \<exists>d. (x, d) \<in> set (due a tm ts) \<and> tm_expires (tm x) \<le> d"
  by (induction ts arbitrary: a) fastforce+

text \<open>C29: The timer list holds relative expiry times; a timer is due at the sum of those up to it.  Inserting
  a timer makes it due at its own expiry time and leaves the time at which every other timer is due unchanged; deleting any
  timer of the list, also one due at the same time as its neighbours, removes it and leaves the times of
  the others and their order unchanged; deleting one that is not in the list does nothing.  Where the
  due times fit 32 bits, all relative times do afterwards, so the additions of the code do not wrap.\<close>

theorem timers_keep_due_times:
  assumes "distinct (k_timers s)" "t \<notin> set (k_timers s)" "0 < tm_expires (k_timer s t)"
    "tm_process (k_timer s t) \<noteq> None" "tm_expires (k_timer s t) < 2 ^ 32"
    "\<forall>(x, d)\<in>set (due 0 (k_timer s) (k_timers s)). d < 2 ^ 32"
  shows "(\<exists>s'. add_timer t s = Some s' \<and> distinct (k_timers s') \<and>
      set (due 0 (k_timer s') (k_timers s')) =
        insert (t, tm_expires (k_timer s t)) (set (due 0 (k_timer s) (k_timers s))) \<and>
      (\<forall>x\<in>set (k_timers s'). tm_expires (k_timer s' x) < 2 ^ 32)) \<and>
    (\<forall>u\<in>set (k_timers s). k_timers (del_timer u s) = remove1 u (k_timers s) \<and>
      due 0 (k_timer (del_timer u s)) (k_timers (del_timer u s)) =
        filter (\<lambda>(x, _). x \<noteq> u) (due 0 (k_timer s) (k_timers s)) \<and>
      (\<forall>x\<in>set (k_timers (del_timer u s)). tm_expires (k_timer (del_timer u s) x) < 2 ^ 32)) \<and>
    (\<forall>u. u \<notin> set (k_timers s) \<longrightarrow> del_timer u s = s)"
proof (intro conjI ballI allI impI)
  obtain tm ts where ins: "timer_insert t (k_timers s) (k_timer s) = (tm, ts)" by fastforce
  let ?s' = "s\<lparr>k_timer := tm, k_timers := ts\<rparr>"
  note spec = timer_insert_spec [OF assms(2,1) ins, of 0]
  have "add_timer t s = Some ?s'" using assms(2-4) ins by (simp add: add_timer_def)
  moreover have "tm_expires (tm x) < 2 ^ 32" if "x \<in> set ts" for x
    using due_bound [OF that, of 0 tm] spec assms(5,6) by fastforce
  ultimately show "\<exists>s'. add_timer t s = Some s' \<and> distinct (k_timers s') \<and>
      set (due 0 (k_timer s') (k_timers s')) =
        insert (t, tm_expires (k_timer s t)) (set (due 0 (k_timer s) (k_timers s))) \<and>
      (\<forall>x\<in>set (k_timers s'). tm_expires (k_timer s' x) < 2 ^ 32)"
    using spec by (intro exI [of _ ?s']) simp
next
  fix u x assume u: "u \<in> set (k_timers s)"
  note del = del_timer_spec [OF assms(1) u]
  show "k_timers (del_timer u s) = remove1 u (k_timers s)"
    "due 0 (k_timer (del_timer u s)) (k_timers (del_timer u s)) =
        filter (\<lambda>(x, _). x \<noteq> u) (due 0 (k_timer s) (k_timers s))" by (fact del)+
  assume x: "x \<in> set (k_timers (del_timer u s))"
  show "tm_expires (k_timer (del_timer u s) x) < 2 ^ 32"
    using due_bound [OF x, of 0 "k_timer (del_timer u s)"] assms(6) unfolding del(2) by fastforce
qed (simp add: del_timer_def)

theorem timers_keep_due_times_witness:
  "\<exists>s'. add_timer 8 ((st0 ())\<lparr>k_timers := [7, 9], k_timer := (k_timer (st0 ()))(9 := \<lparr>tm_expires = 0, tm_process = Some 2\<rparr>)\<rparr>) = Some s' \<and>
     set (due 0 (k_timer s') (k_timers s')) = {(7, 5), (9, 5), (8, 5)} \<and>
     due 0 (k_timer (del_timer 7 ((st0 ())\<lparr>k_timers := [7, 9], k_timer := (k_timer (st0 ()))(9 := \<lparr>tm_expires = 0, tm_process = Some 2\<rparr>)\<rparr>)))
       (k_timers (del_timer 7 ((st0 ())\<lparr>k_timers := [7, 9], k_timer := (k_timer (st0 ()))(9 := \<lparr>tm_expires = 0, tm_process = Some 2\<rparr>)\<rparr>))) = [(9, 5)]"
proof -
  let ?s = "(st0 ())\<lparr>k_timers := [7, 9], k_timer := (k_timer (st0 ()))(9 := \<lparr>tm_expires = 0, tm_process = Some 2\<rparr>)\<rparr>"
  have d: "distinct (k_timers ?s)" "8 \<notin> set (k_timers ?s)" "0 < tm_expires (k_timer ?s 8)"
    "tm_process (k_timer ?s 8) \<noteq> None" "tm_expires (k_timer ?s 8) < 2 ^ 32"
    "\<forall>(x, d)\<in>set (due 0 (k_timer ?s) (k_timers ?s)). d < 2 ^ 32" by (simp_all add: st0_def)
  have e: "due 0 (k_timer ?s) (k_timers ?s) = [(7, 5), (9, 5)]" "tm_expires (k_timer ?s 8) = 5" by (simp_all add: st0_def)
  have "7 \<in> set (k_timers ?s)" by simp
  with timers_keep_due_times [OF d] show ?thesis unfolding e by (auto simp: insert_commute)
qed

text \<open>C12: Along every interleaving of clock interrupts and reschedules no assertion fails, and a process
  whose timer is due in d ticks is runnable once d ticks have passed, while its timer stays pending
  with the remaining time before that.\<close>

theorem timers_fire_in_time:
  assumes "sched_ok rqs_inv s" "timers_ok s"
  shows "\<exists>s'. sched_run MLFQ_schedule_class es s = Some s' \<and> sched_ok rqs_inv s' \<and> timers_ok s' \<and>
    (\<forall>p d. fires s p d \<longrightarrow>
      (if d \<le> nticks es then p_state (k_procs s' p) = STATE_RUNNABLE else fires s' p (d - nticks es)))"
  using mlfq.sched_run_ok [OF assms, of es] by blast

theorem timers_fire_in_time_witness:
  "sched_ok rqs_inv (st0 ()) \<and> timers_ok (st0 ()) \<and> fires (st0 ()) 2 5 \<and>
   (\<exists>s'. sched_run MLFQ_schedule_class [Tick, Resched, Tick, Tick, Resched, Tick, Tick] (st0 ()) = Some s' \<and>
      p_state (k_procs s' 2) = STATE_RUNNABLE)"
proof -
  let ?es = "[Tick, Resched, Tick, Tick, Resched, Tick, Tick]"
  from timers_fire_in_time [OF st0_ok [of "()"] st0_timers_ok [of "()"], of ?es] obtain s' where
    "sched_run MLFQ_schedule_class ?es (st0 ()) = Some s'"
    "if (5::nat) \<le> nticks ?es then p_state (k_procs s' 2) = STATE_RUNNABLE else fires s' 2 (5 - nticks ?es)"
    using st0_fires [of "()"] by blast
  moreover have "(5::nat) \<le> nticks ?es" by simp
  ultimately show ?thesis using st0_ok [of "()"] st0_timers_ok [of "()"] st0_fires [of "()"] by auto
qed

end
