(* ===== verification/Sync.thy ===== *)
theory Sync
  imports Sched
begin

text \<open>
  Wait queues (\<^verbatim>\<open>src/kernel/sync/wait.c\<close>) and kernel semaphores
  (\<^verbatim>\<open>src/kernel/sync/semaphore.c\<close>).  The record \<open>sync\<close> extends the scheduler's state.
  A semaphore is named by its address and its wait queue by the same address; a freed
  semaphore is \<^const>\<open>None\<close>, so that an access through it stops the machine.  The
  \<^verbatim>\<open>Wait\<close> record of \<^verbatim>\<open>__down\<close> lives on the stack of the calling process and is named by
  that process.  \<^verbatim>\<open>__down\<close> gives up the processor in the middle: \<open>down_enter\<close> is the
  part up to the call of \<^verbatim>\<open>schedule\<close>, \<open>down_resume\<close> the part that runs when the process is
  scheduled again, and \<open>y_pc\<close> records which processes are in between.
\<close>

section \<open>State\<close>

record wait =
  wt_process :: "nat option"
  wt_flags :: u32
  wt_queue :: "u32 option"
  wt_linked :: bool

record sem =
  sem_value :: int
  sem_ref :: int

record sync = kst +
  y_wait :: "nat \<Rightarrow> wait"
  y_wq :: "u32 \<Rightarrow> nat list"
  y_sem :: "u32 \<Rightarrow> sem option"
  y_pc :: "nat \<Rightarrow> (u32 \<times> u32) option"

definition upd_wait :: "nat \<Rightarrow> (wait \<Rightarrow> wait) \<Rightarrow> 'a sync_scheme \<Rightarrow> 'a sync_scheme" where
  "upd_wait w f s = s\<lparr>y_wait := (y_wait s)(w := f (y_wait s w))\<rparr>"

definition upd_wq :: "u32 \<Rightarrow> (nat list \<Rightarrow> nat list) \<Rightarrow> 'a sync_scheme \<Rightarrow> 'a sync_scheme" where
  "upd_wq q f s = s\<lparr>y_wq := (y_wq s)(q := f (y_wq s q))\<rparr>"

definition set_sem :: "u32 \<Rightarrow> sem \<Rightarrow> 'a sync_scheme \<Rightarrow> 'a sync_scheme" where
  "set_sem m v s = s\<lparr>y_sem := (y_sem s)(m := Some v)\<rparr>"

section \<open>Wait queues\<close>

definition wait_init :: "nat \<Rightarrow> nat \<Rightarrow> 'a sync_scheme \<Rightarrow> 'a sync_scheme" where
  "wait_init w p s =
     upd_wait w (\<lambda>t. t\<lparr>wt_process := Some p, wt_flags := WT_INTERRUPTED, wt_linked := False\<rparr>) s"

definition wait_queue_init :: "u32 \<Rightarrow> 'a sync_scheme \<Rightarrow> 'a sync_scheme" where
  "wait_queue_init q s = upd_wq q (\<lambda>_. []) s"

definition wait_queue_add :: "u32 \<Rightarrow> nat \<Rightarrow> 'a sync_scheme \<Rightarrow> 'a sync_scheme option" where
  "wait_queue_add q w s = do {
     kassert (\<not> wt_linked (y_wait s w) \<and> wt_process (y_wait s w) \<noteq> None);
     let s1 = upd_wait w (\<lambda>t. t\<lparr>wt_queue := Some q\<rparr>) s;
     Some (upd_wq q (\<lambda>ws. ws @ [w]) (upd_wait w (\<lambda>t. t\<lparr>wt_linked := True\<rparr>) s1))
   }"

definition wait_queue_del :: "u32 \<Rightarrow> nat \<Rightarrow> 'a sync_scheme \<Rightarrow> 'a sync_scheme option" where
  "wait_queue_del q w s = do {
     kassert (wt_linked (y_wait s w) \<and> wt_queue (y_wait s w) = Some q);
     Some (upd_wq q (remove1 w) (upd_wait w (\<lambda>t. t\<lparr>wt_linked := False\<rparr>) s))
   }"

definition wait_queue_next :: "u32 \<Rightarrow> nat \<Rightarrow> 'a sync_scheme \<Rightarrow> nat option option" where
  "wait_queue_next q w s = do {
     kassert (wt_linked (y_wait s w) \<and> wt_queue (y_wait s w) = Some q);
     Some (succ_in w (y_wq s q))
   }"

definition wait_queue_prev :: "u32 \<Rightarrow> nat \<Rightarrow> 'a sync_scheme \<Rightarrow> nat option option" where
  "wait_queue_prev q w s = do {
     kassert (wt_linked (y_wait s w) \<and> wt_queue (y_wait s w) = Some q);
     Some (succ_in w (rev (y_wq s q)))
   }"

definition wait_queue_first :: "u32 \<Rightarrow> 'a sync_scheme \<Rightarrow> nat option" where
  "wait_queue_first q s = (case y_wq s q of [] \<Rightarrow> None | w # _ \<Rightarrow> Some w)"

definition wait_queue_last :: "u32 \<Rightarrow> 'a sync_scheme \<Rightarrow> nat option" where
  "wait_queue_last q s = (case rev (y_wq s q) of [] \<Rightarrow> None | w # _ \<Rightarrow> Some w)"

definition wait_queue_empty :: "u32 \<Rightarrow> 'a sync_scheme \<Rightarrow> bool" where
  "wait_queue_empty q s = (y_wq s q = [])"

definition wait_in_queue :: "nat \<Rightarrow> 'a sync_scheme \<Rightarrow> bool" where
  "wait_in_queue w s = wt_linked (y_wait s w)"

definition wakeup_wait ::
    "'a sync_scheme sched_class \<Rightarrow> u32 \<Rightarrow> nat \<Rightarrow> u32 \<Rightarrow> bool \<Rightarrow> 'a sync_scheme \<Rightarrow> 'a sync_scheme option" where
  "wakeup_wait c q w wakeup_flags del s = do {
     s1 \<leftarrow> (if del then wait_queue_del q w s else Some s);
     let s2 = upd_wait w (\<lambda>t. t\<lparr>wt_flags := wakeup_flags\<rparr>) s1;
     p \<leftarrow> wt_process (y_wait s2 w);
     wakeup_process c p s2
   }"

definition wakeup_first ::
    "'a sync_scheme sched_class \<Rightarrow> u32 \<Rightarrow> u32 \<Rightarrow> bool \<Rightarrow> 'a sync_scheme \<Rightarrow> 'a sync_scheme option" where
  "wakeup_first c q wakeup_flags del s =
     (case wait_queue_first q s of None \<Rightarrow> Some s | Some w \<Rightarrow> wakeup_wait c q w wakeup_flags del s)"

text \<open>The loops of \<^verbatim>\<open>wakeup_queue\<close>; one round per entry, so the length of the queue bounds them.\<close>

fun wakeup_del_loop ::
    "'a sync_scheme sched_class \<Rightarrow> u32 \<Rightarrow> u32 \<Rightarrow> nat \<Rightarrow> nat \<Rightarrow> 'a sync_scheme \<Rightarrow> 'a sync_scheme option" where
  "wakeup_del_loop c q fl 0 w s = None"
| "wakeup_del_loop c q fl (Suc n) w s = do {
     s1 \<leftarrow> wakeup_wait c q w fl True s;
     case wait_queue_first q s1 of None \<Rightarrow> Some s1 | Some w' \<Rightarrow> wakeup_del_loop c q fl n w' s1
   }"

fun wakeup_keep_loop ::
    "'a sync_scheme sched_class \<Rightarrow> u32 \<Rightarrow> u32 \<Rightarrow> nat \<Rightarrow> nat \<Rightarrow> 'a sync_scheme \<Rightarrow> 'a sync_scheme option" where
  "wakeup_keep_loop c q fl 0 w s = None"
| "wakeup_keep_loop c q fl (Suc n) w s = do {
     s1 \<leftarrow> wakeup_wait c q w fl False s;
     nxt \<leftarrow> wait_queue_next q w s1;
     case nxt of None \<Rightarrow> Some s1 | Some w' \<Rightarrow> wakeup_keep_loop c q fl n w' s1
   }"

definition wakeup_queue ::
    "'a sync_scheme sched_class \<Rightarrow> u32 \<Rightarrow> u32 \<Rightarrow> bool \<Rightarrow> 'a sync_scheme \<Rightarrow> 'a sync_scheme option" where
  "wakeup_queue c q wakeup_flags del s =
     (case wait_queue_first q s of
        None \<Rightarrow> Some s
      | Some w \<Rightarrow> (if del then wakeup_del_loop else wakeup_keep_loop) c q wakeup_flags (length (y_wq s q)) w s)"

definition wait_current_set :: "u32 \<Rightarrow> nat \<Rightarrow> u32 \<Rightarrow> 'a sync_scheme \<Rightarrow> 'a sync_scheme option" where
  "wait_current_set q w wait_state s =
     (let s1 = wait_init w (k_current s) s;
          s2 = upd_proc (k_current s1) (\<lambda>pr. pr\<lparr>p_state := STATE_SLEEPING\<rparr>) s1;
          s3 = upd_proc (k_current s2) (\<lambda>pr. pr\<lparr>p_wait_state := wait_state\<rparr>) s2
      in wait_queue_add q w s3)"

definition wait_current_del :: "u32 \<Rightarrow> nat \<Rightarrow> 'a sync_scheme \<Rightarrow> 'a sync_scheme option" where
  "wait_current_del q w s = (if wait_in_queue w s then wait_queue_del q w s else Some s)"

section \<open>Semaphores\<close>

definition sem_init :: "u32 \<Rightarrow> int \<Rightarrow> 'a sync_scheme \<Rightarrow> 'a sync_scheme" where
  "sem_init m val s = wait_queue_init m (set_sem m \<lparr>sem_value = val, sem_ref = 0\<rparr> s)"

definition sem_up :: "'a sync_scheme sched_class \<Rightarrow> u32 \<Rightarrow> u32 \<Rightarrow> 'a sync_scheme \<Rightarrow> 'a sync_scheme option" where
  "sem_up c m wait_state s = do {
     sm \<leftarrow> y_sem s m;
     case wait_queue_first m s of
       None \<Rightarrow> Some (set_sem m (sm\<lparr>sem_value := sem_value sm + 1\<rparr>) s)
     | Some w \<Rightarrow> do {
         p \<leftarrow> wt_process (y_wait s w);
         kassert (p_wait_state (k_procs s p) = wait_state);
         wakeup_wait c m w wait_state True s
       }
   }"

datatype down_result = DDone u32 | DBlocked

definition down_enter ::
    "'a sync_scheme sched_class \<Rightarrow> u32 \<Rightarrow> u32 \<Rightarrow> 'a sync_scheme \<Rightarrow> (down_result \<times> 'a sync_scheme) option" where
  "down_enter c m wait_state s = do {
     sm \<leftarrow> y_sem s m;
     if sem_value sm > 0 then Some (DDone 0, set_sem m (sm\<lparr>sem_value := sem_value sm - 1\<rparr>) s)
     else do {
       s1 \<leftarrow> wait_current_set m (k_current s) wait_state s;
       let s2 = s1\<lparr>y_pc := (y_pc s1)(k_current s1 := Some (m, wait_state))\<rparr>;
       s3 \<leftarrow> schedule c s2;
       Some (DBlocked, s3)
     }
   }"

definition down_resume :: "u32 \<Rightarrow> u32 \<Rightarrow> 'a sync_scheme \<Rightarrow> (u32 \<times> 'a sync_scheme) option" where
  "down_resume m wait_state s = do {
     let w = k_current s;
     s1 \<leftarrow> wait_current_del m w s;
     let s2 = s1\<lparr>y_pc := (y_pc s1)(w := None)\<rparr>;
     let fl = wt_flags (y_wait s2 w);
     Some (if fl \<noteq> wait_state then fl else 0, s2)
   }"

definition up :: "'a sync_scheme sched_class \<Rightarrow> u32 \<Rightarrow> 'a sync_scheme \<Rightarrow> 'a sync_scheme option" where
  "up c m s = sem_up c m WT_KSEM s"

text \<open>\<^verbatim>\<open>down\<close>, split like \<^verbatim>\<open>__down\<close>; the assertion follows whichever part completes.\<close>

definition down ::
    "'a sync_scheme sched_class \<Rightarrow> u32 \<Rightarrow> 'a sync_scheme \<Rightarrow> (down_result \<times> 'a sync_scheme) option" where
  "down c m s = do {
     (r, s1) \<leftarrow> down_enter c m WT_KSEM s;
     case r of DDone flags \<Rightarrow> do { kassert (flags = 0); Some (r, s1) } | DBlocked \<Rightarrow> Some (r, s1)
   }"

definition down_return :: "u32 \<Rightarrow> 'a sync_scheme \<Rightarrow> 'a sync_scheme option" where
  "down_return m s = do { (flags, s1) \<leftarrow> down_resume m WT_KSEM s; kassert (flags = 0); Some s1 }"

definition try_down :: "u32 \<Rightarrow> 'a sync_scheme \<Rightarrow> (bool \<times> 'a sync_scheme) option" where
  "try_down m s = do {
     sm \<leftarrow> y_sem s m;
     if sem_value sm > 0 then Some (True, set_sem m (sm\<lparr>sem_value := sem_value sm - 1\<rparr>) s)
     else Some (False, s)
   }"

definition user_sem_up :: "'a sync_scheme sched_class \<Rightarrow> u32 \<Rightarrow> 'a sync_scheme \<Rightarrow> 'a sync_scheme option" where
  "user_sem_up c m s = sem_up c m WT_USEM s"

definition user_sem_down ::
    "'a sync_scheme sched_class \<Rightarrow> u32 \<Rightarrow> 'a sync_scheme \<Rightarrow> (down_result \<times> 'a sync_scheme) option" where
  "user_sem_down c m s = do {
     (r, s1) \<leftarrow> down_enter c m WT_USEM s;
     case r of DDone flags \<Rightarrow> do { kassert (flags = 0 \<or> flags = WT_INTERRUPTED); Some (r, s1) }
             | DBlocked \<Rightarrow> Some (r, s1)
   }"

definition user_sem_down_return :: "u32 \<Rightarrow> 'a sync_scheme \<Rightarrow> 'a sync_scheme option" where
  "user_sem_down_return m s = do {
     (flags, s1) \<leftarrow> down_resume m WT_USEM s;
     kassert (flags = 0 \<or> flags = WT_INTERRUPTED);
     Some s1
   }"

section \<open>Access lemmas\<close>

lemma more_sync:
  assumes "kst.more s' = kst.more (s :: 'a sync_scheme)"
  shows "y_wait s' = y_wait s" "y_wq s' = y_wq s" "y_sem s' = y_sem s" "y_pc s' = y_pc s"
    "sync.more s' = sync.more s"
  using assms by (cases s, cases s', simp)+

lemma upd_proc_sync [simp]:
  "y_wait (upd_proc p f s) = y_wait s" "y_wq (upd_proc p f s) = y_wq s" "y_sem (upd_proc p f s) = y_sem s"
  "y_pc (upd_proc p f s) = y_pc s"
  by (simp_all add: upd_proc_def)

lemma upd_wait_simps [simp]:
  "y_wait (upd_wait w f s) = (y_wait s)(w := f (y_wait s w))" "y_wq (upd_wait w f s) = y_wq s"
  "y_sem (upd_wait w f s) = y_sem s" "y_pc (upd_wait w f s) = y_pc s"
  "k_procs (upd_wait w f s) = k_procs s" "k_rqs (upd_wait w f s) = k_rqs s"
  "k_current (upd_wait w f s) = k_current s" "k_idle (upd_wait w f s) = k_idle s"
  "k_timers (upd_wait w f s) = k_timers s" "k_timer (upd_wait w f s) = k_timer s"
  by (simp_all add: upd_wait_def)

lemma upd_wq_simps [simp]:
  "y_wait (upd_wq q g s) = y_wait s" "y_wq (upd_wq q g s) = (y_wq s)(q := g (y_wq s q))"
  "y_sem (upd_wq q g s) = y_sem s" "y_pc (upd_wq q g s) = y_pc s"
  "k_procs (upd_wq q g s) = k_procs s" "k_rqs (upd_wq q g s) = k_rqs s"
  "k_current (upd_wq q g s) = k_current s" "k_idle (upd_wq q g s) = k_idle s"
  "k_timers (upd_wq q g s) = k_timers s" "k_timer (upd_wq q g s) = k_timer s"
  by (simp_all add: upd_wq_def)

lemma set_sem_simps [simp]:
  "y_wait (set_sem m v s) = y_wait s" "y_wq (set_sem m v s) = y_wq s"
  "y_sem (set_sem m v s) = (y_sem s)(m := Some v)" "y_pc (set_sem m v s) = y_pc s"
  "k_procs (set_sem m v s) = k_procs s" "k_rqs (set_sem m v s) = k_rqs s"
  "k_current (set_sem m v s) = k_current s" "k_idle (set_sem m v s) = k_idle s"
  "k_timers (set_sem m v s) = k_timers s" "k_timer (set_sem m v s) = k_timer s"
  by (simp_all add: set_sem_def)

section \<open>A semaphore as a lock\<close>

text \<open>The steps of processes that use semaphore \<open>m\<close> as a lock.  Besides taking, waiting for and
  releasing the lock, the running process may be preempted at any time, may go to sleep for another
  reason while it holds or does not hold the lock, and any process that is not waiting for the lock
  may be woken.  The set \<open>I\<close> holds the processes that have returned from \<^verbatim>\<open>down\<close> and not yet called
  \<^verbatim>\<open>up\<close>.\<close>

inductive lock_step ::
    "'a sync_scheme sched_class \<Rightarrow> u32 \<Rightarrow> 'a sync_scheme \<times> nat set \<Rightarrow> 'a sync_scheme \<times> nat set \<Rightarrow> bool"
  for c :: "'a sync_scheme sched_class" and m :: u32 where
  take: "y_pc s (k_current s) = None \<Longrightarrow> k_current s \<notin> I \<Longrightarrow> k_current s \<noteq> k_idle s \<Longrightarrow>
    down c m s = Some (DDone f, s') \<Longrightarrow> lock_step c m (s, I) (s', insert (k_current s) I)"
| block: "y_pc s (k_current s) = None \<Longrightarrow> k_current s \<notin> I \<Longrightarrow> k_current s \<noteq> k_idle s \<Longrightarrow>
    down c m s = Some (DBlocked, s') \<Longrightarrow> lock_step c m (s, I) (s', I)"
| resume: "y_pc s (k_current s) \<noteq> None \<Longrightarrow>
    down_return m s = Some s' \<Longrightarrow> lock_step c m (s, I) (s', insert (k_current s) I)"
| release: "y_pc s (k_current s) = None \<Longrightarrow> k_current s \<in> I \<Longrightarrow>
    up c m s = Some s' \<Longrightarrow> lock_step c m (s, I) (s', I - {k_current s})"
| preempt: "schedule c s = Some s' \<Longrightarrow> lock_step c m (s, I) (s', I)"
| sleep: "y_pc s (k_current s) = None \<Longrightarrow> k_current s \<noteq> k_idle s \<Longrightarrow>
    schedule c (upd_proc (k_current s) (\<lambda>pr. pr\<lparr>p_state := STATE_SLEEPING, p_wait_state := ws\<rparr>) s) = Some s' \<Longrightarrow>
    lock_step c m (s, I) (s', I)"
| wake: "y_pc s q = None \<Longrightarrow> wakeup_process c q s = Some s' \<Longrightarrow> lock_step c m (s, I) (s', I)"

inductive lock_reach ::
    "'a sync_scheme sched_class \<Rightarrow> u32 \<Rightarrow> 'a sync_scheme \<Rightarrow> 'a sync_scheme \<times> nat set \<Rightarrow> bool"
  for c :: "'a sync_scheme sched_class" and m :: u32 and s0 :: "'a sync_scheme" where
  start: "lock_reach c m s0 (s0, {})"
| more: "lock_reach c m s0 a \<Longrightarrow> lock_step c m a b \<Longrightarrow> lock_reach c m s0 b"

text \<open>Processes that own the lock: inside, or handed the lock by \<^verbatim>\<open>up\<close> but not yet scheduled.\<close>

definition owners :: "u32 \<Rightarrow> 'a sync_scheme \<Rightarrow> nat set \<Rightarrow> nat set" where
  "owners m s I = I \<union> {p. y_pc s p \<noteq> None \<and> p \<notin> set (y_wq s m)}"

definition waiting :: "u32 \<Rightarrow> nat \<Rightarrow> 'a sync_scheme \<Rightarrow> bool" where
  "waiting m p s \<longleftrightarrow> y_pc s p = Some (m, WT_KSEM) \<and> wt_process (y_wait s p) = Some p \<and>
     wt_linked (y_wait s p) \<and> wt_queue (y_wait s p) = Some m \<and> p \<noteq> k_idle s \<and>
     p_state (k_procs s p) = STATE_SLEEPING \<and> p_wait_state (k_procs s p) = WT_KSEM"

definition handed :: "u32 \<Rightarrow> nat \<Rightarrow> 'a sync_scheme \<Rightarrow> bool" where
  "handed m p s \<longleftrightarrow> y_pc s p = Some (m, WT_KSEM) \<and> \<not> wt_linked (y_wait s p) \<and>
     wt_flags (y_wait s p) = WT_KSEM \<and> p_state (k_procs s p) = STATE_RUNNABLE"

definition lock_inv :: "('a sync_scheme \<Rightarrow> bool) \<Rightarrow> u32 \<Rightarrow> 'a sync_scheme \<Rightarrow> nat set \<Rightarrow> bool" where
  "lock_inv qinv m s I \<longleftrightarrow> sched_ok qinv s \<and>
     (k_current s = k_idle s \<or> p_state (k_procs s (k_current s)) = STATE_RUNNABLE) \<and>
     y_pc s (k_idle s) = None \<and> distinct (y_wq s m) \<and> (\<forall>p\<in>set (y_wq s m). waiting m p s) \<and>
     (\<forall>p. y_pc s p \<noteq> None \<and> p \<notin> set (y_wq s m) \<longrightarrow> handed m p s) \<and> (\<forall>p\<in>I. y_pc s p = None) \<and>
     finite (owners m s I) \<and>
     (\<exists>sm. y_sem s m = Some sm \<and> 0 \<le> sem_value sm \<and> sem_value sm + int (card (owners m s I)) = 1 \<and>
        (0 < sem_value sm \<longrightarrow> y_wq s m = []))"

lemma lock_invI:
  assumes "sched_ok qinv s" "k_current s = k_idle s \<or> p_state (k_procs s (k_current s)) = STATE_RUNNABLE"
    "y_pc s (k_idle s) = None" "distinct (y_wq s m)" "\<And>p. p \<in> set (y_wq s m) \<Longrightarrow> waiting m p s"
    "\<And>p. y_pc s p \<noteq> None \<Longrightarrow> p \<notin> set (y_wq s m) \<Longrightarrow> handed m p s" "\<And>p. p \<in> I \<Longrightarrow> y_pc s p = None"
    "finite (owners m s I)" "y_sem s m = Some sm" "0 \<le> sem_value sm"
    "sem_value sm + int (card (owners m s I)) = 1" "0 < sem_value sm \<Longrightarrow> y_wq s m = []"
  shows "lock_inv qinv m s I"
  unfolding lock_inv_def using assms by blast

lemma lock_invD:
  assumes "lock_inv qinv m s I"
  shows "sched_ok qinv s" "k_current s = k_idle s \<or> p_state (k_procs s (k_current s)) = STATE_RUNNABLE"
    "y_pc s (k_idle s) = None" "distinct (y_wq s m)" "\<And>p. p \<in> set (y_wq s m) \<Longrightarrow> waiting m p s"
    "\<And>p. y_pc s p \<noteq> None \<Longrightarrow> p \<notin> set (y_wq s m) \<Longrightarrow> handed m p s" "\<And>p. p \<in> I \<Longrightarrow> y_pc s p = None"
    "finite (owners m s I)"
  using assms unfolding lock_inv_def by blast+

lemma lock_inv_sem:
  assumes "lock_inv qinv m s I"
  obtains sm where "y_sem s m = Some sm" "0 \<le> sem_value sm"
    "sem_value sm + int (card (owners m s I)) = 1" "0 < sem_value sm \<longrightarrow> y_wq s m = []"
  using assms unfolding lock_inv_def by blast

lemma lock_inv_cong:
  assumes inv: "lock_inv qinv m s I" and ok: "sched_ok qinv s'"
    and cur: "k_current s' = k_idle s' \<or> p_state (k_procs s' (k_current s')) = STATE_RUNNABLE"
    and same: "k_idle s' = k_idle s" "y_pc s' = y_pc s" "y_wq s' = y_wq s" "y_sem s' = y_sem s" "y_wait s' = y_wait s"
    and pst: "\<And>p. y_pc s p \<noteq> None \<Longrightarrow> p_state (k_procs s' p) = p_state (k_procs s p) \<and>
      p_wait_state (k_procs s' p) = p_wait_state (k_procs s p)"
  shows "lock_inv qinv m s' I"
proof -
  from inv obtain sm where sm: "y_sem s m = Some sm" "0 \<le> sem_value sm"
    "sem_value sm + int (card (owners m s I)) = 1" "0 < sem_value sm \<longrightarrow> y_wq s m = []" by (rule lock_inv_sem)
  have ow: "owners m s' I = owners m s I" by (simp add: owners_def same)
  show ?thesis
  proof (rule lock_invI [OF ok cur])
    show "waiting m p s'" if "p \<in> set (y_wq s' m)" for p
      using lock_invD(5) [OF inv, of p] that pst [of p] by (simp add: waiting_def same)
    show "handed m p s'" if "y_pc s' p \<noteq> None" "p \<notin> set (y_wq s' m)" for p
      using lock_invD(6) [OF inv, of p] that pst [of p] by (simp add: handed_def same)
    show "y_sem s' m = Some sm" "0 < sem_value sm \<Longrightarrow> y_wq s' m = []" using sm by (simp_all add: same)
  qed (use lock_invD [OF inv] sm in \<open>simp_all add: ow same\<close>)
qed

lemma wait_current_set_eq:
  "wait_current_set q w ws s = Some
     (upd_wq q (\<lambda>l. l @ [w]) (upd_wait w (\<lambda>t. t\<lparr>wt_process := Some (k_current s), wt_flags := WT_INTERRUPTED,
        wt_queue := Some q, wt_linked := True\<rparr>)
       (upd_proc (k_current s) (\<lambda>pr. pr\<lparr>p_state := STATE_SLEEPING, p_wait_state := ws\<rparr>) s)))"
  by (simp add: wait_current_set_def wait_queue_add_def wait_init_def Let_def upd_wait_def upd_proc_def upd_wq_def)

definition blocked_state :: "u32 \<Rightarrow> 'a sync_scheme \<Rightarrow> 'a sync_scheme" where
  "blocked_state m s =
     (let s1 = the (wait_current_set m (k_current s) WT_KSEM s)
      in s1\<lparr>y_pc := (y_pc s1)(k_current s1 := Some (m, WT_KSEM))\<rparr>)"

lemma blocked_state_simps:
  "y_wq (blocked_state m s) = (y_wq s)(m := y_wq s m @ [k_current s])"
  "y_pc (blocked_state m s) = (y_pc s)(k_current s := Some (m, WT_KSEM))"
  "y_sem (blocked_state m s) = y_sem s" "k_idle (blocked_state m s) = k_idle s"
  "k_current (blocked_state m s) = k_current s"
  "y_wait (blocked_state m s) p = (if p = k_current s then (y_wait s p)\<lparr>wt_process := Some p,
     wt_flags := WT_INTERRUPTED, wt_queue := Some m, wt_linked := True\<rparr> else y_wait s p)"
  "p_state (k_procs (blocked_state m s) p) =
     (if p = k_current s then STATE_SLEEPING else p_state (k_procs s p))"
  "p_wait_state (k_procs (blocked_state m s) p) =
     (if p = k_current s then WT_KSEM else p_wait_state (k_procs s p))"
  by (simp_all add: blocked_state_def wait_current_set_eq Let_def)

lemma down_eq:
  "down c m s = (case y_sem s m of None \<Rightarrow> None | Some sm \<Rightarrow>
     if sem_value sm > 0 then Some (DDone 0, set_sem m (sm\<lparr>sem_value := sem_value sm - 1\<rparr>) s)
     else (case schedule c (blocked_state m s) of None \<Rightarrow> None | Some s' \<Rightarrow> Some (DBlocked, s')))"
  by (simp add: down_def down_enter_def blocked_state_def wait_current_set_eq Let_def split: option.split)

locale lock_scheduler = scheduler c qinv
  for c :: "'b sync_scheme sched_class" and qinv
begin

lemma sched_ok_sleep:
  assumes "sched_ok qinv s"
  shows "sched_ok qinv (upd_proc (k_current s) (\<lambda>pr. pr\<lparr>p_state := STATE_SLEEPING, p_wait_state := ws\<rparr>) s)"
    (is "sched_ok qinv ?s")
proof -
  have "qinv ?s" using qinv_cong [of ?s s] sched_okD(1) [OF assms] by simp
  moreover have "queued ?s = queued s" by (rule queued_cong) simp
  ultimately show ?thesis using sched_okD(2) [OF assms] by (auto simp: sched_ok_def)
qed

text \<open>Rescheduling, and sleeping for a reason other than the lock.\<close>

lemma preempt_inv:
  assumes "sched_ok qinv s" "schedule c s = Some s'"
    and "\<And>s'. sched_ok qinv s' \<Longrightarrow> y_wait s' = y_wait s \<Longrightarrow> y_wq s' = y_wq s \<Longrightarrow> y_sem s' = y_sem s \<Longrightarrow>
      y_pc s' = y_pc s \<Longrightarrow> k_idle s' = k_idle s \<Longrightarrow>
      k_current s' = k_idle s' \<or> p_state (k_procs s' (k_current s')) = STATE_RUNNABLE \<Longrightarrow>
      (\<And>q. p_state (k_procs s' q) = p_state (k_procs s q) \<and> p_wait_state (k_procs s' q) = p_wait_state (k_procs s q)) \<Longrightarrow>
      P s'"
  shows "P s'"
proof -
  from schedule_ok [OF assms(1)] assms(2) have f:
    "sched_ok qinv s'" "\<forall>q. p_state (k_procs s' q) = p_state (k_procs s q)"
    "k_current s' = k_idle s \<or> p_state (k_procs s (k_current s')) = STATE_RUNNABLE"
    "k_idle s' = k_idle s" "kst.more s' = kst.more s"
    "\<forall>q. p_wait_state (k_procs s' q) = p_wait_state (k_procs s q)" by auto
  note m = more_sync [OF f(5)]
  show ?thesis by (rule assms(3) [OF f(1) m(1-4) f(4)]) (use f(2,3,4,6) in simp_all)
qed

lemma lock_preempt:
  assumes "lock_inv qinv m s I" "schedule c s = Some s'"
  shows "lock_inv qinv m s' I"
  by (rule preempt_inv [OF lock_invD(1) [OF assms(1)] assms(2)], rule lock_inv_cong [OF assms(1)])
    (simp_all)

lemma lock_sleep:
  assumes inv: "lock_inv qinv m s I" and pc: "y_pc s (k_current s) = None"
    and sch: "schedule c (upd_proc (k_current s) (\<lambda>pr. pr\<lparr>p_state := STATE_SLEEPING, p_wait_state := ws\<rparr>) s) = Some s'"
  shows "lock_inv qinv m s' I"
  by (rule preempt_inv [OF sched_ok_sleep [OF lock_invD(1) [OF inv]] sch], rule lock_inv_cong [OF inv])
    (use pc in \<open>auto\<close>)

lemma lock_wake:
  assumes inv: "lock_inv qinv m s I" and pc: "y_pc s q = None" and w: "wakeup_process c q s = Some s'"
  shows "lock_inv qinv m s' I"
proof -
  have "p_state (k_procs s q) \<noteq> STATE_ZOMBIE" using w by (auto simp: wakeup_process_def)
  from wakeup_ok [OF lock_invD(1) [OF inv] this] w have
    s': "sched_ok qinv s'" "\<And>p. p_state (k_procs s' p) = (if p = q then STATE_RUNNABLE else p_state (k_procs s p))"
      "\<And>p. p_wait_state (k_procs s' p) =
         (if p = q \<and> p_state (k_procs s q) \<noteq> STATE_RUNNABLE then 0 else p_wait_state (k_procs s p))"
      "k_current s' = k_current s" "k_idle s' = k_idle s" "kst.more s' = kst.more s" by auto
  note same = more_sync [OF s'(6)]
  show ?thesis
    by (rule lock_inv_cong [OF inv s'(1)])
      (use lock_invD(2) [OF inv] s'(2-5) pc in \<open>auto simp: same\<close>)
qed

text \<open>Taking a free lock, and queueing up for a taken one.\<close>

lemma sched_ok_sync:
  "sched_ok qinv s \<Longrightarrow> sched_ok qinv (set_sem m v s)"
  "sched_ok qinv s \<Longrightarrow> sched_ok qinv (upd_wait w f s)"
  "sched_ok qinv s \<Longrightarrow> sched_ok qinv (upd_wq q g s)"
  "sched_ok qinv s \<Longrightarrow> sched_ok qinv (s\<lparr>y_pc := pc\<rparr>)"
  by (erule sched_ok_cong, simp_all)+

lemma lock_take:
  assumes inv: "lock_inv qinv m s I" and pc: "y_pc s (k_current s) = None" and nI: "k_current s \<notin> I"
    and d: "down c m s = Some (DDone f, s')"
  shows "lock_inv qinv m s' (insert (k_current s) I)"
proof -
  from inv obtain sm where sm: "y_sem s m = Some sm" "0 \<le> sem_value sm"
    "sem_value sm + int (card (owners m s I)) = 1" "0 < sem_value sm \<longrightarrow> y_wq s m = []" by (rule lock_inv_sem)
  have v: "0 < sem_value sm" and s': "s' = set_sem m (sm\<lparr>sem_value := sem_value sm - 1\<rparr>) s"
    using d sm(1) by (simp_all add: down_eq split: if_splits option.splits)
  have ow: "owners m s' (insert (k_current s) I) = insert (k_current s) (owners m s I)"
    "k_current s \<notin> owners m s I" using pc nI by (auto simp: owners_def s')
  have I': "y_pc s p = None" if "p \<in> insert (k_current s) I" for p
    using that pc lock_invD(7) [OF inv] by auto
  show ?thesis
  proof (rule lock_invI)
    show "sched_ok qinv s'" unfolding s' by (rule sched_ok_sync(1) [OF lock_invD(1) [OF inv]])
    show "waiting m p s'" if "p \<in> set (y_wq s' m)" for p
      using lock_invD(5) [OF inv, of p] that by (simp add: waiting_def s')
    show "handed m p s'" if "y_pc s' p \<noteq> None" "p \<notin> set (y_wq s' m)" for p
      using lock_invD(6) [OF inv, of p] that by (simp add: handed_def s')
    show "finite (owners m s' (insert (k_current s) I))" using lock_invD(8) [OF inv] by (simp add: ow)
    show "y_sem s' m = Some (sm\<lparr>sem_value := sem_value sm - 1\<rparr>)" by (simp add: s')
    show "sem_value (sm\<lparr>sem_value := sem_value sm - 1\<rparr>) + int (card (owners m s' (insert (k_current s) I))) = 1"
      using sm(3) ow(2) lock_invD(8) [OF inv] by (simp add: ow(1))
    show "y_wq s' m = []" if "0 < sem_value (sm\<lparr>sem_value := sem_value sm - 1\<rparr>)"
      using sm(4) v by (simp add: s')
  qed (use I' v lock_invD [OF inv] in \<open>simp_all add: s'\<close>)
qed

lemma blocked_sched_ok: "sched_ok qinv s \<Longrightarrow> sched_ok qinv (blocked_state m s)"
  unfolding blocked_state_def wait_current_set_eq Let_def option.sel
  by (intro sched_ok_sync sched_ok_sleep)

lemma lock_block:
  assumes inv: "lock_inv qinv m s I" and pc: "y_pc s (k_current s) = None" and nI: "k_current s \<notin> I"
    and nidle: "k_current s \<noteq> k_idle s" and d: "down c m s = Some (DBlocked, s')"
  shows "lock_inv qinv m s' I"
proof -
  from inv obtain sm where sm: "y_sem s m = Some sm" "0 \<le> sem_value sm"
    "sem_value sm + int (card (owners m s I)) = 1" "0 < sem_value sm \<longrightarrow> y_wq s m = []" by (rule lock_inv_sem)
  have v: "\<not> 0 < sem_value sm" and sch: "schedule c (blocked_state m s) = Some s'"
    using d sm(1) by (simp_all add: down_eq split: if_splits option.splits)
  let ?b = "blocked_state m s"
  have nq: "k_current s \<notin> set (y_wq s m)" using pc lock_invD(5) [OF inv, of "k_current s"] by (auto simp: waiting_def)
  show ?thesis
  proof (rule preempt_inv [OF blocked_sched_ok [OF lock_invD(1) [OF inv]] sch])
    fix t assume t: "sched_ok qinv t" "y_wait t = y_wait ?b" "y_wq t = y_wq ?b" "y_sem t = y_sem ?b"
      "y_pc t = y_pc ?b" "k_idle t = k_idle ?b" "k_current t = k_idle t \<or> p_state (k_procs t (k_current t)) = STATE_RUNNABLE"
      "\<And>q. p_state (k_procs t q) = p_state (k_procs ?b q) \<and> p_wait_state (k_procs t q) = p_wait_state (k_procs ?b q)"
    note b = t(2-6) t(8) [THEN conjunct1] t(8) [THEN conjunct2] blocked_state_simps
    have ow: "owners m t I = owners m s I" using pc nq by (auto simp: owners_def b)
    show "lock_inv qinv m t I"
    proof (rule lock_invI [OF t(1,7)])
      show "waiting m p t" if "p \<in> set (y_wq t m)" for p
        using lock_invD(5) [OF inv, of p] that nidle by (auto simp: waiting_def b)
      show "handed m p t" if "y_pc t p \<noteq> None" "p \<notin> set (y_wq t m)" for p
        using lock_invD(6) [OF inv, of p] that by (auto simp: handed_def b split: if_splits)
      show "y_sem t m = Some sm" using sm(1) by (simp add: b)
      show "y_pc t p = None" if "p \<in> I" for p using that nI lock_invD(7) [OF inv that] by (auto simp: b)
    qed (use lock_invD [OF inv] sm v nidle nq in \<open>simp_all add: b ow\<close>)
  qed
qed

text \<open>Returning from \<^verbatim>\<open>down\<close> after having been handed the lock.\<close>

lemma resume_eq:
  assumes inv: "lock_inv qinv m s I" and pc: "y_pc s (k_current s) \<noteq> None"
  shows "k_current s \<notin> set (y_wq s m)" "handed m (k_current s) s"
    "down_return m s = Some (s\<lparr>y_pc := (y_pc s)(k_current s := None)\<rparr>)"
proof -
  show nq: "k_current s \<notin> set (y_wq s m)"
    using lock_invD(2) [OF inv] lock_invD(5) [OF inv, of "k_current s"] by (auto simp: waiting_def)
  show "handed m (k_current s) s" by (rule lock_invD(6) [OF inv pc nq])
  then show "down_return m s = Some (s\<lparr>y_pc := (y_pc s)(k_current s := None)\<rparr>)"
    by (simp add: handed_def down_return_def down_resume_def wait_current_del_def wait_in_queue_def Let_def)
qed

lemma lock_resume:
  assumes inv: "lock_inv qinv m s I" and pc: "y_pc s (k_current s) \<noteq> None" and d: "down_return m s = Some s'"
  shows "lock_inv qinv m s' (insert (k_current s) I)"
proof -
  from inv obtain sm where sm: "y_sem s m = Some sm" "0 \<le> sem_value sm"
    "sem_value sm + int (card (owners m s I)) = 1" "0 < sem_value sm \<longrightarrow> y_wq s m = []" by (rule lock_inv_sem)
  note r = resume_eq [OF inv pc]
  have s': "s' = s\<lparr>y_pc := (y_pc s)(k_current s := None)\<rparr>" using d r(3) by simp
  have ow: "owners m s' (insert (k_current s) I) = owners m s I"
    using pc r(1) by (auto simp: owners_def s')
  show ?thesis
  proof (rule lock_invI)
    show "sched_ok qinv s'" unfolding s' by (rule sched_ok_sync(4) [OF lock_invD(1) [OF inv]])
    show "waiting m p s'" if "p \<in> set (y_wq s' m)" for p
      using lock_invD(5) [OF inv, of p] that r(1) by (auto simp: waiting_def s')
    show "handed m p s'" if "y_pc s' p \<noteq> None" "p \<notin> set (y_wq s' m)" for p
      using lock_invD(6) [OF inv, of p] that by (auto simp: handed_def s' split: if_splits)
    show "y_sem s' m = Some sm" using sm(1) by (simp add: s')
    show "y_pc s' p = None" if "p \<in> insert (k_current s) I" for p
      using that lock_invD(7) [OF inv, of p] by (auto simp: s')
  qed (use lock_invD [OF inv] sm in \<open>simp_all add: s' ow [unfolded s']\<close>)
qed

text \<open>Releasing: with nobody waiting the value becomes 1, otherwise the first waiter owns the lock.\<close>

lemma release_value:
  assumes inv: "lock_inv qinv m s I" and pI: "k_current s \<in> I" and nil: "y_wq s m = []"
    and sm: "y_sem s m = Some sm"
  shows "lock_inv qinv m (set_sem m (sm\<lparr>sem_value := sem_value sm + 1\<rparr>) s) (I - {k_current s})"
    (is "lock_inv qinv m ?s ?I")
proof -
  from inv obtain sm' where "y_sem s m = Some sm'" "0 \<le> sem_value sm'"
    "sem_value sm' + int (card (owners m s I)) = 1" "0 < sem_value sm' \<longrightarrow> y_wq s m = []" by (rule lock_inv_sem)
  then have v: "0 \<le> sem_value sm" "sem_value sm + int (card (owners m s I)) = 1" using sm by simp_all
  have pc: "y_pc s (k_current s) = None" by (rule lock_invD(7) [OF inv pI])
  have ow: "owners m ?s ?I = owners m s I - {k_current s}" "k_current s \<in> owners m s I"
    using pI pc by (auto simp: owners_def)
  show ?thesis
  proof (rule lock_invI)
    show "sched_ok qinv ?s" by (rule sched_ok_sync(1) [OF lock_invD(1) [OF inv]])
    show "waiting m p ?s" if "p \<in> set (y_wq ?s m)" for p using that nil by simp
    show "handed m p ?s" if "y_pc ?s p \<noteq> None" "p \<notin> set (y_wq ?s m)" for p
      using lock_invD(6) [OF inv, of p] that by (simp add: handed_def)
    show "y_sem ?s m = Some (sm\<lparr>sem_value := sem_value sm + 1\<rparr>)" by simp
    show "sem_value (sm\<lparr>sem_value := sem_value sm + 1\<rparr>) + int (card (owners m ?s ?I)) = 1"
      using v(2) ow(2) lock_invD(8) [OF inv] card_Suc_Diff1 [OF lock_invD(8) [OF inv] ow(2)]
      unfolding ow(1) by simp
  qed (use lock_invD [OF inv] v nil in \<open>simp_all add: ow\<close>)
qed

lemma release_handover:
  assumes inv: "lock_inv qinv m s I" and pI: "k_current s \<in> I" and q: "y_wq s m = w # ws"
  shows "\<exists>s'. up c m s = Some s' \<and> lock_inv qinv m s' (I - {k_current s})"
proof -
  from inv obtain sm where sm: "y_sem s m = Some sm" "0 \<le> sem_value sm"
    "sem_value sm + int (card (owners m s I)) = 1" "0 < sem_value sm \<longrightarrow> y_wq s m = []" by (rule lock_inv_sem)
  have v0: "sem_value sm = 0" using sm q by auto
  have w: "waiting m w s" using lock_invD(5) [OF inv, of w] q by simp
  let ?s1 = "upd_wait w (\<lambda>t. t\<lparr>wt_flags := WT_KSEM\<rparr>)
    (upd_wq m (remove1 w) (upd_wait w (\<lambda>t. t\<lparr>wt_linked := False\<rparr>) s))"
  have ok1: "sched_ok qinv ?s1" by (intro sched_ok_sync lock_invD(1) [OF inv])
  have nz: "p_state (k_procs ?s1 w) \<noteq> STATE_ZOMBIE" using w by (simp add: waiting_def)
  have up: "up c m s = wakeup_process c w ?s1"
    using w q sm(1) by (simp add: up_def sem_up_def wait_queue_first_def wakeup_wait_def wait_queue_del_def waiting_def)
  from wakeup_ok [OF ok1 nz] obtain s' where
    s': "wakeup_process c w ?s1 = Some s'" "sched_ok qinv s'"
      "\<And>p. p_state (k_procs s' p) = (if p = w then STATE_RUNNABLE else p_state (k_procs s p))"
      "\<And>p. p \<noteq> w \<Longrightarrow> p_wait_state (k_procs s' p) = p_wait_state (k_procs s p)"
      "k_current s' = k_current s" "k_idle s' = k_idle s" "kst.more s' = kst.more ?s1" by auto
  have y: "y_wq s' m = ws" "y_pc s' = y_pc s" "y_sem s' = y_sem s"
    "\<And>p. p \<noteq> w \<Longrightarrow> y_wait s' p = y_wait s p"
    "y_wait s' w = (y_wait s w)\<lparr>wt_linked := False, wt_flags := WT_KSEM\<rparr>"
    using more_sync [OF s'(7)] q by simp_all
  have dist: "distinct (w # ws)" using lock_invD(4) [OF inv] q by simp
  have pc: "y_pc s (k_current s) = None" by (rule lock_invD(7) [OF inv pI])
  have "w \<notin> I" using lock_invD(7) [OF inv, of w] w by (auto simp: waiting_def)
  then have nw: "w \<notin> owners m s I" "k_current s \<in> owners m s I" "w \<noteq> k_current s"
    using pI pc w q by (auto simp: owners_def waiting_def)
  have ow: "owners m s' (I - {k_current s}) = insert w (owners m s I - {k_current s})"
    using w pc q dist nw(3) by (auto simp: owners_def y waiting_def)
  have fin: "finite (owners m s I)" by (rule lock_invD(8) [OF inv])
  have card: "card (owners m s' (I - {k_current s})) = card (owners m s I)"
    unfolding ow using fin nw card_Suc_Diff1 [OF fin nw(2)] by simp
  have "lock_inv qinv m s' (I - {k_current s})"
  proof (rule lock_invI [OF s'(2)])
    show "waiting m p s'" if "p \<in> set (y_wq s' m)" for p
    proof -
      have "p \<noteq> w" "p \<in> set (y_wq s m)" using that dist q by (auto simp: y)
      then show ?thesis using lock_invD(5) [OF inv, of p] by (simp add: waiting_def y s'(3-6))
    qed
    show "handed m p s'" if "y_pc s' p \<noteq> None" "p \<notin> set (y_wq s' m)" for p
    proof (cases "p = w")
      case True
      then show ?thesis using w by (simp add: handed_def waiting_def y s'(3))
    next
      case False
      then have "handed m p s" using lock_invD(6) [OF inv, of p] that q by (simp add: y)
      with False show ?thesis by (simp add: handed_def y s'(3))
    qed
    show "y_sem s' m = Some sm" using sm(1) by (simp add: y)
    show "finite (owners m s' (I - {k_current s}))" using fin by (simp add: ow)
  qed (use lock_invD [OF inv] sm(2,3) v0 dist in \<open>auto simp: card y s'(3,5,6)\<close>)
  with s'(1) up show ?thesis by auto
qed

lemma release_ok:
  assumes inv: "lock_inv qinv m s I" and pI: "k_current s \<in> I"
  shows "\<exists>s'. up c m s = Some s' \<and> lock_inv qinv m s' (I - {k_current s})"
proof (cases "y_wq s m")
  case Nil
  from inv obtain sm where sm: "y_sem s m = Some sm" by (rule lock_inv_sem)
  have "up c m s = Some (set_sem m (sm\<lparr>sem_value := sem_value sm + 1\<rparr>) s)"
    using sm Nil by (simp add: up_def sem_up_def wait_queue_first_def)
  with release_value [OF inv pI Nil sm] show ?thesis by blast
next
  case (Cons w ws)
  from release_handover [OF inv pI this] show ?thesis .
qed

lemma lock_step_inv: "lock_step c m (s, I) (s', I') \<Longrightarrow> lock_inv qinv m s I \<Longrightarrow> lock_inv qinv m s' I'"
proof (induction "(s, I)" "(s', I')" rule: lock_step.induct)
  case release
  then show ?case using release_ok by fastforce
qed (blast intro: lock_take lock_block lock_resume lock_preempt lock_sleep lock_wake)+

lemma lock_reach_inv:
  assumes "lock_reach c m s0 (s, I)" "lock_inv qinv m s0 {}"
  shows "lock_inv qinv m s I"
  using assms(1)
proof (induction "(s, I)" arbitrary: s I rule: lock_reach.induct)
  case start
  show ?case by (rule assms(2))
next
  case (more a)
  then show ?case by (cases a) (blast intro: lock_step_inv)
qed

lemma down_total:
  assumes inv: "lock_inv qinv m s I"
  shows "down c m s \<noteq> None"
proof -
  from inv obtain sm where sm: "y_sem s m = Some sm" by (rule lock_inv_sem)
  from schedule_ok [OF blocked_sched_ok [OF lock_invD(1) [OF inv], of m]] obtain t where
    "schedule c (blocked_state m s) = Some t" by blast
  with sm show ?thesis by (simp add: down_eq)
qed

lemma owners_unique:
  assumes inv: "lock_inv qinv m s I" and "p \<in> owners m s I" "q \<in> owners m s I"
  shows "p = q"
proof -
  from inv obtain sm :: sem where "0 \<le> sem_value sm" "sem_value sm + int (card (owners m s I)) = 1"
    using inv unfolding lock_inv_def by blast
  then have "card (owners m s I) \<le> 1" by simp
  with lock_invD(8) [OF inv] assms(2,3) show ?thesis by (auto simp: card_le_Suc0_iff_eq)
qed

text \<open>Waking a whole queue: one round per waiter.\<close>

definition wakeable_in :: "u32 \<Rightarrow> nat \<Rightarrow> 'b sync_scheme \<Rightarrow> bool" where
  "wakeable_in q w s \<longleftrightarrow> wt_linked (y_wait s w) \<and> wt_queue (y_wait s w) = Some q \<and>
     (\<exists>p. wt_process (y_wait s w) = Some p \<and> p_state (k_procs s p) \<noteq> STATE_ZOMBIE)"

lemma wakeup_wait_ok:
  assumes ok: "sched_ok qinv s" and w: "wakeable_in q w s"
  shows "\<exists>s'. wakeup_wait c q w fl True s = Some s' \<and> sched_ok qinv s' \<and>
    y_wq s' = (y_wq s)(q := remove1 w (y_wq s q)) \<and>
    y_wait s' = (y_wait s)(w := (y_wait s w)\<lparr>wt_linked := False, wt_flags := fl\<rparr>) \<and>
    (\<forall>p. p_state (k_procs s' p) =
       (if wt_process (y_wait s w) = Some p then STATE_RUNNABLE else p_state (k_procs s p)))"
proof -
  from w obtain p where p: "wt_linked (y_wait s w)" "wt_queue (y_wait s w) = Some q"
    "wt_process (y_wait s w) = Some p" "p_state (k_procs s p) \<noteq> STATE_ZOMBIE" by (auto simp: wakeable_in_def)
  let ?s1 = "upd_wait w (\<lambda>t. t\<lparr>wt_flags := fl\<rparr>) (upd_wq q (remove1 w) (upd_wait w (\<lambda>t. t\<lparr>wt_linked := False\<rparr>) s))"
  have "sched_ok qinv ?s1" by (intro sched_ok_sync ok)
  moreover have "p_state (k_procs ?s1 p) \<noteq> STATE_ZOMBIE" using p(4) by simp
  ultimately obtain s' where s': "wakeup_process c p ?s1 = Some s'" "sched_ok qinv s'"
    "\<forall>x. p_state (k_procs s' x) = (if x = p then STATE_RUNNABLE else p_state (k_procs s x))"
    "kst.more s' = kst.more ?s1" using wakeup_ok [of ?s1 p] by auto
  have "wakeup_wait c q w fl True s = Some s'"
    using p(1-3) s'(1) by (simp add: wakeup_wait_def wait_queue_del_def)
  moreover have "y_wq s' = (y_wq s)(q := remove1 w (y_wq s q))"
    "y_wait s' = (y_wait s)(w := (y_wait s w)\<lparr>wt_linked := False, wt_flags := fl\<rparr>)"
    using more_sync [OF s'(4)] by simp_all
  ultimately show ?thesis using s'(2,3) p(3) by auto
qed

lemma wakeup_del_loop_ok:
  assumes "sched_ok qinv s" "y_wq s q = w # ws" "distinct (w # ws)" "\<forall>x\<in>set (w # ws). wakeable_in q x s"
    "length (w # ws) \<le> n"
  shows "\<exists>s'. wakeup_del_loop c q fl n w s = Some s' \<and> sched_ok qinv s' \<and> y_wq s' q = [] \<and>
    (\<forall>x. y_wait s' x = (if x \<in> set (w # ws) then (y_wait s x)\<lparr>wt_linked := False, wt_flags := fl\<rparr> else y_wait s x)) \<and>
    (\<forall>p. p_state (k_procs s' p) = (if \<exists>x\<in>set (w # ws). wt_process (y_wait s x) = Some p
       then STATE_RUNNABLE else p_state (k_procs s p)))"
  using assms
proof (induction ws arbitrary: n w s)
  case Nil
  then obtain n' where n: "n = Suc n'" by (cases n) auto
  from wakeup_wait_ok [OF Nil.prems(1), of q w fl] Nil.prems(4) obtain s1 where
    s1: "wakeup_wait c q w fl True s = Some s1" "sched_ok qinv s1" "y_wq s1 = (y_wq s)(q := remove1 w (y_wq s q))"
      "y_wait s1 = (y_wait s)(w := (y_wait s w)\<lparr>wt_linked := False, wt_flags := fl\<rparr>)"
      "\<forall>p. p_state (k_procs s1 p) =
         (if wt_process (y_wait s w) = Some p then STATE_RUNNABLE else p_state (k_procs s p))" by auto
  show ?case using s1 Nil.prems(2) n by (auto simp: wait_queue_first_def)
next
  case (Cons v vs)
  then obtain n' where n: "n = Suc n'" "length (v # vs) \<le> n'" by (cases n) auto
  from wakeup_wait_ok [OF Cons.prems(1), of q w fl] Cons.prems(4) obtain s1 where
    s1: "wakeup_wait c q w fl True s = Some s1" "sched_ok qinv s1" "y_wq s1 = (y_wq s)(q := remove1 w (y_wq s q))"
      "y_wait s1 = (y_wait s)(w := (y_wait s w)\<lparr>wt_linked := False, wt_flags := fl\<rparr>)"
      "\<forall>p. p_state (k_procs s1 p) =
         (if wt_process (y_wait s w) = Some p then STATE_RUNNABLE else p_state (k_procs s p))" by auto
  have q1: "y_wq s1 q = v # vs" "distinct (v # vs)" using s1(3) Cons.prems(2,3) by simp_all
  have w1: "\<forall>x\<in>set (v # vs). y_wait s1 x = y_wait s x" using s1(4) Cons.prems(3) by auto
  have "\<forall>x\<in>set (v # vs). wakeable_in q x s1"
    using Cons.prems(4) s1(5) by (auto simp: wakeable_in_def w1 [rule_format])
  from Cons.IH [OF s1(2) q1 this n(2)] obtain s' where
    s': "wakeup_del_loop c q fl n' v s1 = Some s'" "sched_ok qinv s'" "y_wq s' q = []"
      "\<forall>x. y_wait s' x = (if x \<in> set (v # vs) then (y_wait s1 x)\<lparr>wt_linked := False, wt_flags := fl\<rparr> else y_wait s1 x)"
      "\<forall>p. p_state (k_procs s' p) = (if \<exists>x\<in>set (v # vs). wt_process (y_wait s1 x) = Some p
         then STATE_RUNNABLE else p_state (k_procs s1 p))" by blast
  have run: "wakeup_del_loop c q fl n w s = Some s'" using s1(1) s'(1) q1(1) n(1) by (simp add: wait_queue_first_def)
  have wait: "y_wait s' x = (if x \<in> set (w # v # vs) then (y_wait s x)\<lparr>wt_linked := False, wt_flags := fl\<rparr> else y_wait s x)" for x
    using s'(4) s1(4) w1 Cons.prems(3) by auto
  have "(\<exists>x\<in>set (v # vs). wt_process (y_wait s1 x) = Some p) \<longleftrightarrow> (\<exists>x\<in>set (v # vs). wt_process (y_wait s x) = Some p)" for p
    using w1 by simp
  then have st: "p_state (k_procs s' p) = (if \<exists>x\<in>set (w # v # vs). wt_process (y_wait s x) = Some p
       then STATE_RUNNABLE else p_state (k_procs s p))" for p
    using s'(5) s1(5) by auto
  show ?case using run s'(2,3) wait st by blast
qed

end

interpretation mlfq_lock: lock_scheduler MLFQ_schedule_class rqs_inv
  by (intro lock_scheduler.intro mlfq.scheduler_axioms)

section \<open>Properties\<close>

lemma sem_init_lock_inv:
  assumes "sched_ok rqs_inv s" "k_current s = k_idle s \<or> p_state (k_procs s (k_current s)) = STATE_RUNNABLE"
    "\<forall>p. y_pc s p = None"
  shows "lock_inv rqs_inv m (sem_init m 1 s) {}"
proof (rule lock_invI)
  show "sched_ok rqs_inv (sem_init m 1 s)"
    unfolding sem_init_def wait_queue_init_def by (intro mlfq_lock.sched_ok_sync assms(1))
  show "y_sem (sem_init m 1 s) m = Some \<lparr>sem_value = 1, sem_ref = 0\<rparr>"
    by (simp add: sem_init_def wait_queue_init_def)
qed (use assms(2,3) in \<open>simp_all add: sem_init_def wait_queue_init_def owners_def\<close>)

text \<open>The concrete machine of the scheduler with process 2 waiting in queue 9.\<close>

definition st1 :: sync where
  "st1 = st0 (sync.fields (\<lambda>w. \<lparr>wt_process = Some w, wt_flags = 0, wt_queue = Some 9, wt_linked = (w = 2)\<rparr>)
     (\<lambda>q. if q = 9 then [2] else []) (\<lambda>_. None) (\<lambda>_. None))"

lemma st1_ok:
  "sched_ok rqs_inv st1" "k_current st1 = k_idle st1 \<or> p_state (k_procs st1 (k_current st1)) = STATE_RUNNABLE"
  "\<forall>p. y_pc st1 p = None"
  unfolding st1_def by (rule st0_ok) (simp_all add: st0_def sync.fields_def)

lemma st1_takes:
  "\<exists>s. lock_reach MLFQ_schedule_class 1 (sem_init 1 1 st1) (s, {1}) \<and> k_current s = 1"
proof -
  let ?a = "sem_init 1 1 st1"
  have inv: "lock_inv rqs_inv 1 ?a {}" by (rule sem_init_lock_inv [OF st1_ok])
  from mlfq.schedule_ok [OF lock_invD(1) [OF inv]] obtain b where b: "schedule MLFQ_schedule_class ?a = Some b"
    "k_current b = k_idle ?a \<and> (\<forall>q. p_state (k_procs ?a q) = STATE_RUNNABLE \<longrightarrow> q = k_idle ?a) \<or>
     k_current b \<noteq> k_idle ?a \<and> p_state (k_procs ?a (k_current b)) = STATE_RUNNABLE"
    "k_idle b = k_idle ?a" "kst.more b = kst.more ?a" by blast
  have a: "k_idle ?a = 0" "p_state (k_procs ?a p) = STATE_RUNNABLE \<longleftrightarrow> p = 0 \<or> p = 1" for p
    by (simp_all add: sem_init_def wait_queue_init_def st1_def st0_def proc0_def)
  have cur: "k_current b = 1" using b(2) unfolding a by (metis zero_neq_one)
  note y = more_sync [OF b(4)]
  let ?c = "set_sem 1 \<lparr>sem_value = 0, sem_ref = 0\<rparr> b"
  have "y_sem b 1 = Some \<lparr>sem_value = 1, sem_ref = 0\<rparr>"
    unfolding y(3) by (simp add: sem_init_def wait_queue_init_def)
  then have "down MLFQ_schedule_class 1 b = Some (DDone 0, ?c)" by (simp add: down_eq)
  moreover have "y_pc b 1 = None" "k_idle b \<noteq> 1"
    using st1_ok(3) unfolding y(4) b(3) a by (simp_all add: sem_init_def wait_queue_init_def)
  ultimately have "lock_step MLFQ_schedule_class 1 (b, {}) (?c, {1})"
    using lock_step.take [of b "{}" MLFQ_schedule_class 1 0 ?c] cur by simp
  moreover have "lock_reach MLFQ_schedule_class 1 ?a (b, {})"
    by (rule lock_reach.more [OF lock_reach.start lock_step.preempt [OF b(1)]])
  ultimately have "lock_reach MLFQ_schedule_class 1 ?a (?c, {1})" by (rule lock_reach.more [rotated])
  moreover have "k_current ?c = 1" using cur by simp
  ultimately show ?thesis by blast
qed

text \<open>C2: A semaphore initialised to 1 and used as a lock gives mutual exclusion: in every state reached
  by processes that take, wait for, are handed and release the lock, with preemption, other sleeps and
  other wakeups in between, at most one process is between \<^verbatim>\<open>down\<close> and \<^verbatim>\<open>up\<close>.\<close>

theorem lock_mutual_exclusion:
  assumes "sched_ok rqs_inv s0" "k_current s0 = k_idle s0 \<or> p_state (k_procs s0 (k_current s0)) = STATE_RUNNABLE"
    "\<forall>p. y_pc s0 p = None" "lock_reach MLFQ_schedule_class m (sem_init m 1 s0) (s, I)" "p \<in> I" "q \<in> I"
  shows "p = q"
proof -
  have "lock_inv rqs_inv m s I"
    by (rule mlfq_lock.lock_reach_inv [OF assms(4) sem_init_lock_inv [OF assms(1-3)]])
  from mlfq_lock.owners_unique [OF this, of p q] assms(5,6) show ?thesis by (simp add: owners_def)
qed

theorem lock_mutual_exclusion_witness:
  "\<exists>s. lock_reach MLFQ_schedule_class 1 (sem_init 1 1 st1) (s, {1}) \<and>
    (\<forall>q. lock_reach MLFQ_schedule_class 1 (sem_init 1 1 st1) (s, {1, q}) \<longrightarrow> q = 1)"
proof -
  from st1_takes obtain s where s: "lock_reach MLFQ_schedule_class 1 (sem_init 1 1 st1) (s, {1})"
    by (elim exE conjE)
  have "q = 1" if "lock_reach MLFQ_schedule_class 1 (sem_init 1 1 st1) (s, {1, q})" for q
    by (rule lock_mutual_exclusion [OF st1_ok that]) simp_all
  then show ?thesis using s by (intro exI conjI allI impI)
qed

text \<open>C11: In the same runs no assertion of the semaphore or of the scheduler fails: a process can always
  enter \<^verbatim>\<open>down\<close>, a process resumed inside \<^verbatim>\<open>down\<close> returns with flags 0, the holder can always call
  \<^verbatim>\<open>up\<close>; and while processes wait, the lock is owned by a process that is inside or is runnable and
  about to enter, so no wakeup is lost.\<close>

theorem lock_progress:
  assumes "sched_ok rqs_inv s0" "k_current s0 = k_idle s0 \<or> p_state (k_procs s0 (k_current s0)) = STATE_RUNNABLE"
    "\<forall>p. y_pc s0 p = None" "lock_reach MLFQ_schedule_class m (sem_init m 1 s0) (s, I)"
  shows "down MLFQ_schedule_class m s \<noteq> None \<and>
    (y_pc s (k_current s) \<noteq> None \<longrightarrow> down_return m s \<noteq> None) \<and>
    (k_current s \<in> I \<longrightarrow> up MLFQ_schedule_class m s \<noteq> None) \<and>
    (y_wq s m \<noteq> [] \<longrightarrow> (\<exists>p. p \<in> I \<or> y_pc s p \<noteq> None \<and> p \<notin> set (y_wq s m) \<and> p_state (k_procs s p) = STATE_RUNNABLE))"
proof -
  have inv: "lock_inv rqs_inv m s I"
    by (rule mlfq_lock.lock_reach_inv [OF assms(4) sem_init_lock_inv [OF assms(1-3)]])
  from inv obtain sm :: sem where sm: "sem_value sm + int (card (owners m s I)) = 1"
    "0 < sem_value sm \<longrightarrow> y_wq s m = []" using inv unfolding lock_inv_def by blast
  have "\<exists>p. p \<in> I \<or> y_pc s p \<noteq> None \<and> p \<notin> set (y_wq s m) \<and> p_state (k_procs s p) = STATE_RUNNABLE"
    if "y_wq s m \<noteq> []"
  proof -
    have "card (owners m s I) \<noteq> 0" using sm that by auto
    then obtain p where p: "p \<in> owners m s I" by fastforce
    with lock_invD(6) [OF inv, of p] show ?thesis by (auto simp: owners_def handed_def)
  qed
  moreover have "down_return m s \<noteq> None" if "y_pc s (k_current s) \<noteq> None"
    using mlfq_lock.resume_eq(3) [OF inv that] by simp
  moreover have "up MLFQ_schedule_class m s \<noteq> None" if "k_current s \<in> I"
    using mlfq_lock.release_ok [OF inv that] by auto
  ultimately show ?thesis using mlfq_lock.down_total [OF inv] by blast
qed

theorem lock_progress_witness:
  "\<exists>s. lock_reach MLFQ_schedule_class 1 (sem_init 1 1 st1) (s, {1}) \<and> k_current s = 1 \<and>
    up MLFQ_schedule_class 1 s \<noteq> None"
proof -
  from st1_takes obtain s where s: "lock_reach MLFQ_schedule_class 1 (sem_init 1 1 st1) (s, {1})"
    "k_current s = 1" by (elim exE conjE)
  with lock_progress [OF st1_ok s(1)] show ?thesis by auto
qed

text \<open>C30: Waking a whole queue with deletion terminates and, when every waiter is linked in the queue and
  its process is not a zombie, makes all waiting processes and no other process runnable, tells every
  waiter the given flags and leaves the queue empty.\<close>

theorem wakeup_queue_wakes_all:
  assumes "sched_ok rqs_inv s" "distinct (y_wq s q)"
    "\<forall>x\<in>set (y_wq s q). wt_linked (y_wait s x) \<and> wt_queue (y_wait s x) = Some q \<and>
       (\<exists>p. wt_process (y_wait s x) = Some p \<and> p_state (k_procs s p) \<noteq> STATE_ZOMBIE)"
  shows "\<exists>s'. wakeup_queue MLFQ_schedule_class q fl True s = Some s' \<and> sched_ok rqs_inv s' \<and> y_wq s' q = [] \<and>
    (\<forall>x\<in>set (y_wq s q). wt_flags (y_wait s' x) = fl \<and> \<not> wt_linked (y_wait s' x)) \<and>
    (\<forall>p. p_state (k_procs s' p) = (if \<exists>x\<in>set (y_wq s q). wt_process (y_wait s x) = Some p
       then STATE_RUNNABLE else p_state (k_procs s p)))"
proof (cases "y_wq s q")
  case Nil
  then show ?thesis using assms(1) by (simp add: wakeup_queue_def wait_queue_first_def)
next
  case (Cons w ws)
  have "\<forall>x\<in>set (w # ws). mlfq_lock.wakeable_in q x s"
    using assms(3) unfolding Cons mlfq_lock.wakeable_in_def by blast
  from mlfq_lock.wakeup_del_loop_ok [OF assms(1) Cons assms(2) [unfolded Cons] this order.refl, of fl]
  show ?thesis unfolding wakeup_queue_def wait_queue_first_def Cons by auto
qed

theorem wakeup_queue_wakes_all_witness:
  "y_wq st1 9 = [2] \<and> (\<exists>s'. wakeup_queue MLFQ_schedule_class 9 WT_TIMER True st1 = Some s' \<and>
     y_wq s' 9 = [] \<and> p_state (k_procs s' 2) = STATE_RUNNABLE)"
proof -
  have "distinct (y_wq st1 9)" "\<forall>x\<in>set (y_wq st1 9). wt_linked (y_wait st1 x) \<and> wt_queue (y_wait st1 x) = Some 9 \<and>
      (\<exists>p. wt_process (y_wait st1 x) = Some p \<and> p_state (k_procs st1 p) \<noteq> STATE_ZOMBIE)"
    by (simp_all add: st1_def st0_def proc0_def sync.fields_def)
  from wakeup_queue_wakes_all [OF st1_ok(1) this, of WT_TIMER] show ?thesis
    by (auto simp: st1_def st0_def sync.fields_def)
qed

end
