(* ===== verification/Usem.thy ===== *)
theory Usem
  imports Sync Pages
begin

text \<open>
  User semaphores (\<^verbatim>\<open>src/kernel/sync/semaphore.c\<close>): the undo records through which a process
  owns semaphores, the reference counts that free a semaphore with its last owner, and the system
  calls on semaphore identifiers.  Kernel pointers are 32-bit words; the lock of a semaphore queue is
  its first member and has its address.  What \<^verbatim>\<open>kmalloc\<close> returns is an argument, \<^const>\<open>None\<close> for a
  null pointer; freed objects are \<^const>\<open>None\<close> in the state, and using one stops the machine, except for
  the one link the code reads in a freed undo record (\<open>exit_loop\<close> below), whose value is an argument.  A
  call that sleeps in \<^verbatim>\<open>down\<close> returns \<open>Blk\<close>, and a second definition is what runs when it continues.
\<close>

section \<open>State\<close>

record semq =
  sq_ref :: int
  sq_list :: "u32 list"

record usem = sync +
  u_semq :: "u32 \<Rightarrow> semq option"
  u_undo :: "u32 \<Rightarrow> u32 option"
  u_psem :: "nat \<Rightarrow> u32 option"

datatype 'r outcome = Ret 'r | Blk

section \<open>Identifiers\<close>

definition VALID_SEMID :: "u32 \<Rightarrow> bool" where
  "VALID_SEMID sem_id = (sem_id < sem_id + KERNEL_BASE)"

definition semid2sem :: "u32 \<Rightarrow> u32" where
  "semid2sem sem_id = sem_id + KERNEL_BASE"

definition sem2semid :: "u32 \<Rightarrow> u32" where
  "sem2semid sem = sem - KERNEL_BASE"

section \<open>Reference counts\<close>

definition sem_ref_inc :: "u32 \<Rightarrow> 'a usem_scheme \<Rightarrow> (int \<times> 'a usem_scheme) option" where
  "sem_ref_inc m s = do {
     sm \<leftarrow> y_sem s m;
     Some (sem_ref sm + 1, set_sem m (sm\<lparr>sem_ref := sem_ref sm + 1\<rparr>) s)
   }"

definition sem_ref_dec :: "u32 \<Rightarrow> 'a usem_scheme \<Rightarrow> (int \<times> 'a usem_scheme) option" where
  "sem_ref_dec m s = do {
     sm \<leftarrow> y_sem s m;
     Some (sem_ref sm - 1, set_sem m (sm\<lparr>sem_ref := sem_ref sm - 1\<rparr>) s)
   }"

section \<open>Semaphore queues and undo records\<close>

definition sem_queue_create :: "u32 option \<Rightarrow> 'a usem_scheme \<Rightarrow> u32 option \<times> 'a usem_scheme" where
  "sem_queue_create a s =
     (case a of
        None \<Rightarrow> (None, s)
      | Some q \<Rightarrow> (Some q, (sem_init q 1 s)\<lparr>u_semq := (u_semq s)(q := Some \<lparr>sq_ref = 0, sq_list = []\<rparr>)\<rparr>))"

definition sem_queue_destory :: "u32 \<Rightarrow> 'a usem_scheme \<Rightarrow> 'a usem_scheme" where
  "sem_queue_destory q s = s\<lparr>u_semq := (u_semq s)(q := None), y_sem := (y_sem s)(q := None)\<rparr>"

definition sem_undo_create ::
    "u32 option \<Rightarrow> u32 option \<Rightarrow> u32 option \<Rightarrow> int \<Rightarrow> 'a usem_scheme \<Rightarrow> (u32 option \<times> 'a usem_scheme) option" where
  "sem_undo_create a b sem val s =
     (case a of
        None \<Rightarrow> Some (None, s)
      | Some u \<Rightarrow>
          (let (sem', s1) = (case sem of
                Some m \<Rightarrow> (Some m, s)
              | None \<Rightarrow> (case b of Some m \<Rightarrow> (Some m, sem_init m val s) | None \<Rightarrow> (None, s)))
           in case sem' of
                Some m \<Rightarrow> do {
                  (_, s2) \<leftarrow> sem_ref_inc m s1;
                  Some (Some u, s2\<lparr>u_undo := (u_undo s2)(u := Some m)\<rparr>)
                }
              | None \<Rightarrow> Some (None, s1)))"

definition sem_undo_destory :: "u32 \<Rightarrow> 'a usem_scheme \<Rightarrow> 'a usem_scheme option" where
  "sem_undo_destory u s = do {
     m \<leftarrow> u_undo s u;
     (r, s1) \<leftarrow> sem_ref_dec m s;
     let s2 = (if r = 0 then s1\<lparr>y_sem := (y_sem s1)(m := None)\<rparr> else s1);
     Some (s2\<lparr>u_undo := (u_undo s2)(u := None)\<rparr>)
   }"

definition semq_push :: "u32 \<Rightarrow> u32 \<Rightarrow> 'a usem_scheme \<Rightarrow> 'a usem_scheme option" where
  "semq_push q u s = do {
     sq \<leftarrow> u_semq s q;
     Some (s\<lparr>u_semq := (u_semq s)(q := Some (sq\<lparr>sq_list := u # sq_list sq\<rparr>))\<rparr>)
   }"

text \<open>The loop of \<^verbatim>\<open>dup_sem_queue\<close>; \<open>km i\<close> is what \<^verbatim>\<open>kmalloc\<close> returns in round \<open>i\<close>.\<close>

fun dup_loop ::
    "(nat \<Rightarrow> u32 option) \<Rightarrow> nat \<Rightarrow> u32 \<Rightarrow> u32 list \<Rightarrow> 'a usem_scheme \<Rightarrow> ((kerr + unit) \<times> 'a usem_scheme) option" where
  "dup_loop km i dst [] s = Some (Inr (), s)"
| "dup_loop km i dst (e # es) s = do {
     m \<leftarrow> u_undo s e;
     (r, s1) \<leftarrow> sem_undo_create (km i) None (Some m) 0 s;
     case r of
       None \<Rightarrow> Some (Inl E_NO_MEM, s1)
     | Some u \<Rightarrow> do { s2 \<leftarrow> semq_push dst u s1; dup_loop km (Suc i) dst es s2 }
   }"

definition dup_sem_queue ::
    "(nat \<Rightarrow> u32 option) \<Rightarrow> u32 \<Rightarrow> u32 \<Rightarrow> 'a usem_scheme \<Rightarrow> ((kerr + unit) \<times> 'a usem_scheme) option" where
  "dup_sem_queue km dst src s = do {
     kassert (dst \<noteq> src);
     sq \<leftarrow> u_semq s src;
     dup_loop km 0 dst (sq_list sq) s
   }"

text \<open>
  The loop of \<^verbatim>\<open>exit_sem_queue\<close> steps from a record with \<^verbatim>\<open>list_next(entry)\<close> after
  \<^verbatim>\<open>sem_undo_destory\<close> has freed the record.  What that read finds is up to the memory that was
  given back, so it is an argument: \<open>stale u l\<close> is the \<^verbatim>\<open>next\<close> link read in the freed record \<open>u\<close>
  whose link was \<open>l\<close> when it was freed (\<^verbatim>\<open>list_del\<close> leaves the links of the removed entry alone), with
  \<^const>\<open>None\<close> for the list head.  A link that leads to anything but a record of the queue stops the
  machine.
\<close>

partial_function (option) exit_loop ::
    "(u32 \<Rightarrow> u32 option \<Rightarrow> u32 option) \<Rightarrow> u32 \<Rightarrow> u32 option \<Rightarrow> 'a usem_scheme \<Rightarrow> 'a usem_scheme option" where
  "exit_loop stale q entry s =
     (case entry of
        None \<Rightarrow> Some s
      | Some u \<Rightarrow> do {
          sq \<leftarrow> u_semq s q;
          kassert (u \<in> set (sq_list sq));
          let next = next_of (sq_list sq) u;
          let s1 = s\<lparr>u_semq := (u_semq s)(q := Some (sq\<lparr>sq_list := remove1 u (sq_list sq)\<rparr>))\<rparr>;
          s2 \<leftarrow> sem_undo_destory u s1;
          exit_loop stale q (stale u next) s2
        })"

definition exit_sem_queue ::
    "(u32 \<Rightarrow> u32 option \<Rightarrow> u32 option) \<Rightarrow> u32 \<Rightarrow> 'a usem_scheme \<Rightarrow> 'a usem_scheme option" where
  "exit_sem_queue stale q s = do {
     sq \<leftarrow> u_semq s q;
     kassert (sq_ref sq = 0);
     exit_loop stale q (list_first (sq_list sq)) s
   }"

definition sem_undo_list_search :: "u32 \<Rightarrow> u32 \<Rightarrow> 'a usem_scheme \<Rightarrow> (u32 option \<times> 'a usem_scheme) option" where
  "sem_undo_list_search q sem_id s = do {
     sq \<leftarrow> u_semq s q;
     if VALID_SEMID sem_id then
       (case find (\<lambda>u. u_undo s u = Some (semid2sem sem_id)) (sq_list sq) of
          None \<Rightarrow> Some (None, s)
        | Some u \<Rightarrow> Some (Some u,
            s\<lparr>u_semq := (u_semq s)(q := Some (sq\<lparr>sq_list := u # remove1 u (sq_list sq)\<rparr>))\<rparr>))
     else Some (None, s)
   }"

section \<open>System calls\<close>

definition ipc_sem_init_cont ::
    "'a usem_scheme sched_class \<Rightarrow> u32 \<Rightarrow> 'a usem_scheme \<Rightarrow> (u32 \<times> 'a usem_scheme) option" where
  "ipc_sem_init_cont c u s = do {
     q \<leftarrow> u_psem s (k_current s);
     s1 \<leftarrow> semq_push q u s;
     s2 \<leftarrow> up c q s1;
     m \<leftarrow> u_undo s2 u;
     Some (sem2semid m, s2)
   }"

definition ipc_sem_init ::
    "'a usem_scheme sched_class \<Rightarrow> u32 option \<Rightarrow> u32 option \<Rightarrow> int \<Rightarrow> 'a usem_scheme \<Rightarrow>
      ((kerr + u32) outcome \<times> 'a usem_scheme) option" where
  "ipc_sem_init c a b val s = do {
     q \<leftarrow> u_psem s (k_current s);
     (r, s1) \<leftarrow> sem_undo_create a b None val s;
     case r of
       None \<Rightarrow> Some (Ret (Inl E_NO_MEM), s1)
     | Some u \<Rightarrow> do {
         (d, s2) \<leftarrow> down c q s1;
         case d of
           DBlocked \<Rightarrow> Some (Blk, s2)
         | DDone _ \<Rightarrow> do { (n, s3) \<leftarrow> ipc_sem_init_cont c u s2; Some (Ret (Inr n), s3) }
       }
   }"

definition ipc_sem_post_cont ::
    "'a usem_scheme sched_class \<Rightarrow> u32 \<Rightarrow> 'a usem_scheme \<Rightarrow> ((kerr + unit) \<times> 'a usem_scheme) option" where
  "ipc_sem_post_cont c sem_id s = do {
     q \<leftarrow> u_psem s (k_current s);
     (r, s1) \<leftarrow> sem_undo_list_search q sem_id s;
     s2 \<leftarrow> up c q s1;
     case r of
       Some u \<Rightarrow> do { m \<leftarrow> u_undo s2 u; s3 \<leftarrow> user_sem_up c m s2; Some (Inr (), s3) }
     | None \<Rightarrow> Some (Inl E_INVAL, s2)
   }"

definition ipc_sem_post ::
    "'a usem_scheme sched_class \<Rightarrow> u32 \<Rightarrow> 'a usem_scheme \<Rightarrow> ((kerr + unit) outcome \<times> 'a usem_scheme) option" where
  "ipc_sem_post c sem_id s = do {
     q \<leftarrow> u_psem s (k_current s);
     (d, s1) \<leftarrow> down c q s;
     case d of
       DBlocked \<Rightarrow> Some (Blk, s1)
     | DDone _ \<Rightarrow> do { (r, s2) \<leftarrow> ipc_sem_post_cont c sem_id s1; Some (Ret r, s2) }
   }"

definition ipc_sem_wait_cont ::
    "'a usem_scheme sched_class \<Rightarrow> u32 \<Rightarrow> 'a usem_scheme \<Rightarrow> ((kerr + unit) outcome \<times> 'a usem_scheme) option" where
  "ipc_sem_wait_cont c sem_id s = do {
     q \<leftarrow> u_psem s (k_current s);
     (r, s1) \<leftarrow> sem_undo_list_search q sem_id s;
     s2 \<leftarrow> up c q s1;
     case r of
       Some u \<Rightarrow> do {
         m \<leftarrow> u_undo s2 u;
         (d, s3) \<leftarrow> user_sem_down c m s2;
         Some (case d of DBlocked \<Rightarrow> (Blk, s3) | DDone _ \<Rightarrow> (Ret (Inr ()), s3))
       }
     | None \<Rightarrow> Some (Ret (Inl E_INVAL), s2)
   }"

definition ipc_sem_wait ::
    "'a usem_scheme sched_class \<Rightarrow> u32 \<Rightarrow> 'a usem_scheme \<Rightarrow> ((kerr + unit) outcome \<times> 'a usem_scheme) option" where
  "ipc_sem_wait c sem_id s = do {
     q \<leftarrow> u_psem s (k_current s);
     (d, s1) \<leftarrow> down c q s;
     case d of DBlocked \<Rightarrow> Some (Blk, s1) | DDone _ \<Rightarrow> ipc_sem_wait_cont c sem_id s1
   }"

text \<open>The answers of \<^verbatim>\<open>user_mem_check\<close> and \<^verbatim>\<open>copy_to_user\<close> for the address \<open>value_store\<close> are
  arguments; the value stored is the second component of the result.\<close>

definition ipc_sem_get_value_cont ::
    "'a usem_scheme sched_class \<Rightarrow> bool \<Rightarrow> u32 \<Rightarrow> 'a usem_scheme \<Rightarrow> ((kerr + int) \<times> 'a usem_scheme) option" where
  "ipc_sem_get_value_cont c copied sem_id s = do {
     q \<leftarrow> u_psem s (k_current s);
     (r, s1) \<leftarrow> sem_undo_list_search q sem_id s;
     s2 \<leftarrow> up c q s1;
     case r of
       Some u \<Rightarrow> do {
         m \<leftarrow> u_undo s2 u;
         sm \<leftarrow> y_sem s2 m;
         Some (if copied then Inr (sem_value sm) else Inl E_INVAL, s2)
       }
     | None \<Rightarrow> Some (Inl E_INVAL, s2)
   }"

definition ipc_sem_get_value ::
    "'a usem_scheme sched_class \<Rightarrow> bool \<Rightarrow> bool \<Rightarrow> u32 \<Rightarrow> u32 \<Rightarrow> 'a usem_scheme \<Rightarrow>
      ((kerr + int) outcome \<times> 'a usem_scheme) option" where
  "ipc_sem_get_value c checked copied sem_id value_store s = do {
     q \<leftarrow> u_psem s (k_current s);
     if value_store = 0 \<or> \<not> checked then Some (Ret (Inl E_INVAL), s)
     else do {
       (d, s1) \<leftarrow> down c q s;
       case d of
         DBlocked \<Rightarrow> Some (Blk, s1)
       | DDone _ \<Rightarrow> do { (r, s2) \<leftarrow> ipc_sem_get_value_cont c copied sem_id s1; Some (Ret r, s2) }
     }
   }"

section \<open>Ownership\<close>

definition refs_ok :: "'a usem_scheme \<Rightarrow> bool" where
  "refs_ok s \<longleftrightarrow> finite (dom (u_undo s)) \<and> (\<forall>u m. u_undo s u = Some m \<longrightarrow> y_sem s m \<noteq> None) \<and>
     (\<forall>m sm. y_sem s m = Some sm \<longrightarrow> sem_ref sm = int (card {u. u_undo s u = Some m}))"

lemma refs_okD:
  assumes "refs_ok s"
  shows "finite {u. u_undo s u = Some m}" "u_undo s u = Some m \<Longrightarrow> \<exists>sm. y_sem s m = Some sm"
    "y_sem s m = Some sm \<Longrightarrow> sem_ref sm = int (card {u. u_undo s u = Some m})"
proof -
  have "finite (dom (u_undo s))" using assms by (simp add: refs_ok_def)
  then show "finite {u. u_undo s u = Some m}" by (rule finite_subset [rotated]) auto
qed (use assms in \<open>auto simp: refs_ok_def\<close>)

lemma refs_ok_pos:
  assumes "refs_ok s" "u_undo s u = Some m"
  obtains sm where "y_sem s m = Some sm" "0 < sem_ref sm"
proof -
  from refs_okD(2) [OF assms] obtain sm where sm: "y_sem s m = Some sm" by blast
  have "{u. u_undo s u = Some m} \<noteq> {}" using assms(2) by blast
  then have "0 < card {u. u_undo s u = Some m}" using refs_okD(1) [OF assms(1)] by (simp add: card_gt_0_iff)
  with refs_okD(3) [OF assms(1) sm] sm that show thesis by simp
qed

lemma set_sem_usem [simp]:
  "u_semq (set_sem m v s) = u_semq s" "u_undo (set_sem m v s) = u_undo s" "u_psem (set_sem m v s) = u_psem s"
  by (simp_all add: set_sem_def)

lemma sem_undo_destory_ok:
  assumes ok: "refs_ok s" and u: "u_undo s u = Some m"
  shows "\<exists>s'. sem_undo_destory u s = Some s' \<and> refs_ok s' \<and> u_undo s' = (u_undo s)(u := None) \<and>
    u_semq s' = u_semq s \<and>
    (\<forall>x. y_sem s' x \<noteq> None \<longleftrightarrow> y_sem s x \<noteq> None \<and> (x = m \<longrightarrow> (\<exists>v. v \<noteq> u \<and> u_undo s v = Some m)))"
proof -
  from ok u obtain sm where sm: "y_sem s m = Some sm" "0 < sem_ref sm" by (rule refs_ok_pos)
  let ?U = "{v. u_undo s v = Some m}"
  have fin: "finite ?U" by (rule refs_okD(1) [OF ok])
  have card: "sem_ref sm - 1 = int (card (?U - {u}))"
    using refs_okD(3) [OF ok sm(1)] card_Suc_Diff1 [OF fin, of u] u by simp
  have last: "sem_ref sm = 1 \<longleftrightarrow> \<not> (\<exists>v. v \<noteq> u \<and> u_undo s v = Some m)"
  proof -
    have "sem_ref sm = 1 \<longleftrightarrow> card (?U - {u}) = 0" using card by linarith
    also have "\<dots> \<longleftrightarrow> ?U - {u} = {}" using fin by simp
    finally show ?thesis by blast
  qed
  obtain s' where s': "sem_undo_destory u s = Some s'" "u_undo s' = (u_undo s)(u := None)" "u_semq s' = u_semq s"
    "y_sem s' = (y_sem s)(m := if sem_ref sm = 1 then None else Some (sm\<lparr>sem_ref := sem_ref sm - 1\<rparr>))"
    using u sm(1) by (simp add: sem_undo_destory_def sem_ref_dec_def Let_def)
  have cnt: "{v. u_undo s' v = Some x} = {v. u_undo s v = Some x} - {u}" for x unfolding s'(2) by auto
  have "refs_ok s'"
    unfolding refs_ok_def
  proof (intro conjI allI impI)
    show "finite (dom (u_undo s'))" using ok by (simp add: refs_ok_def s'(2))
    fix v x assume "u_undo s' v = Some x"
    then have v: "v \<noteq> u" "u_undo s v = Some x" by (simp_all add: s'(2) split: if_splits)
    show "y_sem s' x \<noteq> None"
    proof (cases "x = m")
      case True
      with v last have "sem_ref sm \<noteq> 1" by blast
      with True show ?thesis by (simp add: s'(4))
    next
      case False
      with refs_okD(2) [OF ok v(2)] show ?thesis by (simp add: s'(4))
    qed
  next
    fix x sx assume sx: "y_sem s' x = Some sx"
    show "sem_ref sx = int (card {v. u_undo s' v = Some x})"
    proof (cases "x = m")
      case True
      then have "sx = sm\<lparr>sem_ref := sem_ref sm - 1\<rparr>" using sx by (simp add: s'(4) split: if_splits)
      with True card show ?thesis by (simp add: cnt)
    next
      case False
      then have "{v. u_undo s v = Some x} - {u} = {v. u_undo s v = Some x}" using u by auto
      with False sx refs_okD(3) [OF ok, of x sx] show ?thesis by (simp add: cnt s'(4))
    qed
  qed
  moreover have "y_sem s' x \<noteq> None \<longleftrightarrow> y_sem s x \<noteq> None \<and> (x = m \<longrightarrow> (\<exists>v. v \<noteq> u \<and> u_undo s v = Some m))" for x
    using last sm(1) by (cases "x = m") (simp_all add: s'(4))
  ultimately show ?thesis using s'(1-3) by (intro exI [of _ s'] conjI allI)
qed

text \<open>The exit as it is meant: the records of a given list are unlinked and destroyed in order.\<close>

fun exit_all :: "u32 \<Rightarrow> u32 list \<Rightarrow> 'a usem_scheme \<Rightarrow> 'a usem_scheme option" where
  "exit_all q [] s = Some s"
| "exit_all q (e # es) s = do {
     sq \<leftarrow> u_semq s q;
     let s1 = s\<lparr>u_semq := (u_semq s)(q := Some (sq\<lparr>sq_list := remove1 e (sq_list sq)\<rparr>))\<rparr>;
     s2 \<leftarrow> sem_undo_destory e s1;
     exit_all q es s2
   }"

lemma exit_all_ok:
  assumes "refs_ok s" "u_semq s q \<noteq> None" "distinct us" "\<forall>u\<in>set us. u_undo s u \<noteq> None"
  shows "\<exists>s'. exit_all q us s = Some s' \<and> refs_ok s' \<and>
    (\<forall>u. u_undo s' u = (if u \<in> set us then None else u_undo s u)) \<and>
    (\<forall>x. y_sem s' x \<noteq> None \<longleftrightarrow> y_sem s x \<noteq> None \<and>
      ((\<exists>u\<in>set us. u_undo s u = Some x) \<longrightarrow> (\<exists>v. v \<notin> set us \<and> u_undo s v = Some x)))"
  using assms
proof (induction us arbitrary: s)
  case (Cons u us)
  from Cons.prems(2) obtain sq where sq: "u_semq s q = Some sq" by blast
  from Cons.prems(4) obtain m where m: "u_undo s u = Some m" by auto
  let ?s1 = "s\<lparr>u_semq := (u_semq s)(q := Some (sq\<lparr>sq_list := remove1 u (sq_list sq)\<rparr>))\<rparr>"
  have same: "u_undo ?s1 = u_undo s" "y_sem ?s1 = y_sem s" by simp_all
  have "refs_ok ?s1" using Cons.prems(1) unfolding refs_ok_def same .
  from sem_undo_destory_ok [OF this, of u m, unfolded same, OF m] obtain s2 where
    s2: "sem_undo_destory u ?s1 = Some s2" "refs_ok s2" "u_undo s2 = (u_undo s)(u := None)"
      "u_semq s2 = u_semq ?s1"
      "\<forall>x. y_sem s2 x \<noteq> None \<longleftrightarrow> y_sem s x \<noteq> None \<and> (x = m \<longrightarrow> (\<exists>v. v \<noteq> u \<and> u_undo s v = Some m))"
    by (elim exE conjE)
  have "u_semq s2 q \<noteq> None" "distinct us" "\<forall>v\<in>set us. u_undo s2 v \<noteq> None"
    using Cons.prems(3,4) by (auto simp: s2(3,4))
  from Cons.IH [OF s2(2) this] obtain s' where
    s': "exit_all q us s2 = Some s'" "refs_ok s'" "\<forall>v. u_undo s' v = (if v \<in> set us then None else u_undo s2 v)"
      "\<forall>x. y_sem s' x \<noteq> None \<longleftrightarrow> y_sem s2 x \<noteq> None \<and>
        ((\<exists>v\<in>set us. u_undo s2 v = Some x) \<longrightarrow> (\<exists>v. v \<notin> set us \<and> u_undo s2 v = Some x))"
    by (elim exE conjE)
  have "exit_all q (u # us) s = Some s'" using sq s2(1) s'(1) by simp
  moreover have "u_undo s' v = (if v \<in> set (u # us) then None else u_undo s v)" for v
    unfolding s'(3) [rule_format] s2(3) by simp
  moreover have "y_sem s' x \<noteq> None \<longleftrightarrow> y_sem s x \<noteq> None \<and>
      ((\<exists>v\<in>set (u # us). u_undo s v = Some x) \<longrightarrow> (\<exists>v. v \<notin> set (u # us) \<and> u_undo s v = Some x))" for x
  proof -
    have "u \<notin> set us" using Cons.prems(3) by simp
    then have a: "(\<exists>v\<in>set us. u_undo s2 v = Some x) \<longleftrightarrow> (\<exists>v\<in>set us. u_undo s v = Some x)"
      "(\<exists>v. v \<notin> set us \<and> u_undo s2 v = Some x) \<longleftrightarrow> (\<exists>v. v \<notin> set (u # us) \<and> u_undo s v = Some x)"
      unfolding s2(3) by auto
    show ?thesis unfolding s'(4) [rule_format] s2(5) [rule_format] a
    proof (cases "x = m")
      case True
      have "(\<exists>v. v \<noteq> u \<and> u_undo s v = Some m) \<longleftrightarrow>
          (\<exists>v\<in>set us. u_undo s v = Some m) \<or> (\<exists>v. v \<notin> set (u # us) \<and> u_undo s v = Some m)"
        using \<open>u \<notin> set us\<close> by auto
      with True m show "(y_sem s x \<noteq> None \<and> (x = m \<longrightarrow> (\<exists>v. v \<noteq> u \<and> u_undo s v = Some m))) \<and>
          ((\<exists>v\<in>set us. u_undo s v = Some x) \<longrightarrow> (\<exists>v. v \<notin> set (u # us) \<and> u_undo s v = Some x)) \<longleftrightarrow>
          y_sem s x \<noteq> None \<and>
          ((\<exists>v\<in>set (u # us). u_undo s v = Some x) \<longrightarrow> (\<exists>v. v \<notin> set (u # us) \<and> u_undo s v = Some x))"
        by (metis list.set_intros(1) list.set_intros(2))
    next
      case False
      with m show "(y_sem s x \<noteq> None \<and> (x = m \<longrightarrow> (\<exists>v. v \<noteq> u \<and> u_undo s v = Some m))) \<and>
          ((\<exists>v\<in>set us. u_undo s v = Some x) \<longrightarrow> (\<exists>v. v \<notin> set (u # us) \<and> u_undo s v = Some x)) \<longleftrightarrow>
          y_sem s x \<noteq> None \<and>
          ((\<exists>v\<in>set (u # us). u_undo s v = Some x) \<longrightarrow> (\<exists>v. v \<notin> set (u # us) \<and> u_undo s v = Some x))"
        by simp
    qed
  qed
  ultimately show ?case using s'(2) by (intro exI conjI allI)
qed simp

lemma exit_all_append: "exit_all q (xs @ ys) s = do { s1 \<leftarrow> exit_all q xs s; exit_all q ys s1 }"
  by (induction xs arbitrary: s) (auto simp: Let_def bind_assoc split: Option.bind_split)

lemma sem_undo_destory_semq: "sem_undo_destory u s = Some s' \<Longrightarrow> u_semq s' = u_semq s"
  by (auto simp: sem_undo_destory_def sem_ref_dec_def Let_def split: Option.bind_splits if_splits)

text \<open>Stepping over freed records whose links are still in place, the loop is that exit.\<close>

lemma exit_loop_all:
  assumes "\<forall>u\<in>set (sq_list sq). \<forall>l. stale u l = l" "u_semq s q = Some sq"
  shows "exit_loop stale q (list_first (sq_list sq)) s = exit_all q (sq_list sq) s"
  using assms
proof (induction "sq_list sq" arbitrary: s sq)
  case Nil
  from Nil.hyps [symmetric] show ?case by (subst exit_loop.simps) (simp add: list_first_def)
next
  case (Cons u us)
  note sq = Cons.prems(2)
  note l = Cons.hyps(2) [symmetric]
  let ?s1 = "s\<lparr>u_semq := (u_semq s)(q := Some (sq\<lparr>sq_list := us\<rparr>))\<rparr>"
  have st: "stale u l = l" for l using Cons.prems(1) by (simp add: l)
  have nx: "next_of (u # us) u = list_first us" by (cases us) (simp_all add: list_first_def)
  have run: "exit_loop stale q (Some u) s = Option.bind (sem_undo_destory u ?s1) (exit_loop stale q (list_first us))"
    by (subst exit_loop.simps) (simp add: sq l nx st kassert_def del: next_of.simps)
  show ?case
  proof (cases "sem_undo_destory u ?s1")
    case None
    with run show ?thesis using sq by (simp add: l list_first_def)
  next
    case (Some s2)
    then have "u_semq s2 q = Some (sq\<lparr>sq_list := us\<rparr>)" by (simp add: sem_undo_destory_semq)
    moreover have "\<forall>u\<in>set us. \<forall>l. stale u l = l" using Cons.prems(1) by (simp add: l)
    ultimately have "exit_loop stale q (list_first us) s2 = exit_all q us s2"
      using Cons.hyps(1) [of "sq\<lparr>sq_list := us\<rparr>" s2] by simp
    with run Some show ?thesis using sq by (simp add: l list_first_def)
  qed
qed

text \<open>A freed record whose link leads out of the queue stops it.\<close>

lemma exit_loop_lost:
  assumes "u_semq s q = Some sq" "sq_list sq = u # us" "stale u (list_first us) = Some v" "v \<notin> set us"
  shows "exit_loop stale q (Some u) s = None"
proof -
  let ?s1 = "s\<lparr>u_semq := (u_semq s)(q := Some (sq\<lparr>sq_list := us\<rparr>))\<rparr>"
  have nx: "next_of (u # us) u = list_first us" by (cases us) (simp_all add: list_first_def)
  have run: "exit_loop stale q (Some u) s = Option.bind (sem_undo_destory u ?s1) (exit_loop stale q (Some v))"
    by (subst exit_loop.simps) (simp add: assms nx kassert_def del: next_of.simps)
  show ?thesis
  proof (cases "sem_undo_destory u ?s1")
    case (Some s2)
    then have "u_semq s2 q = Some (sq\<lparr>sq_list := us\<rparr>)" by (simp add: sem_undo_destory_semq)
    then have "exit_loop stale q (Some v) s2 = None"
      using assms(4) by (subst exit_loop.simps) (simp add: kassert_def)
    with run Some show ?thesis by simp
  qed (use run in simp)
qed

lemma exit_all_semq:
  assumes "u_semq s q = Some sq" "exit_all q us s = Some s'"
  shows "u_semq s' = (u_semq s)(q := Some (sq\<lparr>sq_list := fold remove1 us (sq_list sq)\<rparr>))"
  using assms
proof (induction us arbitrary: s sq)
  case (Cons u us)
  then obtain s2 where
    "sem_undo_destory u (s\<lparr>u_semq := (u_semq s)(q := Some (sq\<lparr>sq_list := remove1 u (sq_list sq)\<rparr>))\<rparr>) = Some s2"
    "exit_all q us s2 = Some s'" by (auto split: Option.bind_splits)
  from this(1) have u: "u_semq s2 = (u_semq s)(q := Some (sq\<lparr>sq_list := remove1 u (sq_list sq)\<rparr>))"
    by (simp add: sem_undo_destory_semq)
  then have "u_semq s2 q = Some (sq\<lparr>sq_list := remove1 u (sq_list sq)\<rparr>)" by simp
  from Cons.IH [OF this \<open>exit_all q us s2 = Some s'\<close>] show ?case by (simp add: u fun_eq_iff)
qed auto

lemma fold_remove1_self [simp]: "fold remove1 xs xs = []"
  by (induction xs) simp_all

lemma dup_exit_loop:
  assumes "\<forall>e\<in>set es. \<exists>m sm. u_undo s e = Some m \<and> y_sem s m = Some sm \<and> 0 < sem_ref sm"
    and "u_semq s dst = Some sq"
    and "\<forall>j<length es. \<exists>u. km (i + j) = Some u \<and> u_undo s u = None"
    and "distinct (map km [i..<i + length es])"
  shows "\<exists>us s1. dup_loop km i dst es s = Some (Inr (), s1) \<and>
    u_semq s1 dst = Some (sq\<lparr>sq_list := us @ sq_list sq\<rparr>) \<and> exit_all dst us s1 = Some s"
  using assms
proof (induction es arbitrary: i s sq)
  case Nil
  then show ?case by (intro exI [of _ "[]"]) simp
next
  case (Cons e es)
  from Cons.prems(1) obtain m sm where m: "u_undo s e = Some m" "y_sem s m = Some sm" "0 < sem_ref sm" by auto
  from Cons.prems(3) obtain u where u: "km i = Some u" "u_undo s u = None" by fastforce
  let ?s1 = "set_sem m (sm\<lparr>sem_ref := sem_ref sm + 1\<rparr>) s"
  let ?sa = "?s1\<lparr>u_undo := (u_undo ?s1)(u := Some m),
     u_semq := (u_semq s)(dst := Some (sq\<lparr>sq_list := u # sq_list sq\<rparr>))\<rparr>"
  have run: "dup_loop km i dst (e # es) s = dup_loop km (Suc i) dst es ?sa"
    using m(1,2) u(1) Cons.prems(2) by (simp add: sem_undo_create_def sem_ref_inc_def semq_push_def)
  have "[i..<i + length (e # es)] = i # [Suc i..<Suc i + length es]" by (simp add: upt_rec)
  with Cons.prems(4) have d: "distinct (map km [Suc i..<Suc i + length es])"
    "km i \<notin> km ` set [Suc i..<Suc i + length es]" by (simp_all only: list.map distinct.simps set_map simp_thms)
  have dist2: "km (Suc i + j) \<noteq> km i" if "j < length es" for j
  proof -
    have "Suc i + j \<in> set [Suc i..<Suc i + length es]" using that by (simp del: upt_Suc)
    with d(2) show ?thesis by (metis imageI)
  qed
  have live: "\<forall>e\<in>set es. \<exists>m sm. u_undo ?sa e = Some m \<and> y_sem ?sa m = Some sm \<and> 0 < sem_ref sm"
  proof
    fix e' assume "e' \<in> set es"
    then obtain m' sm' where "u_undo s e' = Some m'" "y_sem s m' = Some sm'" "0 < sem_ref sm'"
      using Cons.prems(1) by auto
    moreover from this u(2) have "e' \<noteq> u" by auto
    ultimately show "\<exists>m sm. u_undo ?sa e' = Some m \<and> y_sem ?sa m = Some sm \<and> 0 < sem_ref sm"
      using m(2,3) by (cases "m' = m") auto
  qed
  have fresh: "\<forall>j<length es. \<exists>u. km (Suc i + j) = Some u \<and> u_undo ?sa u = None"
  proof (intro allI impI)
    fix j assume j: "j < length es"
    with Cons.prems(3) obtain v where "km (Suc i + j) = Some v" "u_undo s v = None" by fastforce
    moreover from this dist2 [OF j] u(1) have "v \<noteq> u" by auto
    ultimately show "\<exists>u. km (Suc i + j) = Some u \<and> u_undo ?sa u = None" by simp
  qed
  have semq: "u_semq ?sa dst = Some (sq\<lparr>sq_list := u # sq_list sq\<rparr>)" by simp
  from Cons.IH [OF live semq fresh d(1)] obtain us s1 where
    s1: "dup_loop km (Suc i) dst es ?sa = Some (Inr (), s1)"
      "u_semq s1 dst = Some (sq\<lparr>sq_list := us @ u # sq_list sq\<rparr>)" "exit_all dst us s1 = Some ?sa" by auto
  have "(y_sem s)(m := Some sm) = y_sem s" "(u_undo s)(u := None) = u_undo s" "(u_semq s)(dst := Some sq) = u_semq s"
    using m(2) u(2) Cons.prems(2) by auto
  then have "exit_all dst [u] ?sa = Some s"
    using m(3) by (simp add: sem_undo_destory_def sem_ref_dec_def set_sem_def)
  with s1 run show ?case by (intro exI [of _ "us @ [u]"] exI [of _ s1]) (simp add: exit_all_append)
qed

section \<open>Identifiers and lookups\<close>

lemma VALID_SEMID_iff: "VALID_SEMID n \<longleftrightarrow> n < 0x40000000"
proof -
  have "VALID_SEMID n \<longleftrightarrow> unat n < (unat n + 0xC0000000) mod 2 ^ 32"
    by (simp add: VALID_SEMID_def KERNEL_BASE_def word_less_nat_alt unat_word_ariths)
  also have "\<dots> \<longleftrightarrow> unat n < 0x40000000"
  proof (cases "unat n < 0x40000000")
    case False
    moreover have "unat n < 2 ^ 32" using unsigned_less [of n] by simp
    ultimately have "(unat n + 0xC0000000) mod 2 ^ 32 = unat n + 0xC0000000 - 2 ^ 32"
      by (subst le_mod_geq) simp_all
    with False show ?thesis by simp
  qed simp
  finally show ?thesis by (simp add: word_less_nat_alt)
qed

lemma semid_inverse: "semid2sem (sem2semid m) = m" "sem2semid (semid2sem n) = n"
  by (simp_all add: semid2sem_def sem2semid_def)

lemma find_moved:
  assumes "find P xs = Some u"
  shows "u \<in> set xs" "P u" "set (u # remove1 u xs) = set xs"
proof -
  show "u \<in> set xs" "P u" using assms by (auto simp: find_Some_iff)
  moreover have "set xs \<subseteq> set (u # remove1 u xs)" by (metis in_set_remove1 list.set_intros subsetI)
  ultimately show "set (u # remove1 u xs) = set xs" using set_remove1_subset [of u xs] by auto
qed

lemma sem_undo_list_search_spec:
  assumes "u_semq s q = Some sq"
  obtains (found) u s' sq' where "sem_undo_list_search q n s = Some (Some u, s')" "VALID_SEMID n"
      "u \<in> set (sq_list sq)" "u_undo s u = Some (semid2sem n)"
      "s' = s\<lparr>u_semq := (u_semq s)(q := Some sq')\<rparr>" "set (sq_list sq') = set (sq_list sq)"
    | (missing) "sem_undo_list_search q n s = Some (None, s)"
      "\<not> VALID_SEMID n \<or> (\<forall>u\<in>set (sq_list sq). u_undo s u \<noteq> Some (semid2sem n))"
proof (cases "VALID_SEMID n \<and> find (\<lambda>u. u_undo s u = Some (semid2sem n)) (sq_list sq) \<noteq> None")
  case True
  then obtain u where u: "VALID_SEMID n" "find (\<lambda>u. u_undo s u = Some (semid2sem n)) (sq_list sq) = Some u" by blast
  note f = find_moved [OF u(2)]
  show thesis
    using u assms f by (intro found [of u _ "sq\<lparr>sq_list := u # remove1 u (sq_list sq)\<rparr>"])
      (simp_all add: sem_undo_list_search_def)
next
  case False
  have "sem_undo_list_search q n s = Some (None, s)"
    using assms False by (auto simp: sem_undo_list_search_def)
  moreover have "\<not> VALID_SEMID n \<or> (\<forall>u\<in>set (sq_list sq). u_undo s u \<noteq> Some (semid2sem n))"
    using False by (auto simp: find_None_iff)
  ultimately show thesis by (rule missing)
qed

section \<open>A concrete machine\<close>

text \<open>Process 0 owns semaphore \<open>0xC0000200\<close> through undo record \<open>0xC0000300\<close> in queue \<open>0xC0000100\<close>; the
  queue \<open>0xC0000400\<close> is empty.\<close>

definition st2 :: usem where
  "st2 = \<lparr>k_procs = k_procs (st0 ()), k_rqs = k_rqs (st0 ()), k_timer = k_timer (st0 ()), k_timers = k_timers (st0 ()),
     k_current = 0, k_idle = 0,
     y_wait = (\<lambda>_. \<lparr>wt_process = None, wt_flags = 0, wt_queue = None, wt_linked = False\<rparr>), y_wq = (\<lambda>_. []),
     y_sem = [0xC0000100 \<mapsto> \<lparr>sem_value = 0, sem_ref = 0\<rparr>, 0xC0000200 \<mapsto> \<lparr>sem_value = 3, sem_ref = 1\<rparr>],
     y_pc = (\<lambda>_. None),
     u_semq = [0xC0000100 \<mapsto> \<lparr>sq_ref = 0, sq_list = [0xC0000300]\<rparr>, 0xC0000400 \<mapsto> \<lparr>sq_ref = 0, sq_list = []\<rparr>],
     u_undo = [0xC0000300 \<mapsto> 0xC0000200], u_psem = [0 \<mapsto> 0xC0000100]\<rparr>"

lemma st2_refs: "refs_ok st2"
proof -
  have "{u. u_undo st2 u = Some m} = (if m = 0xC0000200 then {0xC0000300} else {})" for m
    by (auto simp: st2_def split: if_splits)
  then show ?thesis by (auto simp: refs_ok_def) (auto simp: st2_def split: if_splits)
qed

lemma st2_fields:
  "u_semq st2 0xC0000100 = Some \<lparr>sq_ref = 0, sq_list = [0xC0000300]\<rparr>"
  "u_semq st2 0xC0000400 = Some \<lparr>sq_ref = 0, sq_list = []\<rparr>" "u_undo st2 = [0xC0000300 \<mapsto> 0xC0000200]"
  "u_psem st2 (k_current st2) = Some 0xC0000100" "y_wq st2 = (\<lambda>_. [])"
  "y_sem st2 = [0xC0000100 \<mapsto> \<lparr>sem_value = 0, sem_ref = 0\<rparr>, 0xC0000200 \<mapsto> \<lparr>sem_value = 3, sem_ref = 1\<rparr>]"
  by (simp_all add: st2_def)

section \<open>Properties\<close>

text \<open>C13: Exiting a semaphore queue steps from each undo record through the link of the record it has just
  freed.  If those links still hold what they held (the allocator writes nothing into a freed object, so
  this is when nothing reuses the memory in between), it returns: it deletes exactly the queue's undo
  records, leaves the queue empty, keeps every reference count equal to the number of undo records, and
  frees a semaphore exactly when its last undo record was in the queue.  If the link read in the first
  freed record leads outside the rest of the queue, it does not return.\<close>

theorem exit_frees_last_reference:
  assumes "refs_ok s" "u_semq s q = Some sq" "sq_ref sq = 0" "distinct (sq_list sq)"
    "\<forall>u\<in>set (sq_list sq). u_undo s u \<noteq> None"
  shows "((\<forall>u\<in>set (sq_list sq). \<forall>l. stale u l = l) \<longrightarrow>
      (\<exists>s'. exit_sem_queue stale q s = Some s' \<and> refs_ok s' \<and>
        u_semq s' = (u_semq s)(q := Some (sq\<lparr>sq_list := []\<rparr>)) \<and>
        (\<forall>u. u_undo s' u = (if u \<in> set (sq_list sq) then None else u_undo s u)) \<and>
        (\<forall>m. y_sem s' m \<noteq> None \<longleftrightarrow> y_sem s m \<noteq> None \<and>
          ((\<exists>u\<in>set (sq_list sq). u_undo s u = Some m) \<longrightarrow> (\<exists>v. v \<notin> set (sq_list sq) \<and> u_undo s v = Some m))))) \<and>
    (\<forall>u us v. sq_list sq = u # us \<and> stale u (list_first us) = Some v \<and> v \<notin> set us \<longrightarrow> exit_sem_queue stale q s = None)"
proof (intro conjI impI allI)
  assume stale: "\<forall>u\<in>set (sq_list sq). \<forall>l. stale u l = l"
  have "u_semq s q \<noteq> None" using assms(2) by simp
  from exit_all_ok [OF assms(1) this assms(4,5)] exit_all_semq [of s q sq "sq_list sq"] assms(2,3)
  show "\<exists>s'. exit_sem_queue stale q s = Some s' \<and> refs_ok s' \<and>
      u_semq s' = (u_semq s)(q := Some (sq\<lparr>sq_list := []\<rparr>)) \<and>
      (\<forall>u. u_undo s' u = (if u \<in> set (sq_list sq) then None else u_undo s u)) \<and>
      (\<forall>m. y_sem s' m \<noteq> None \<longleftrightarrow> y_sem s m \<noteq> None \<and>
        ((\<exists>u\<in>set (sq_list sq). u_undo s u = Some m) \<longrightarrow> (\<exists>v. v \<notin> set (sq_list sq) \<and> u_undo s v = Some m)))"
    by (auto simp: exit_sem_queue_def exit_loop_all [OF stale])
next
  fix u us v assume "sq_list sq = u # us \<and> stale u (list_first us) = Some v \<and> v \<notin> set us"
  with assms(2) show "exit_sem_queue stale q s = None"
    by (auto simp: exit_sem_queue_def list_first_def exit_loop_lost)
qed

text \<open>A queue that holds both undo records of a semaphore.\<close>

definition st3 :: usem where
  "st3 = st2\<lparr>y_sem := [0xC0000100 \<mapsto> \<lparr>sem_value = 0, sem_ref = 0\<rparr>, 0xC0000200 \<mapsto> \<lparr>sem_value = 3, sem_ref = 2\<rparr>],
     u_semq := [0xC0000100 \<mapsto> \<lparr>sq_ref = 0, sq_list = [0xC0000300, 0xC0000600]\<rparr>],
     u_undo := [0xC0000300 \<mapsto> 0xC0000200, 0xC0000600 \<mapsto> 0xC0000200]\<rparr>"

lemma st3_refs: "refs_ok st3"
proof -
  have "{u. u_undo st3 u = Some m} = (if m = 0xC0000200 then {0xC0000300, 0xC0000600} else {})" for m
    by (auto simp: st3_def split: if_splits)
  then show ?thesis by (auto simp: refs_ok_def) (auto simp: st3_def split: if_splits)
qed

theorem exit_frees_last_reference_witness:
  "(\<exists>s'. exit_sem_queue (\<lambda>u l. l) 0xC0000100 st3 = Some s' \<and> y_sem s' 0xC0000200 = None \<and> u_undo s' 0xC0000600 = None) \<and>
   exit_sem_queue (\<lambda>u l. Some u) 0xC0000100 st3 = None"
proof (rule conjI)
  let ?sq = "\<lparr>sq_ref = 0, sq_list = [0xC0000300, 0xC0000600]\<rparr>"
  have sq: "u_semq st3 0xC0000100 = Some ?sq" "sq_ref ?sq = 0" "distinct (sq_list ?sq)"
    "\<forall>u\<in>set (sq_list ?sq). u_undo st3 u \<noteq> None" by (simp_all add: st3_def)
  note ex = exit_frees_last_reference [OF st3_refs sq]
  from ex [of "\<lambda>u l. l"] obtain s' where s': "exit_sem_queue (\<lambda>u l. l) 0xC0000100 st3 = Some s'"
    "\<forall>u. u_undo s' u = (if u \<in> set (sq_list ?sq) then None else u_undo st3 u)"
    "\<forall>m. y_sem s' m \<noteq> None \<longleftrightarrow> y_sem st3 m \<noteq> None \<and> ((\<exists>u\<in>set (sq_list ?sq). u_undo st3 u = Some m) \<longrightarrow>
       (\<exists>v. v \<notin> set (sq_list ?sq) \<and> u_undo st3 v = Some m))" by blast
  have "\<not> (\<exists>v. v \<notin> set (sq_list ?sq) \<and> u_undo st3 v = Some 0xC0000200)" "\<exists>u\<in>set (sq_list ?sq). u_undo st3 u = Some 0xC0000200"
    by (simp_all add: st3_def)
  with s' show "\<exists>s'. exit_sem_queue (\<lambda>u l. l) 0xC0000100 st3 = Some s' \<and> y_sem s' 0xC0000200 = None \<and> u_undo s' 0xC0000600 = None"
    by (intro exI [of _ s']) auto
  show "exit_sem_queue (\<lambda>u l. Some u) 0xC0000100 st3 = None" using ex [of "\<lambda>u l. Some u"] by simp
qed

text \<open>C31: Duplicating a semaphore queue into an empty one (as \<^verbatim>\<open>fork\<close> does) succeeds when the allocator
  delivers fresh undo records, and exiting the copy afterwards, with the links of the freed records still in
  place, restores the whole state: no count is lost and nothing is freed under the original owner.\<close>

theorem dup_then_exit_restores:
  assumes "refs_ok s" "dst \<noteq> src" "u_semq s src = Some sq" "u_semq s dst = Some \<lparr>sq_ref = 0, sq_list = []\<rparr>"
    "\<forall>u\<in>set (sq_list sq). u_undo s u \<noteq> None"
    "\<forall>i<length (sq_list sq). \<exists>u. km i = Some u \<and> u_undo s u = None"
    "distinct (map km [0..<length (sq_list sq)])" and stale: "\<forall>u l. stale u l = l"
  shows "\<exists>s1. dup_sem_queue km dst src s = Some (Inr (), s1) \<and> exit_sem_queue stale dst s1 = Some s"
proof -
  have "\<exists>m sm. u_undo s e = Some m \<and> y_sem s m = Some sm \<and> 0 < sem_ref sm" if "e \<in> set (sq_list sq)" for e
    using assms(5) that refs_ok_pos [OF assms(1), of e] by (metis not_None_eq)
  then obtain us s1 where d: "dup_loop km 0 dst (sq_list sq) s = Some (Inr (), s1)"
    and q: "u_semq s1 dst = Some \<lparr>sq_ref = 0, sq_list = us\<rparr>" and e: "exit_all dst us s1 = Some s"
    using dup_exit_loop [OF _ assms(4), of "sq_list sq" km 0] assms(6,7) by auto
  have "exit_loop stale dst (list_first us) s1 = Some s" using exit_loop_all [OF _ q, of stale] stale e by simp
  with d q assms(2,3) show ?thesis by (simp add: dup_sem_queue_def exit_sem_queue_def kassert_def)
qed

theorem dup_then_exit_restores_witness:
  "refs_ok st2 \<and> (\<exists>s1. dup_sem_queue (\<lambda>_. Some 0xC0000500) 0xC0000400 0xC0000100 st2 = Some (Inr (), s1) \<and>
     exit_sem_queue (\<lambda>u l. l) 0xC0000400 s1 = Some st2)"
  using dup_then_exit_restores [OF st2_refs _ st2_fields(1,2), of "\<lambda>_. Some 0xC0000500" "\<lambda>u l. l"] st2_refs
  by (simp add: st2_fields(3))

text \<open>C32: Semaphore identifiers round-trip: the identifier of every semaphore in kernel memory is valid
  and decodes to the semaphore, every identifier is the identifier of what it decodes to, and the
  identifiers accepted as valid are exactly those below 2^30, which decode into kernel memory.\<close>

theorem semid_roundtrip:
  "semid2sem (sem2semid m) = m \<and> sem2semid (semid2sem n) = n \<and>
   (VALID_SEMID (sem2semid m) \<longleftrightarrow> KERNEL_BASE \<le> m) \<and> (VALID_SEMID n \<longleftrightarrow> n < 0x40000000)"
proof -
  have "sem2semid m < 0x40000000 \<longleftrightarrow> KERNEL_BASE \<le> m"
  proof (cases "KERNEL_BASE \<le> m")
    case True
    then have "unat (sem2semid m) = unat m - 0xC0000000" "0xC0000000 \<le> unat m"
      by (simp_all add: sem2semid_def KERNEL_BASE_def unat_sub word_le_nat_alt)
    moreover have "unat m < 2 ^ 32" using unsigned_less [of m] by simp
    ultimately show ?thesis using True by (simp add: word_less_nat_alt)
  next
    case False
    then have "unat m < 0xC0000000" by (simp add: KERNEL_BASE_def word_le_nat_alt)
    moreover have "sem2semid m = m + 0x40000000"
      unfolding sem2semid_def KERNEL_BASE_def diff_conv_add_uminus by simp
    ultimately have "unat (sem2semid m) = unat m + 0x40000000"
      using unat_add_no_wrap [of m "0x40000000"] by simp
    with False show ?thesis by (simp add: word_less_nat_alt)
  qed
  then show ?thesis by (simp add: semid_inverse VALID_SEMID_iff)
qed

text \<open>C33: A process can only post to semaphores it owns: with the list lock held, posting to an identifier
  that is invalid or not in the process's undo list fails with \<^verbatim>\<open>E_INVAL\<close>, and apart from the release
  of the list lock changes nothing; posting to an owned semaphore with no waiters adds one to its value.\<close>

theorem ipc_sem_post_owned:
  assumes "u_psem s (k_current s) = Some q" "u_semq s q = Some sq" "y_sem s q = Some lk" "y_wq s q = []"
  shows "if VALID_SEMID n \<and> (\<exists>u\<in>set (sq_list sq). u_undo s u = Some (semid2sem n))
    then semid2sem n \<noteq> q \<longrightarrow> y_wq s (semid2sem n) = [] \<longrightarrow> (\<forall>sm. y_sem s (semid2sem n) = Some sm \<longrightarrow>
      (\<exists>s'. ipc_sem_post_cont c n s = Some (Inr (), s') \<and>
        y_sem s' = (y_sem s)(q := Some (lk\<lparr>sem_value := sem_value lk + 1\<rparr>),
          semid2sem n := Some (sm\<lparr>sem_value := sem_value sm + 1\<rparr>))))
    else ipc_sem_post_cont c n s =
      Some (Inl E_INVAL, set_sem q (lk\<lparr>sem_value := sem_value lk + 1\<rparr>) s)"
proof (cases rule: sem_undo_list_search_spec [OF assms(2), of n, case_names found missing])
  case (found u s' sq')
  show ?thesis
    using found assms by (auto simp: ipc_sem_post_cont_def up_def sem_up_def wait_queue_first_def user_sem_up_def)
next
  case missing
  then show ?thesis
    using assms by (auto simp: ipc_sem_post_cont_def up_def sem_up_def wait_queue_first_def)
qed

theorem ipc_sem_post_owned_witness:
  "(\<exists>s'. ipc_sem_post_cont MLFQ_schedule_class 0x200 st2 = Some (Inr (), s') \<and>
      y_sem s' 0xC0000200 = Some \<lparr>sem_value = 4, sem_ref = 1\<rparr>) \<and>
   (\<exists>s'. ipc_sem_post_cont MLFQ_schedule_class 0x204 st2 = Some (Inl E_INVAL, s'))"
proof -
  have lk: "y_sem st2 0xC0000100 = Some \<lparr>sem_value = 0, sem_ref = 0\<rparr>" "y_wq st2 0xC0000100 = []"
    by (simp_all add: st2_fields)
  have a: "VALID_SEMID 0x200" "semid2sem 0x200 = 0xC0000200" "VALID_SEMID 0x204" "semid2sem 0x204 = 0xC0000204"
    by (simp_all add: VALID_SEMID_iff semid2sem_def KERNEL_BASE_def)
  show ?thesis
    using ipc_sem_post_owned [OF st2_fields(4,1) lk, where c = MLFQ_schedule_class and n = "0x200"]
      ipc_sem_post_owned [OF st2_fields(4,1) lk, where c = MLFQ_schedule_class and n = "0x204"]
    by (auto simp: a st2_fields(3,5,6))
qed

end
