(* ===== verification/Fsbase.thy ===== *)
theory Fsbase
  imports Kstring
begin

text \<open>
  The small data structures under the file system and the kernel hash tables: the free-block bitmap
  (\<^verbatim>\<open>src/kernel/fs/sfs/bitmap.c\<close>), the I/O buffer (\<^verbatim>\<open>src/kernel/fs/iobuf.c\<close>), 64-bit division in
  32-bit steps (\<^verbatim>\<open>do_div\<close> of \<^verbatim>\<open>src/lib/x86.h\<close>), the multiplicative hash (\<^verbatim>\<open>src/lib/hash.c\<close>) and the
  linear congruential generator (\<^verbatim>\<open>src/lib/rand.c\<close>).  Whether \<^verbatim>\<open>kmalloc\<close> succeeds is an argument.
\<close>

section \<open>The bitmap\<close>

definition WORD_BITS :: nat where "WORD_BITS = 32"

record bitmap =
  bm_nbits :: nat
  bm_nwords :: nat
  bm_map :: "u32 list"

function clear_over :: "nat \<Rightarrow> u32 \<Rightarrow> u32" where
  "clear_over over_bits w =
     (if over_bits < WORD_BITS then clear_over (Suc over_bits) (w XOR push_bit over_bits 1) else w)"
  by pat_completeness auto
termination by (relation "measure (\<lambda>(k, w). WORD_BITS - k)") auto

declare clear_over.simps [simp del]

text \<open>\<^verbatim>\<open>memset\<close> fills the words with \<^verbatim>\<open>0xFF\<close> bytes, the word \<open>- 1\<close>.\<close>

definition bitmap_create :: "bool \<Rightarrow> bool \<Rightarrow> u32 \<Rightarrow> bitmap option option" where
  "bitmap_create got_bitmap got_map nbits = do {
     kassert (nbits \<noteq> 0 \<and> nbits + of_nat WORD_BITS > nbits);
     if \<not> got_bitmap then Some None
     else
       let nwords = unat (ROUNDUP_DIV nbits (of_nat WORD_BITS))
       in if \<not> got_map then Some None
          else
            let m = replicate nwords (- 1)
            in if unat nbits \<noteq> nwords * WORD_BITS then
                 let ix = nwords - 1;
                     over_bits = unat nbits - ix * WORD_BITS
                 in do {
                      kassert (unat nbits div WORD_BITS = ix);
                      kassert (over_bits > 0 \<and> over_bits < WORD_BITS);
                      Some (Some \<lparr>bm_nbits = unat nbits, bm_nwords = nwords,
                        bm_map = m[ix := clear_over over_bits (m ! ix)]\<rparr>)
                    }
               else Some (Some \<lparr>bm_nbits = unat nbits, bm_nwords = nwords, bm_map = m\<rparr>)
   }"

function find_offset :: "u32 \<Rightarrow> nat \<Rightarrow> nat option" where
  "find_offset w offset =
     (if offset < WORD_BITS
      then if w AND push_bit offset 1 \<noteq> 0 then Some offset else find_offset w (Suc offset)
      else None)"
  by pat_completeness auto
termination by (relation "measure (\<lambda>(w, k). WORD_BITS - k)") auto

declare find_offset.simps [simp del]

text \<open>The outer loop over the words from index \<open>ix\<close> on.\<close>

fun alloc_scan :: "nat \<Rightarrow> u32 list \<Rightarrow> (nat \<times> nat) option" where
  "alloc_scan ix [] = None"
| "alloc_scan ix (w # ws) =
     (if w \<noteq> 0 then (case find_offset w 0 of Some offset \<Rightarrow> Some (ix, offset) | None \<Rightarrow> alloc_scan (Suc ix) ws)
      else alloc_scan (Suc ix) ws)"

definition bitmap_alloc :: "bitmap \<Rightarrow> kerr + nat \<times> bitmap" where
  "bitmap_alloc b =
     (case alloc_scan 0 (bm_map b) of
        Some (ix, offset) \<Rightarrow> Inr (ix * WORD_BITS + offset,
          b\<lparr>bm_map := (bm_map b)[ix := (bm_map b ! ix) XOR push_bit offset 1]\<rparr>)
      | None \<Rightarrow> Inl E_NO_MEM)"

definition bitmap_translate :: "bitmap \<Rightarrow> nat \<Rightarrow> (nat \<times> u32) option" where
  "bitmap_translate b index = do {
     kassert (index < bm_nbits b);
     Some (index div WORD_BITS, push_bit (index mod WORD_BITS) 1)
   }"

definition bitmap_test :: "bitmap \<Rightarrow> nat \<Rightarrow> bool option" where
  "bitmap_test b index = do {
     (ix, mask) \<leftarrow> bitmap_translate b index;
     Some ((bm_map b ! ix) AND mask \<noteq> 0)
   }"

definition bitmap_free :: "bitmap \<Rightarrow> nat \<Rightarrow> bitmap option" where
  "bitmap_free b index = do {
     (ix, mask) \<leftarrow> bitmap_translate b index;
     kassert (\<not> ((bm_map b ! ix) AND mask \<noteq> 0));
     Some (b\<lparr>bm_map := (bm_map b)[ix := (bm_map b ! ix) OR mask]\<rparr>)
   }"

definition bitmap_get_data :: "bitmap \<Rightarrow> u32 list \<times> nat" where
  "bitmap_get_data b = (bm_map b, 4 * bm_nwords b)"

subsection \<open>Free indices\<close>

definition bm_free :: "bitmap \<Rightarrow> nat set" where
  "bm_free b = {i. i < bm_nbits b \<and> bit (bm_map b ! (i div 32)) (i mod 32)}"

definition bm_wf :: "bitmap \<Rightarrow> bool" where
  "bm_wf b \<longleftrightarrow> length (bm_map b) = bm_nwords b \<and> bm_nbits b \<le> 32 * bm_nwords b \<and>
     (\<forall>i<32 * bm_nwords b. bit (bm_map b ! (i div 32)) (i mod 32) \<longrightarrow> i < bm_nbits b)"

lemma and_mask_bit: "(w :: u32) AND push_bit k 1 \<noteq> 0 \<longleftrightarrow> k < 32 \<and> bit w k"
proof
  assume "w AND push_bit k 1 \<noteq> 0"
  then obtain n where "bit (w AND push_bit k 1) n" using bit_eqI [of "w AND push_bit k 1" 0] by auto
  then show "k < 32 \<and> bit w k" by (auto simp: bit_simps dest: bit_imp_le_length)
next
  assume "k < 32 \<and> bit w k"
  then have "bit (w AND push_bit k 1) k" by (simp add: bit_simps del: push_bit_of_1)
  then show "w AND push_bit k 1 \<noteq> 0" by (metis bit_0_eq bot_apply bot_bool_def)
qed

declare push_bit_of_1 [simp del]

lemma bit_mask: "bit (push_bit k (1 :: u32)) n \<longleftrightarrow> n = k \<and> k < 32"
  by (auto simp: bit_simps)

lemma nonzero_bit: "(w :: u32) \<noteq> 0 \<longleftrightarrow> (\<exists>n<32. bit w n)"
  by (auto simp: bit_eq_iff dest: bit_imp_le_length)

lemma find_offset_spec:
  "case find_offset w k of
     Some j \<Rightarrow> k \<le> j \<and> j < 32 \<and> bit w j \<and> (\<forall>i. k \<le> i \<and> i < j \<longrightarrow> \<not> bit w i)
   | None \<Rightarrow> \<forall>i. k \<le> i \<longrightarrow> \<not> bit w i"
proof (induction w k rule: find_offset.induct)
  case (1 w k)
  show ?case
  proof (cases "k < 32")
    case True
    show ?thesis
    proof (cases "bit w k")
      case False
      then have e: "find_offset w k = find_offset w (Suc k)"
        using True by (subst find_offset.simps) (simp add: WORD_BITS_def and_mask_bit)
      have "i = k \<or> Suc k \<le> i" if "k \<le> i" for i using that by linarith
      with 1 True False show ?thesis
        unfolding e by (auto simp: WORD_BITS_def and_mask_bit split: option.splits)
    qed (use True in \<open>subst find_offset.simps, auto simp: WORD_BITS_def and_mask_bit\<close>)
  qed (subst find_offset.simps, auto simp: WORD_BITS_def dest: bit_imp_le_length)
qed

lemma alloc_scan_spec:
  "case alloc_scan ix ws of
     Some (j, off) \<Rightarrow> ix \<le> j \<and> j < ix + length ws \<and> off < 32 \<and> bit (ws ! (j - ix)) off \<and>
       (\<forall>k<off. \<not> bit (ws ! (j - ix)) k) \<and> (\<forall>i<j - ix. ws ! i = 0)
   | None \<Rightarrow> \<forall>w\<in>set ws. w = 0"
proof (induction ws arbitrary: ix)
  case (Cons w ws)
  show ?case
  proof (cases "w = 0")
    case True
    then show ?thesis
      using Cons [of "Suc ix"]
      by (auto simp: nth_Cons' less_Suc_eq_0_disj split: option.splits)
  next
    case False
    then obtain j where "find_offset w 0 = Some j" "j < 32" "bit w j" "\<forall>i<j. \<not> bit w i"
      using find_offset_spec [where w = w and k = 0] nonzero_bit [of w] by (auto split: option.splits)
    with False show ?thesis by simp
  qed
qed simp

lemma alloc_scan_index:
  assumes wf: "bm_wf b" and sc: "alloc_scan 0 (bm_map b) = Some (j, off)"
  shows "j < bm_nwords b" "off < 32" "j * 32 + off \<in> bm_free b" "\<And>i. i \<in> bm_free b \<Longrightarrow> j * 32 + off \<le> i"
proof -
  from alloc_scan_spec [where ix = 0 and ws = "bm_map b"] sc have
    j: "j < length (bm_map b)" "off < 32" "bit (bm_map b ! j) off" "\<forall>k<off. \<not> bit (bm_map b ! j) k"
      "\<forall>i<j. bm_map b ! i = 0" by simp_all
  then show "j < bm_nwords b" "off < 32" using wf by (simp_all add: bm_wf_def)
  have div: "(j * 32 + off) div 32 = j" "(j * 32 + off) mod 32 = off" using j(2) by simp_all
  have "j * 32 + off < 32 * bm_nwords b" using j(1,2) wf by (simp add: bm_wf_def)
  with wf have "bit (bm_map b ! ((j * 32 + off) div 32)) ((j * 32 + off) mod 32) \<longrightarrow> j * 32 + off < bm_nbits b"
    unfolding bm_wf_def by blast
  then have "j * 32 + off < bm_nbits b" using j(3) unfolding div by blast
  then show "j * 32 + off \<in> bm_free b" using j(2,3) by (simp add: bm_free_def div)
  fix i assume "i \<in> bm_free b"
  then have i: "bit (bm_map b ! (i div 32)) (i mod 32)" by (simp add: bm_free_def)
  show "j * 32 + off \<le> i"
  proof (rule ccontr)
    assume "\<not> j * 32 + off \<le> i"
    then have "i div 32 < j \<or> i div 32 = j \<and> i mod 32 < off"
      using j(2) div_mult_mod_eq [of i 32] mod_less_divisor [of 32 i] by linarith
    with i j(4,5) show False by auto
  qed
qed

lemma bitmap_upd_bit:
  assumes "length m = n" "j < n" "off < 32" "i < 32 * n"
  shows "bit (m[j := m ! j XOR push_bit off (1 :: u32)] ! (i div 32)) (i mod 32) \<longleftrightarrow>
    (if i = j * 32 + off then \<not> bit (m ! j) off else bit (m ! (i div 32)) (i mod 32))"
proof -
  have "i div 32 = j \<and> i mod 32 = off \<longleftrightarrow> i = j * 32 + off" using assms(3) by auto
  moreover have "i div 32 < n" using assms(4) by (simp add: less_mult_imp_div_less mult.commute)
  ultimately show ?thesis using assms(1-3) by (auto simp: nth_list_update bit_simps bit_mask)
qed

lemma clear_over_bit: "bit (clear_over k w) i \<longleftrightarrow> (if k \<le> i \<and> i < 32 then \<not> bit w i else bit w i)"
proof (induction k w rule: clear_over.induct)
  case (1 k w)
  show ?case
  proof (cases "k < 32")
    case True
    then have "clear_over k w = clear_over (Suc k) (w XOR push_bit k 1)"
      by (subst clear_over.simps) (simp add: WORD_BITS_def)
    with 1 True show ?thesis by (auto simp: WORD_BITS_def bit_simps bit_mask)
  next
    case False
    then have "clear_over k w = w" by (subst clear_over.simps) (simp add: WORD_BITS_def)
    with False show ?thesis by auto
  qed
qed

lemma ones_bit: "bit (- 1 :: u32) i \<longleftrightarrow> i < 32"
  by (simp add: bit_simps)

lemma bitmap_create_ok:
  assumes "nbits \<noteq> 0" "unat nbits + 32 < 2 ^ 32"
  shows "\<exists>b. bitmap_create True True nbits = Some (Some b) \<and> bm_wf b \<and> bm_free b = {..<unat nbits}"
proof -
  define n where "n = unat nbits"
  define w where "w = (n + 31) div 32"
  have w: "unat (ROUNDUP_DIV nbits 32) = w"
  proof -
    have "unat (31 :: u32) = 31" by simp
    then have "unat (nbits + 31) = n + 31" using assms(2) unat_add_no_wrap [of nbits 31] unfolding n_def by linarith
    then have "unat (nbits + 32 - 1) = n + 31" by (simp add: algebra_simps)
    then show ?thesis by (simp add: ROUNDUP_DIV_def unat_div w_def)
  qed
  have "unat (32 :: u32) = 32" by simp
  then have "unat (nbits + 32) = n + 32" using assms(2) unat_add_no_wrap [of nbits 32] unfolding n_def by linarith
  then have wrap: "nbits < nbits + 32" by (simp add: word_less_nat_alt n_def)
  have pos: "0 < n" using assms(1) by (simp add: unat_gt_0 n_def)
  have create: "bitmap_create True True nbits =
      (let m = replicate w (- 1) in if n \<noteq> w * 32 then
         let ix = w - 1; over_bits = n - ix * 32
         in do { kassert (n div 32 = ix); kassert (over_bits > 0 \<and> over_bits < 32);
              Some (Some \<lparr>bm_nbits = n, bm_nwords = w, bm_map = m[ix := clear_over over_bits (m ! ix)]\<rparr>) }
       else Some (Some \<lparr>bm_nbits = n, bm_nwords = w, bm_map = m\<rparr>))"
    using assms(1) wrap by (simp add: bitmap_create_def WORD_BITS_def w Let_def flip: n_def)
  show ?thesis
  proof (cases "n = w * 32")
    case True
    let ?b = "\<lparr>bm_nbits = n, bm_nwords = w, bm_map = replicate w (- 1)\<rparr>"
    have "bitmap_create True True nbits = Some (Some ?b)" unfolding create using True by (simp add: Let_def)
    moreover have "i div 32 < w" if "i < n" for i using that True by (simp add: less_mult_imp_div_less)
    then have "bm_wf ?b" "bm_free ?b = {..<n}" using True by (auto simp: bm_wf_def bm_free_def ones_bit)
    ultimately show ?thesis unfolding n_def by blast
  next
    case False
    define ix where "ix = w - 1"
    define ov where "ov = n - ix * 32"
    have "n mod 32 \<noteq> 0"
    proof
      assume "n mod 32 = 0"
      then obtain k where "n = 32 * k" by (auto elim: dvdE)
      with False show False by (simp add: w_def)
    qed
    then have "(n mod 32 + 31) div 32 = 1" using mod_less_divisor [of 32 n] by (intro div_nat_eqI) simp_all
    then have "w = Suc (n div 32)"
      using div_mult_self3 [of 32 "n div 32" "n mod 32 + 31"] by (simp add: w_def flip: add.assoc)
    then have ix: "ix = n div 32" "w = Suc ix" by (simp_all add: ix_def)
    then have "ov = n mod 32" by (simp add: ov_def minus_div_mult_eq_mod)
    with ix \<open>n mod 32 \<noteq> 0\<close> have a: "n div 32 = ix" "0 < ov" "ov < 32" "ix < w" "n = ix * 32 + ov" "w = Suc ix"
      by simp_all
    let ?m = "(replicate w (- 1))[ix := clear_over ov (- 1)]"
    let ?b = "\<lparr>bm_nbits = n, bm_nwords = w, bm_map = ?m\<rparr>"
    have "bitmap_create True True nbits = Some (Some ?b)"
      unfolding create Let_def ix_def [symmetric] ov_def [symmetric] using False a(1-4) by simp
    moreover have bits: "bit (?m ! (i div 32)) (i mod 32) \<longleftrightarrow> i < n" if "i < 32 * w" for i
    proof -
      have "i div 32 < w" using that by (simp add: less_mult_imp_div_less mult.commute)
      moreover have "i div 32 = ix \<longrightarrow> (i mod 32 < ov \<longleftrightarrow> i < n)" "i div 32 \<noteq> ix \<longrightarrow> i < n"
        using a(3,5,6) that div_mult_mod_eq [of i 32] mod_less_divisor [of 32 i] by linarith+
      ultimately show ?thesis
        using a(4) by (cases "i div 32 = ix") (simp_all add: nth_list_update clear_over_bit ones_bit, linarith?)
    qed
    have "n \<le> 32 * w" using a(3,5,6) by simp
    then have "bm_wf ?b" "bm_free ?b = {..<n}" using bits by (auto simp: bm_wf_def bm_free_def)
    ultimately show ?thesis unfolding n_def by blast
  qed
qed

section \<open>The I/O buffer\<close>

text \<open>
  \<^verbatim>\<open>off_t\<close> is a signed 32-bit integer.  File offsets are integers, and every arithmetic on them is
  reduced by \<open>i32\<close>, so they wrap where the code's do.
\<close>

record iobuf =
  io_base :: nat
  io_offset :: int
  io_len :: nat
  io_resid :: nat

definition iobuf_init :: "nat \<Rightarrow> nat \<Rightarrow> int \<Rightarrow> iobuf" where
  "iobuf_init base len offset = \<lparr>io_base = base, io_offset = offset, io_len = len, io_resid = len\<rparr>"

definition iobuf_used :: "iobuf \<Rightarrow> nat" where
  "iobuf_used iob = io_len iob - io_resid iob"

definition iobuf_skip :: "iobuf \<Rightarrow> nat \<Rightarrow> iobuf option" where
  "iobuf_skip iob n = do {
     kassert (io_resid iob \<ge> n);
     Some (iob\<lparr>io_base := io_base iob + n, io_offset := i32 (io_offset iob + int n), io_resid := io_resid iob - n\<rparr>)
   }"

text \<open>The result is the error or success, the number of bytes moved, the buffer and the memory.\<close>

definition iobuf_move ::
    "mem \<Rightarrow> iobuf \<Rightarrow> nat \<Rightarrow> nat \<Rightarrow> bool \<Rightarrow> ((kerr + unit) \<times> nat \<times> iobuf \<times> mem) option" where
  "iobuf_move m iob data len m2b =
     (let move_len = (if io_resid iob > len then len else io_resid iob)
      in do {
        (iob1, m1, len1) \<leftarrow>
          (if move_len > 0 then do {
             let src = (if m2b then data else io_base iob);
             let dst = (if m2b then io_base iob else data);
             let m1 = memmove m dst src move_len;
             iob1 \<leftarrow> iobuf_skip iob move_len;
             Some (iob1, m1, len - move_len)
           } else Some (iob, m, len));
        Some (if len1 = 0 then Inr () else Inl E_NO_MEM, move_len, iob1, m1)
      })"

definition iobuf_move_zeros :: "mem \<Rightarrow> iobuf \<Rightarrow> nat \<Rightarrow> ((kerr + unit) \<times> nat \<times> iobuf \<times> mem) option" where
  "iobuf_move_zeros m iob len =
     (let move_len = (if io_resid iob > len then len else io_resid iob)
      in do {
        (iob1, m1, len1) \<leftarrow>
          (if move_len > 0 then do {
             let m1 = memset m (io_base iob) 0 move_len;
             iob1 \<leftarrow> iobuf_skip iob move_len;
             Some (iob1, m1, len - move_len)
           } else Some (iob, m, len));
        Some (if len1 = 0 then Inr () else Inl E_NO_MEM, move_len, iob1, m1)
      })"

section \<open>Division, hashing and random numbers\<close>

text \<open>\<^verbatim>\<open>do_div\<close> on the high and low word; \<^verbatim>\<open>divl\<close> faults when the quotient does not fit.\<close>

definition divl :: "nat \<Rightarrow> nat \<Rightarrow> nat \<Rightarrow> (nat \<times> nat) option" where
  "divl upper low base =
     (if base = 0 \<or> (upper * 2 ^ 32 + low) div base \<ge> 2 ^ 32 then None
      else Some ((upper * 2 ^ 32 + low) div base, (upper * 2 ^ 32 + low) mod base))"

definition do_div :: "u64 \<Rightarrow> u32 \<Rightarrow> (u64 \<times> u32) option" where
  "do_div n base =
     (let low = unat n mod 2 ^ 32; high = unat n div 2 ^ 32;
          upper = (if high \<noteq> 0 then high mod unat base else high);
          high1 = (if high \<noteq> 0 then high div unat base else high)
      in do {
        kassert (high \<noteq> 0 \<longrightarrow> base \<noteq> 0);
        (q, r) \<leftarrow> divl upper low (unat base);
        Some (of_nat (high1 * 2 ^ 32 + q), of_nat r)
      })"

definition GOLDEN_RATIO_PRIME_32 :: u32 where "GOLDEN_RATIO_PRIME_32 = 0x9e370001"

definition hash32 :: "u32 \<Rightarrow> nat \<Rightarrow> u32" where
  "hash32 val bits = drop_bit (32 - bits) (val * GOLDEN_RATIO_PRIME_32)"

definition RAND_MAX :: nat where "RAND_MAX = 2147483647"

definition rand_seed_next :: "u64 \<Rightarrow> u64" where
  "rand_seed_next seed = (seed * 0x5deece66d + 0xb) AND (push_bit 48 1 - 1)"

definition rand :: "u64 \<Rightarrow> (int \<times> u64) option" where
  "rand seed = do {
     let seed1 = rand_seed_next seed;
     (_, r) \<leftarrow> do_div (drop_bit 12 seed1) (of_nat (RAND_MAX + 1));
     Some (sint (ucast r :: 32 word), seed1)
   }"

definition srand :: "u32 \<Rightarrow> u64" where
  "srand seed = ucast seed"

lemma do_div_spec:
  assumes "base \<noteq> 0"
  shows "\<exists>q r. do_div n base = Some (q, r) \<and> unat q = unat n div unat base \<and> unat r = unat n mod unat base"
proof -
  let ?b = "unat base" and ?h = "unat n div 2 ^ 32" and ?l = "unat n mod 2 ^ 32"
  have b: "0 < ?b" "?b < 2 ^ 32" using assms unsigned_less [of base] by (simp_all add: unat_gt_0)
  define up where "up = ?h mod ?b"
  have up: "up < ?b" using b by (simp add: up_def)
  have q: "(up * 2 ^ 32 + ?l) div ?b < 2 ^ 32"
  proof -
    have "up * 2 ^ 32 + ?l < (up + 1) * 2 ^ 32" by simp
    also have "\<dots> \<le> ?b * 2 ^ 32" using up by (intro mult_le_mono1) simp
    finally show ?thesis using b by (simp add: div_less_iff_less_mult mult.commute)
  qed
  have n: "unat n = ?h * 2 ^ 32 + ?l" by simp
  have h: "?h = ?h div ?b * ?b + up" by (simp add: up_def)
  have split: "unat n = (?h div ?b * 2 ^ 32) * ?b + (up * 2 ^ 32 + ?l)"
  proof -
    have "?h * 2 ^ 32 = (?h div ?b * ?b + up) * 2 ^ 32" using h by simp
    then show ?thesis using n by (simp add: algebra_simps)
  qed
  have quot: "unat n div ?b = ?h div ?b * 2 ^ 32 + (up * 2 ^ 32 + ?l) div ?b"
    "unat n mod ?b = (up * 2 ^ 32 + ?l) mod ?b"
    using b(1) by (subst split, simp)+
  have "unat n < 2 ^ 64" using unsigned_less [of n] by simp
  then have small: "unat n div ?b < 2 ^ 64" "unat n mod ?b < 2 ^ 32"
    using div_le_dividend [of "unat n" ?b] mod_less_divisor [OF b(1), of "unat n"] b(2) by linarith+
  have sel: "(if ?h \<noteq> 0 then ?h mod ?b else ?h) = up" "(if ?h \<noteq> 0 then ?h div ?b else ?h) = ?h div ?b"
    by (simp_all add: up_def)
  have "do_div n base = Some (of_nat (unat n div ?b), of_nat (unat n mod ?b))"
    unfolding do_div_def Let_def sel quot using assms b(1) q by (simp add: divl_def)
  moreover have "unat (of_nat (unat n div ?b) :: u64) = unat n div ?b"
    "unat (of_nat (unat n mod ?b) :: u32) = unat n mod ?b"
    using small by (simp_all add: unat_of_nat)
  ultimately show ?thesis by blast
qed

lemma hash32_less:
  assumes "0 < bits" "bits \<le> 32"
  shows "unat (hash32 v bits) < 2 ^ bits"
proof -
  let ?h = "v * GOLDEN_RATIO_PRIME_32"
  have "unat ?h < 2 ^ 32" using unsigned_less [of ?h] by simp
  also have "(2 :: nat) ^ 32 = 2 ^ bits * 2 ^ (32 - bits)" using assms by (simp flip: power_add)
  finally have "unat ?h div 2 ^ (32 - bits) < 2 ^ bits" by (simp add: div_less_iff_less_mult)
  moreover have "unat (hash32 v bits) = unat ?h div 2 ^ (32 - bits)"
    unfolding hash32_def by (simp only: unat_drop_bit_eq) (simp only: drop_bit_eq_div)
  ultimately show ?thesis by simp
qed

section \<open>Properties\<close>

text \<open>C34: Allocating from a well-formed bitmap returns the least free index and marks it used, or fails with
  \<^verbatim>\<open>E_NO_MEM\<close> exactly when nothing is free; the bitmap stays well-formed, the index is below the number
  of bits although the scan runs over whole words, and freeing the index restores the bitmap.\<close>

theorem bitmap_alloc_least:
  assumes wf: "bm_wf b"
  shows "case bitmap_alloc b of
      Inl e \<Rightarrow> e = E_NO_MEM \<and> bm_free b = {}
    | Inr (i, b') \<Rightarrow> i \<in> bm_free b \<and> (\<forall>j\<in>bm_free b. i \<le> j) \<and> bm_wf b' \<and> bm_free b' = bm_free b - {i} \<and>
        bitmap_test b' i = Some False \<and> bitmap_free b' i = Some b"
proof (cases "alloc_scan 0 (bm_map b)")
  case None
  have "i \<notin> bm_free b" for i
  proof
    assume "i \<in> bm_free b"
    then have i: "i < bm_nbits b" "bit (bm_map b ! (i div 32)) (i mod 32)" by (simp_all add: bm_free_def)
    then have "i div 32 < length (bm_map b)"
      using wf by (simp add: bm_wf_def less_mult_imp_div_less mult.commute)
    with alloc_scan_spec [where ix = 0 and ws = "bm_map b"] None have "bm_map b ! (i div 32) = 0" by simp
    with i(2) show False by simp
  qed
  with None show ?thesis by (auto simp: bitmap_alloc_def)
next
  case (Some p)
  obtain j off where p: "p = (j, off)" by fastforce
  note sc = alloc_scan_index [OF wf Some [unfolded p]]
  let ?i = "j * 32 + off" and ?b = "b\<lparr>bm_map := (bm_map b)[j := bm_map b ! j XOR push_bit off 1]\<rparr>"
  have len: "length (bm_map b) = bm_nwords b" using wf by (simp add: bm_wf_def)
  have div: "?i div 32 = j" "?i mod 32 = off" using sc(2) by simp_all
  have set: "?i < bm_nbits b" "bit (bm_map b ! j) off" using sc(2,3) by (simp_all add: bm_free_def div)
  have bits: "bit (bm_map ?b ! (i div 32)) (i mod 32) \<longleftrightarrow> i \<noteq> ?i \<and> bit (bm_map b ! (i div 32)) (i mod 32)"
    if "i < 32 * bm_nwords b" for i
    using bitmap_upd_bit [OF len sc(1,2) that] set(2) by auto
  have le: "i < 32 * bm_nwords b" if "i < bm_nbits b" for i using that wf by (simp add: bm_wf_def)
  have "bm_wf ?b" using wf bits by (simp add: bm_wf_def)
  moreover have "bm_free ?b = bm_free b - {?i}" using bits le by (auto simp: bm_free_def)
  moreover have "\<not> bit (bm_map b ! j XOR push_bit off 1) off" using set(2) sc(2) by (simp add: bit_simps bit_mask)
  then have clear: "(bm_map b ! j XOR push_bit off 1) AND push_bit off 1 = 0"
    using and_mask_bit [of "bm_map b ! j XOR push_bit off 1" off] by blast
  then have "bitmap_test ?b ?i = Some False"
    using set(1) sc(1,2) len by (simp add: bitmap_test_def bitmap_translate_def WORD_BITS_def div)
  moreover have "(bm_map b ! j XOR push_bit off 1) OR push_bit off 1 = bm_map b ! j"
    by (rule bit_eqI) (use set(2) in \<open>auto simp: bit_simps bit_mask\<close>)
  then have "bitmap_free ?b ?i = Some b"
    using set(1) sc(1,2) len clear by (simp add: bitmap_free_def bitmap_translate_def WORD_BITS_def div)
  ultimately show ?thesis using sc(3,4) Some p by (simp add: bitmap_alloc_def WORD_BITS_def)
qed

theorem bitmap_alloc_least_witness:
  "\<exists>b. bitmap_create True True 40 = Some (Some b) \<and> (\<exists>b'. bitmap_alloc b = Inr (0, b') \<and> bitmap_free b' 0 = Some b)"
proof -
  from bitmap_create_ok [of 40] obtain b where b: "bitmap_create True True 40 = Some (Some b)" "bm_wf b"
    "bm_free b = {..<40}" by auto
  have free: "0 \<in> bm_free b" using b(3) by simp
  then have "\<exists>b'. bitmap_alloc b = Inr (0, b') \<and> bitmap_free b' 0 = Some b"
    using bitmap_alloc_least [OF b(2)] by (cases "bitmap_alloc b") auto
  with b(1) show ?thesis by blast
qed

lemma iobuf_move_eq:
  "iobuf_move m iob data len m2b =
     Some (if len \<le> io_resid iob then Inr () else Inl E_NO_MEM, min len (io_resid iob),
       iob\<lparr>io_base := io_base iob + min len (io_resid iob), 
         io_offset := (if min len (io_resid iob) = 0 then io_offset iob else i32 (io_offset iob + int (min len (io_resid iob)))),
         io_resid := io_resid iob - min len (io_resid iob)\<rparr>,
       copied m (if m2b then io_base iob else data) (if m2b then data else io_base iob) (min len (io_resid iob)))"
proof (cases "min len (io_resid iob) = 0")
  case True
  moreover have "iob\<lparr>io_resid := 0\<rparr> = iob" if "io_resid iob = 0" using that by (cases iob) simp
  ultimately show ?thesis
    by (cases "len = 0"; cases "io_resid iob = 0") (simp_all add: iobuf_move_def Let_def)
next
  case False
  then show ?thesis
    by (cases "io_resid iob < len") (simp_all add: iobuf_move_def Let_def iobuf_skip_def memmove_copied)
qed

text \<open>C35: \<^verbatim>\<open>iobuf_move\<close> moves the smaller of the buffer's remaining size and the requested length, in either
  direction and also when the regions overlap, advances the buffer by what it moved (the file offset as
  a signed 32-bit integer, which wraps), and reports an error exactly when the request did not fit.\<close>

theorem iobuf_move_correct:
  "let n = min len (io_resid iob);
       dst = (if m2b then io_base iob else data);
       src = (if m2b then data else io_base iob)
   in iobuf_move m iob data len m2b =
     Some (if len \<le> io_resid iob then Inr () else Inl E_NO_MEM, n,
       iob\<lparr>io_base := io_base iob + n,
         io_offset := (if n = 0 then io_offset iob else i32 (io_offset iob + int n)), io_resid := io_resid iob - n\<rparr>,
       copied m dst src n)"
  unfolding Let_def by (rule iobuf_move_eq)

text \<open>C36: \<^verbatim>\<open>do_div\<close>, which divides a 64-bit number with 32-bit instructions, neither faults nor loses bits: it
  computes the exact quotient and remainder for every dividend and every non-zero divisor.  It makes
  the random number generator total with values from 0 to \<^verbatim>\<open>RAND_MAX\<close>.\<close>

theorem do_div_exact:
  assumes "base \<noteq> 0"
  shows "(\<exists>q r. do_div n base = Some (q, r) \<and> unat q = unat n div unat base \<and> unat r = unat n mod unat base) \<and>
    (\<exists>v seed'. rand seed = Some (v, seed') \<and> 0 \<le> v \<and> v \<le> int RAND_MAX)"
proof
  show "\<exists>q r. do_div n base = Some (q, r) \<and> unat q = unat n div unat base \<and> unat r = unat n mod unat base"
    by (rule do_div_spec [OF assms])
  have "(2147483648 :: u32) \<noteq> 0" by simp
  from do_div_spec [OF this, of "drop_bit 12 (rand_seed_next seed)"] obtain q r where
    qr: "do_div (drop_bit 12 (rand_seed_next seed)) 2147483648 = Some (q, r)"
      "unat r = unat (drop_bit 12 (rand_seed_next seed)) mod 2147483648" by auto
  then have r: "unat r < 2 ^ 31" by simp
  have "int (unat r) < int (2 ^ 31)" using r by (simp only: of_nat_less_iff)
  then have u: "uint r < 2 ^ 31" by simp
  have "sint r = signed_take_bit 31 (uint r)" by (simp add: sint_uint)
  also have "\<dots> = uint r" by (rule signed_take_bit_int_eq_self) (use u in \<open>simp_all add: order.trans [OF _ uint_ge_0]\<close>)
  finally have "sint r = int (unat r)" by simp
  with qr(1) u show "\<exists>v seed'. rand seed = Some (v, seed') \<and> 0 \<le> v \<and> v \<le> int RAND_MAX"
    by (simp add: rand_def RAND_MAX_def)
qed

theorem do_div_exact_witness:
  "\<exists>q r. do_div 0xFFFFFFFFFFFFFFFF 10 = Some (q, r) \<and> unat r = 5"
proof -
  have "(10 :: u32) \<noteq> 0" by simp
  from do_div_exact [OF this, of "0xFFFFFFFFFFFFFFFF" 1] show ?thesis by auto
qed

end
