(* ===== verification/Vfs.thy ===== *)
theory Vfs
  imports Fsbase
begin

text \<open>
  The virtual file system: inodes with their reference and open counts (\<^verbatim>\<open>src/kernel/fs/vfs/inode.c\<close>),
  the list of devices (\<^verbatim>\<open>vfsdev.c\<close>), path resolution (\<^verbatim>\<open>vfslookup.c\<close>), the current directory and the
  boot file system (\<^verbatim>\<open>vfspath.c\<close>, \<^verbatim>\<open>vfs.c\<close>) and the operations on paths (\<^verbatim>\<open>vfsfile.c\<close>).

  The operations of an inode are reached through a table of function pointers.  The table is the record
  \<open>inode_ops\<close>, its null pointers are \<^const>\<open>None\<close>, and the argument \<open>ops\<close> of the definitions below gives the table
  of every inode; likewise \<open>fops\<close> gives the operations of every mounted file system.  An operation returns
  its result with the new state, or \<^const>\<open>None\<close> when the machine stops.  Kernel locks are counters: taking one
  that is not available stops the (single) thread of this model.  Paths are lists of characters.
\<close>

section \<open>State\<close>

record inode =
  in_ref :: int
  in_open :: int
  in_fs :: "nat option"
  in_isdev :: bool

datatype fd_status = FD_NONE | FD_INIT | FD_OPENED | FD_CLOSED

record File =
  f_status :: fd_status
  f_readable :: bool
  f_writable :: bool
  f_fd :: int
  f_pos :: int
  f_node :: "nat option"
  f_count :: int

record fs_struct =
  fs_pwd :: "nat option"
  fs_filemap :: "File list"
  fs_count :: int
  fs_sem :: int

record vdev =
  vd_name :: string
  vd_name_at :: nat
  vd_node :: "nat option"
  vd_fs :: "nat option"
  vd_mountable :: bool

record vst =
  v_inode :: "nat \<Rightarrow> inode option"
  v_fs :: "nat \<Rightarrow> fs_struct option"
  v_cur :: nat
  v_bootfs :: "nat option"
  v_bootfs_sem :: int
  v_vdevs :: "vdev list"
  v_vdev_sem :: int
  v_mem :: mem

type_synonym 'r res = "kerr + 'r"

record stat =
  st_mode :: u32
  st_nlinks :: nat
  st_blocks :: nat
  st_size :: nat

text \<open>The value of a read or write is the non-negative return code.\<close>

record 's inode_ops =
  op_open :: "(nat \<Rightarrow> u32 \<Rightarrow> 's \<Rightarrow> (unit res \<times> 's) option) option"
  op_close :: "(nat \<Rightarrow> 's \<Rightarrow> (unit res \<times> 's) option) option"
  op_read :: "(nat \<Rightarrow> iobuf \<Rightarrow> 's \<Rightarrow> (int res \<times> iobuf \<times> 's) option) option"
  op_write :: "(nat \<Rightarrow> iobuf \<Rightarrow> 's \<Rightarrow> (int res \<times> iobuf \<times> 's) option) option"
  op_fstat :: "(nat \<Rightarrow> 's \<Rightarrow> (stat res \<times> 's) option) option"
  op_fsync :: "(nat \<Rightarrow> 's \<Rightarrow> (unit res \<times> 's) option) option"
  op_mkdir :: "(nat \<Rightarrow> string \<Rightarrow> 's \<Rightarrow> (unit res \<times> 's) option) option"
  op_link :: "(nat \<Rightarrow> string \<Rightarrow> nat \<Rightarrow> 's \<Rightarrow> (unit res \<times> 's) option) option"
  op_rename :: "(nat \<Rightarrow> string \<Rightarrow> nat \<Rightarrow> string \<Rightarrow> 's \<Rightarrow> (unit res \<times> 's) option) option"
  op_readlink :: "(nat \<Rightarrow> iobuf \<Rightarrow> 's \<Rightarrow> (unit res \<times> iobuf \<times> 's) option) option"
  op_symlink :: "(nat \<Rightarrow> string \<Rightarrow> string \<Rightarrow> 's \<Rightarrow> (unit res \<times> 's) option) option"
  op_namefile :: "(nat \<Rightarrow> iobuf \<Rightarrow> 's \<Rightarrow> (unit res \<times> iobuf \<times> 's) option) option"
  op_getdirentry :: "(nat \<Rightarrow> iobuf \<Rightarrow> 's \<Rightarrow> (unit res \<times> iobuf \<times> 's) option) option"
  op_reclaim :: "(nat \<Rightarrow> 's \<Rightarrow> (unit res \<times> 's) option) option"
  op_ioctl :: "(nat \<Rightarrow> int \<Rightarrow> nat \<Rightarrow> 's \<Rightarrow> (unit res \<times> 's) option) option"
  op_gettype :: "(nat \<Rightarrow> 's \<Rightarrow> (u32 res \<times> 's) option) option"
  op_tryseek :: "(nat \<Rightarrow> int \<Rightarrow> 's \<Rightarrow> (unit res \<times> 's) option) option"
  op_truncate :: "(nat \<Rightarrow> int \<Rightarrow> 's \<Rightarrow> (unit res \<times> 's) option) option"
  op_create :: "(nat \<Rightarrow> string \<Rightarrow> bool \<Rightarrow> 's \<Rightarrow> (nat res \<times> 's) option) option"
  op_unlink :: "(nat \<Rightarrow> string \<Rightarrow> 's \<Rightarrow> (unit res \<times> 's) option) option"
  op_lookup :: "(nat \<Rightarrow> string \<Rightarrow> 's \<Rightarrow> (nat res \<times> 's) option) option"
  op_lookup_parent :: "(nat \<Rightarrow> string \<Rightarrow> 's \<Rightarrow> ((nat \<times> string) res \<times> 's) option) option"

record 's fs_ops =
  fo_sync :: "nat \<Rightarrow> 's \<Rightarrow> (unit res \<times> 's) option"
  fo_get_root :: "nat \<Rightarrow> 's \<Rightarrow> (nat option \<times> 's) option"
  fo_unmount :: "nat \<Rightarrow> 's \<Rightarrow> (unit res \<times> 's) option"
  fo_cleanup :: "nat \<Rightarrow> 's \<Rightarrow> 's option"

section \<open>Inodes\<close>

definition MAX_INODE_COUNT :: int where "MAX_INODE_COUNT = 0x10000"

definition inode_check :: "nat \<Rightarrow> 'a vst_scheme \<Rightarrow> unit option" where
  "inode_check n s = do {
     i \<leftarrow> v_inode s n;
     kassert (in_ref i \<ge> in_open i \<and> in_open i \<ge> 0);
     kassert (in_ref i < MAX_INODE_COUNT \<and> in_open i < MAX_INODE_COUNT)
   }"

text \<open>\<^verbatim>\<open>__vop_op\<close>: the operation pointer is not null and the inode is consistent.\<close>

definition vop :: "nat \<Rightarrow> 'f option \<Rightarrow> 'a vst_scheme \<Rightarrow> 'f option" where
  "vop n f s = do { g \<leftarrow> f; inode_check n s; Some g }"

definition upd_inode :: "nat \<Rightarrow> inode \<Rightarrow> 'a vst_scheme \<Rightarrow> 'a vst_scheme" where
  "upd_inode n i s = s\<lparr>v_inode := (v_inode s)(n := Some i)\<rparr>"

definition inode_ref_inc :: "nat \<Rightarrow> 'a vst_scheme \<Rightarrow> (int \<times> 'a vst_scheme) option" where
  "inode_ref_inc n s = do {
     i \<leftarrow> v_inode s n;
     Some (in_ref i + 1, upd_inode n (i\<lparr>in_ref := in_ref i + 1\<rparr>) s)
   }"

definition inode_ref_dec ::
    "(nat \<Rightarrow> 'a vst_scheme inode_ops) \<Rightarrow> nat \<Rightarrow> 'a vst_scheme \<Rightarrow> (int \<times> 'a vst_scheme) option" where
  "inode_ref_dec ops n s = do {
     i \<leftarrow> v_inode s n;
     kassert (in_ref i > 0);
     let ref = in_ref i - 1;
     let s1 = upd_inode n (i\<lparr>in_ref := ref\<rparr>) s;
     if ref = 0 then do {
       f \<leftarrow> vop n (op_reclaim (ops n)) s1;
       (_, s2) \<leftarrow> f n s1;
       Some (ref, s2)
     } else Some (ref, s1)
   }"

definition inode_open_inc :: "nat \<Rightarrow> 'a vst_scheme \<Rightarrow> (int \<times> 'a vst_scheme) option" where
  "inode_open_inc n s = do {
     i \<leftarrow> v_inode s n;
     Some (in_open i + 1, upd_inode n (i\<lparr>in_open := in_open i + 1\<rparr>) s)
   }"

definition inode_open_dec ::
    "(nat \<Rightarrow> 'a vst_scheme inode_ops) \<Rightarrow> nat \<Rightarrow> 'a vst_scheme \<Rightarrow> (int \<times> 'a vst_scheme) option" where
  "inode_open_dec ops n s = do {
     i \<leftarrow> v_inode s n;
     kassert (in_open i > 0);
     let cnt = in_open i - 1;
     let s1 = upd_inode n (i\<lparr>in_open := cnt\<rparr>) s;
     if cnt = 0 then do {
       f \<leftarrow> vop n (op_close (ops n)) s1;
       (_, s2) \<leftarrow> f n s1;
       Some (cnt, s2)
     } else Some (cnt, s1)
   }"

text \<open>Allocation gives the address and the old contents of the memory, of which only the type is set.\<close>

definition alloc_inode :: "(nat \<times> inode) option \<Rightarrow> bool \<Rightarrow> 'a vst_scheme \<Rightarrow> nat option \<times> 'a vst_scheme" where
  "alloc_inode got dev s =
     (case got of
        None \<Rightarrow> (None, s)
      | Some (n, raw) \<Rightarrow> (Some n, upd_inode n (raw\<lparr>in_isdev := dev\<rparr>) s))"

definition inode_init :: "nat \<Rightarrow> nat option \<Rightarrow> 'a vst_scheme \<Rightarrow> 'a vst_scheme option" where
  "inode_init n fs s = do {
     i \<leftarrow> v_inode s n;
     (_, s1) \<leftarrow> inode_ref_inc n (upd_inode n (i\<lparr>in_ref := 0, in_open := 0, in_fs := fs\<rparr>) s);
     Some s1
   }"

definition inode_kill :: "nat \<Rightarrow> 'a vst_scheme \<Rightarrow> 'a vst_scheme option" where
  "inode_kill n s = do {
     i \<leftarrow> v_inode s n;
     kassert (in_ref i = 0);
     kassert (in_open i = 0);
     Some (s\<lparr>v_inode := (v_inode s)(n := None)\<rparr>)
   }"

definition null_vop_pass :: "unit res" where "null_vop_pass = Inr ()"
definition null_vop_invalid :: "'r res" where "null_vop_invalid = Inl E_INVAL"
definition null_vop_unimplemented :: "'r res" where "null_vop_unimplemented = Inl E_UNIMP"
definition null_vop_isdir :: "'r res" where "null_vop_isdir = Inl E_ISDIR"
definition null_vop_notdir :: "'r res" where "null_vop_notdir = Inl E_NOTDIR"

section \<open>Devices\<close>

definition lock_vdev_list :: "'a vst_scheme \<Rightarrow> 'a vst_scheme option" where
  "lock_vdev_list s = (if v_vdev_sem s > 0 then Some (s\<lparr>v_vdev_sem := v_vdev_sem s - 1\<rparr>) else None)"

definition unlock_vdev_list :: "'a vst_scheme \<Rightarrow> 'a vst_scheme" where
  "unlock_vdev_list s = s\<lparr>v_vdev_sem := v_vdev_sem s + 1\<rparr>"

definition vfs_dev_list_init :: "'a vst_scheme \<Rightarrow> 'a vst_scheme" where
  "vfs_dev_list_init s = s\<lparr>v_vdevs := [], v_vdev_sem := 1\<rparr>"

fun cleanup_loop :: "'a vst_scheme fs_ops \<Rightarrow> vdev list \<Rightarrow> 'a vst_scheme \<Rightarrow> 'a vst_scheme option" where
  "cleanup_loop fops [] s = Some s"
| "cleanup_loop fops (d # ds) s =
     (case vd_fs d of
        None \<Rightarrow> cleanup_loop fops ds s
      | Some fs \<Rightarrow> do { s1 \<leftarrow> fo_cleanup fops fs s; cleanup_loop fops ds s1 })"

definition vfs_cleanup :: "'a vst_scheme fs_ops \<Rightarrow> 'a vst_scheme \<Rightarrow> 'a vst_scheme option" where
  "vfs_cleanup fops s =
     (if v_vdevs s \<noteq> [] then do {
        s1 \<leftarrow> lock_vdev_list s;
        s2 \<leftarrow> cleanup_loop fops (v_vdevs s1) s1;
        Some (unlock_vdev_list s2)
      } else Some s)"

fun sync_loop :: "'a vst_scheme fs_ops \<Rightarrow> vdev list \<Rightarrow> 'a vst_scheme \<Rightarrow> 'a vst_scheme option" where
  "sync_loop fops [] s = Some s"
| "sync_loop fops (d # ds) s =
     (case vd_fs d of
        None \<Rightarrow> sync_loop fops ds s
      | Some fs \<Rightarrow> do { (_, s1) \<leftarrow> fo_sync fops fs s; sync_loop fops ds s1 })"

definition vfs_sync :: "'a vst_scheme fs_ops \<Rightarrow> 'a vst_scheme \<Rightarrow> (unit res \<times> 'a vst_scheme) option" where
  "vfs_sync fops s =
     (if v_vdevs s \<noteq> [] then do {
        s1 \<leftarrow> lock_vdev_list s;
        s2 \<leftarrow> sync_loop fops (v_vdevs s1) s1;
        Some (Inr (), unlock_vdev_list s2)
      } else Some (Inr (), s))"

definition vfs_get_root ::
    "'a vst_scheme fs_ops \<Rightarrow> string \<Rightarrow> 'a vst_scheme \<Rightarrow> (nat res \<times> 'a vst_scheme) option" where
  "vfs_get_root fops name s =
     (if v_vdevs s \<noteq> [] then do {
        s1 \<leftarrow> lock_vdev_list s;
        (r, s2) \<leftarrow>
          (case find (\<lambda>d. vd_name d = name) (v_vdevs s1) of
             None \<Rightarrow> Some (Inl E_NO_DEV, s1)
           | Some d \<Rightarrow> do {
               (found, s') \<leftarrow>
                 (case vd_fs d of
                    Some fs \<Rightarrow> fo_get_root fops fs s1
                  | None \<Rightarrow>
                      if \<not> vd_mountable d then do {
                        n \<leftarrow> vd_node d;
                        (_, s') \<leftarrow> inode_ref_inc n s1;
                        Some (Some n, s')
                      } else Some (None, s1));
               Some (case found of Some n \<Rightarrow> Inr n | None \<Rightarrow> Inl E_NA_DEV, s')
             });
        Some (r, unlock_vdev_list s2)
      } else Some (Inl E_NO_DEV, s))"

text \<open>The name is returned as the address of its characters in memory.\<close>

definition vfs_get_devname :: "nat \<Rightarrow> 'a vst_scheme \<Rightarrow> nat option" where
  "vfs_get_devname fs s = map_option vd_name_at (find (\<lambda>d. vd_fs d = Some fs) (v_vdevs s))"

definition check_devname_conflict :: "string \<Rightarrow> 'a vst_scheme \<Rightarrow> bool" where
  "check_devname_conflict name s = list_ex (\<lambda>d. vd_name d = name) (v_vdevs s)"

definition FS_MAX_DNAME_LEN :: nat where "FS_MAX_DNAME_LEN = 31"
definition FS_MAX_FNAME_LEN :: nat where "FS_MAX_FNAME_LEN = 255"
definition FS_MAX_FPATH_LEN :: nat where "FS_MAX_FPATH_LEN = 4095"

text \<open>
  The allocation in \<^verbatim>\<open>strdup\<close> gives \<open>got_name\<close> and that of the device entry succeeds as \<open>got_vdev\<close> says.
  The copied name is kept in memory at its address and as a list of characters.
\<close>

fun store_str :: "mem \<Rightarrow> nat \<Rightarrow> string \<Rightarrow> mem" where
  "store_str m a [] = m(a := 0)"
| "store_str m a (c # cs) = store_str (m(a := of_char c)) (Suc a) cs"

definition vfs_do_add ::
    "nat option \<Rightarrow> bool \<Rightarrow> string \<Rightarrow> nat option \<Rightarrow> nat option \<Rightarrow> bool \<Rightarrow> 'a vst_scheme \<Rightarrow> (unit res \<times> 'a vst_scheme) option" where
  "vfs_do_add got_name got_vdev name node fs mountable s = do {
     kassert (node = None \<and> \<not> mountable \<or>
              (case node of None \<Rightarrow> False | Some n \<Rightarrow>
                 (case v_inode s n of None \<Rightarrow> False | Some i \<Rightarrow> in_isdev i)));
     if length name > FS_MAX_DNAME_LEN then Some (Inl E_TOO_BIG, s)
     else case got_name of None \<Rightarrow> Some (Inl E_NO_MEM, s) | Some a \<Rightarrow>
       let s0 = s\<lparr>v_mem := store_str (v_mem s) a name\<rparr> in
       if \<not> got_vdev then Some (Inl E_NO_MEM, s0)
       else do {
       s1 \<leftarrow> lock_vdev_list s0;
       if check_devname_conflict name s1 then Some (Inl E_EXISTS, unlock_vdev_list s1)
       else
         let s2 = s1\<lparr>v_vdevs :=
               \<lparr>vd_name = name, vd_name_at = a, vd_node = node, vd_fs = fs, vd_mountable = mountable\<rparr> # v_vdevs s1\<rparr>
         in Some (Inr (), unlock_vdev_list s2)
     }
   }"

definition vfs_add_fs ::
    "nat option \<Rightarrow> bool \<Rightarrow> string \<Rightarrow> nat \<Rightarrow> 'a vst_scheme \<Rightarrow> (unit res \<times> 'a vst_scheme) option" where
  "vfs_add_fs a b name fs s = vfs_do_add a b name None (Some fs) False s"

definition vfs_add_dev ::
    "nat option \<Rightarrow> bool \<Rightarrow> string \<Rightarrow> nat \<Rightarrow> bool \<Rightarrow> 'a vst_scheme \<Rightarrow> (unit res \<times> 'a vst_scheme) option" where
  "vfs_add_dev a b name node mountable s = vfs_do_add a b name (Some node) None mountable s"

fun find_mount :: "string \<Rightarrow> nat \<Rightarrow> vdev list \<Rightarrow> nat res" where
  "find_mount name i [] = Inl E_NO_DEV"
| "find_mount name i (d # ds) =
     (if vd_mountable d \<and> vd_name d = name then Inr i else find_mount name (Suc i) ds)"

definition set_vdev_fs :: "nat \<Rightarrow> nat option \<Rightarrow> 'a vst_scheme \<Rightarrow> 'a vst_scheme" where
  "set_vdev_fs i fs s = s\<lparr>v_vdevs := (v_vdevs s)[i := (v_vdevs s ! i)\<lparr>vd_fs := fs\<rparr>]\<rparr>"

text \<open>
  The mount function gets the device's inode; its result is the return code and what it stored as the
  file system of the device.
\<close>

definition vfs_mount ::
    "string \<Rightarrow> (nat \<Rightarrow> 'a vst_scheme \<Rightarrow> (unit res \<times> nat option \<times> 'a vst_scheme) option) \<Rightarrow> 'a vst_scheme \<Rightarrow>
      (unit res \<times> 'a vst_scheme) option" where
  "vfs_mount name mount_func s = do {
     s1 \<leftarrow> lock_vdev_list s;
     (r, s2) \<leftarrow>
       (case find_mount name 0 (v_vdevs s1) of
          Inl e \<Rightarrow> Some (Inl e, s1)
        | Inr i \<Rightarrow>
            if vd_fs (v_vdevs s1 ! i) \<noteq> None then Some (Inl E_BUSY, s1)
            else do {
              kassert (vd_mountable (v_vdevs s1 ! i));
              n \<leftarrow> vd_node (v_vdevs s1 ! i);
              node \<leftarrow> v_inode s1 n;
              kassert (in_isdev node);
              (m, fs, s') \<leftarrow> mount_func n s1;
              kassert (m = Inr () \<longrightarrow> fs \<noteq> None);
              Some (m, set_vdev_fs i fs s')
            });
     Some (r, unlock_vdev_list s2)
   }"

definition vfs_unmount ::
    "'a vst_scheme fs_ops \<Rightarrow> string \<Rightarrow> 'a vst_scheme \<Rightarrow> (unit res \<times> 'a vst_scheme) option" where
  "vfs_unmount fops name s = do {
     s1 \<leftarrow> lock_vdev_list s;
     (r, s2) \<leftarrow>
       (case find_mount name 0 (v_vdevs s1) of
          Inl e \<Rightarrow> Some (Inl e, s1)
        | Inr i \<Rightarrow>
            (case vd_fs (v_vdevs s1 ! i) of
               None \<Rightarrow> Some (Inl E_INVAL, s1)
             | Some fs \<Rightarrow> do {
                 kassert (vd_mountable (v_vdevs s1 ! i));
                 (a, s') \<leftarrow> fo_sync fops fs s1;
                 case a of
                   Inl e \<Rightarrow> Some (Inl e, s')
                 | Inr _ \<Rightarrow> do {
                     (b, s'') \<leftarrow> fo_unmount fops fs s';
                     case b of
                       Inl e \<Rightarrow> Some (Inl e, s'')
                     | Inr _ \<Rightarrow> Some (Inr (), set_vdev_fs i None s'')
                   }
               }));
     Some (r, unlock_vdev_list s2)
   }"

fun unmount_loop :: "'a vst_scheme fs_ops \<Rightarrow> nat \<Rightarrow> nat \<Rightarrow> 'a vst_scheme \<Rightarrow> 'a vst_scheme option" where
  "unmount_loop fops i 0 s = Some s"
| "unmount_loop fops i (Suc k) s =
     (case vd_fs (v_vdevs s ! i) of
        Some fs \<Rightarrow>
          if vd_mountable (v_vdevs s ! i) then do {
            (a, s1) \<leftarrow> fo_sync fops fs s;
            case a of
              Inl _ \<Rightarrow> unmount_loop fops (Suc i) k s1
            | Inr _ \<Rightarrow> do {
                (b, s2) \<leftarrow> fo_unmount fops fs s1;
                case b of
                  Inl _ \<Rightarrow> unmount_loop fops (Suc i) k s2
                | Inr _ \<Rightarrow> unmount_loop fops (Suc i) k (set_vdev_fs i None s2)
              }
          } else unmount_loop fops (Suc i) k s
      | None \<Rightarrow> unmount_loop fops (Suc i) k s)"

definition vfs_unmount_all :: "'a vst_scheme fs_ops \<Rightarrow> 'a vst_scheme \<Rightarrow> (unit res \<times> 'a vst_scheme) option" where
  "vfs_unmount_all fops s =
     (if v_vdevs s \<noteq> [] then do {
        s1 \<leftarrow> lock_vdev_list s;
        s2 \<leftarrow> unmount_loop fops 0 (length (v_vdevs s1)) s1;
        Some (Inr (), unlock_vdev_list s2)
      } else Some (Inr (), s))"

section \<open>Current directory and boot file system\<close>

definition S_IFMT :: u32 where "S_IFMT = 0x7000"
definition S_IFREG :: u32 where "S_IFREG = 0x1000"
definition S_IFDIR :: u32 where "S_IFDIR = 0x2000"
definition S_IFLNK :: u32 where "S_IFLNK = 0x3000"
definition S_IFCHR :: u32 where "S_IFCHR = 0x4000"
definition S_IFBLK :: u32 where "S_IFBLK = 0x5000"

definition S_ISDIR :: "u32 \<Rightarrow> bool" where "S_ISDIR mode = ((mode AND S_IFMT) = S_IFDIR)"
definition S_ISREG :: "u32 \<Rightarrow> bool" where "S_ISREG mode = ((mode AND S_IFMT) = S_IFREG)"

definition upd_fs :: "nat \<Rightarrow> fs_struct \<Rightarrow> 'a vst_scheme \<Rightarrow> 'a vst_scheme" where
  "upd_fs p fs s = s\<lparr>v_fs := (v_fs s)(p := Some fs)\<rparr>"

definition lock_fs :: "nat \<Rightarrow> 'a vst_scheme \<Rightarrow> 'a vst_scheme option" where
  "lock_fs p s = do {
     fs \<leftarrow> v_fs s p;
     if fs_sem fs > 0 then Some (upd_fs p (fs\<lparr>fs_sem := fs_sem fs - 1\<rparr>) s) else None
   }"

definition unlock_fs :: "nat \<Rightarrow> 'a vst_scheme \<Rightarrow> 'a vst_scheme option" where
  "unlock_fs p s = do {
     fs \<leftarrow> v_fs s p;
     Some (upd_fs p (fs\<lparr>fs_sem := fs_sem fs + 1\<rparr>) s)
   }"

definition get_cwd_nolock :: "'a vst_scheme \<Rightarrow> nat option option" where
  "get_cwd_nolock s = map_option fs_pwd (v_fs s (v_cur s))"

definition set_cwd_nolock :: "nat option \<Rightarrow> 'a vst_scheme \<Rightarrow> 'a vst_scheme option" where
  "set_cwd_nolock pwd s = map_option (\<lambda>fs. upd_fs (v_cur s) (fs\<lparr>fs_pwd := pwd\<rparr>) s) (v_fs s (v_cur s))"

definition lock_current_fs :: "'a vst_scheme \<Rightarrow> 'a vst_scheme option" where
  "lock_current_fs s = lock_fs (v_cur s) s"

definition unlock_current_fs :: "'a vst_scheme \<Rightarrow> 'a vst_scheme option" where
  "unlock_current_fs s = unlock_fs (v_cur s) s"

definition vfs_get_current_dir :: "'a vst_scheme \<Rightarrow> (nat res \<times> 'a vst_scheme) option" where
  "vfs_get_current_dir s = do {
     pwd \<leftarrow> get_cwd_nolock s;
     case pwd of
       Some n \<Rightarrow> do { (_, s1) \<leftarrow> inode_ref_inc n s; Some (Inr n, s1) }
     | None \<Rightarrow> Some (Inl E_NOENT, s)
   }"

text \<open>The part of \<^verbatim>\<open>vfs_set_current_dir\<close> between the lock and the label \<^verbatim>\<open>out\<close>.\<close>

definition check_and_ref_dir ::
    "(nat \<Rightarrow> 'a vst_scheme inode_ops) \<Rightarrow> nat option \<Rightarrow> 'a vst_scheme \<Rightarrow> (unit res \<times> 'a vst_scheme) option" where
  "check_and_ref_dir ops dir s =
     (case dir of
        None \<Rightarrow> Some (Inr (), s)
      | Some d \<Rightarrow> do {
          f \<leftarrow> vop d (op_gettype (ops d)) s;
          (r, s1) \<leftarrow> f d s;
          case r of
            Inl e \<Rightarrow> Some (Inl e, s1)
          | Inr type \<Rightarrow>
              if \<not> S_ISDIR type then Some (Inl E_NOTDIR, s1)
              else do { (_, s2) \<leftarrow> inode_ref_inc d s1; Some (Inr (), s2) }
        })"

definition vfs_set_current_dir ::
    "(nat \<Rightarrow> 'a vst_scheme inode_ops) \<Rightarrow> nat option \<Rightarrow> 'a vst_scheme \<Rightarrow> (unit res \<times> 'a vst_scheme) option" where
  "vfs_set_current_dir ops dir s = do {
     s1 \<leftarrow> lock_current_fs s;
     old_dir \<leftarrow> get_cwd_nolock s1;
     (r, s2) \<leftarrow>
       (if old_dir \<noteq> dir then do {
          (r, s') \<leftarrow> check_and_ref_dir ops dir s1;
          case r of
            Inl e \<Rightarrow> Some (Inl e, s')
          | Inr _ \<Rightarrow> do {
              s'' \<leftarrow> set_cwd_nolock dir s';
              case old_dir of
                None \<Rightarrow> Some (Inr (), s'')
              | Some old \<Rightarrow> do { (_, s3) \<leftarrow> inode_ref_dec ops old s''; Some (Inr (), s3) }
            }
        } else Some (Inr (), s1));
     s3 \<leftarrow> unlock_current_fs s2;
     Some (r, s3)
   }"

definition vfs_init :: "'a vst_scheme \<Rightarrow> 'a vst_scheme" where
  "vfs_init s = vfs_dev_list_init (s\<lparr>v_bootfs_sem := 1\<rparr>)"

definition lock_bootfs :: "'a vst_scheme \<Rightarrow> 'a vst_scheme option" where
  "lock_bootfs s = (if v_bootfs_sem s > 0 then Some (s\<lparr>v_bootfs_sem := v_bootfs_sem s - 1\<rparr>) else None)"

definition unlock_bootfs :: "'a vst_scheme \<Rightarrow> 'a vst_scheme" where
  "unlock_bootfs s = s\<lparr>v_bootfs_sem := v_bootfs_sem s + 1\<rparr>"

definition change_bootfs ::
    "(nat \<Rightarrow> 'a vst_scheme inode_ops) \<Rightarrow> nat option \<Rightarrow> 'a vst_scheme \<Rightarrow> 'a vst_scheme option" where
  "change_bootfs ops node s = do {
     s1 \<leftarrow> lock_bootfs s;
     let old = v_bootfs s1;
     let s2 = unlock_bootfs (s1\<lparr>v_bootfs := node\<rparr>);
     case old of
       None \<Rightarrow> Some s2
     | Some n \<Rightarrow> do { (_, s3) \<leftarrow> inode_ref_dec ops n s2; Some s3 }
   }"

definition vfs_get_bootfs :: "'a vst_scheme \<Rightarrow> (nat res \<times> 'a vst_scheme) option" where
  "vfs_get_bootfs s =
     (if v_bootfs s \<noteq> None then do {
        s1 \<leftarrow> lock_bootfs s;
        case v_bootfs s1 of
          Some n \<Rightarrow> do { (_, s2) \<leftarrow> inode_ref_inc n s1; Some (Inr n, unlock_bootfs s2) }
        | None \<Rightarrow> Some (Inl E_NOENT, unlock_bootfs s1)
      } else Some (Inl E_NOENT, s))"

section \<open>Path lookup\<close>

text \<open>
  A path starts at the root of the device named before a colon, at the boot file system (a leading
  slash), at the root of the current file system (a leading colon), or at the current directory.  The
  result is the rest of the path and the inode to start from, which is \<^const>\<open>None\<close> when the file system
  had no root to give.
\<close>

definition skip_slashes :: "string \<Rightarrow> string" where
  "skip_slashes p = dropWhile (\<lambda>c. c = CHR ''/'') p"

definition is_sep :: "char \<Rightarrow> bool" where "is_sep c = (c = CHR '':'' \<or> c = CHR ''/'')"

definition get_device ::
    "(nat \<Rightarrow> 'a vst_scheme inode_ops) \<Rightarrow> 'a vst_scheme fs_ops \<Rightarrow> string \<Rightarrow> 'a vst_scheme \<Rightarrow>
      ((string \<times> nat option) res \<times> 'a vst_scheme) option" where
  "get_device ops fops path s =
     (let pre = takeWhile (\<lambda>c. \<not> is_sep c) path; rest = dropWhile (\<lambda>c. \<not> is_sep c) path;
          colon = (rest \<noteq> [] \<and> hd rest = CHR '':''); slash = (rest \<noteq> [] \<and> hd rest = CHR ''/'')
      in if \<not> colon \<and> \<not> (slash \<and> pre = []) then do {
           (r, s1) \<leftarrow> vfs_get_current_dir s;
           Some (map_sum id (\<lambda>n. (path, Some n)) r, s1)
         }
         else if colon \<and> pre \<noteq> [] then do {
           (r, s1) \<leftarrow> vfs_get_root fops pre s;
           Some (map_sum id (\<lambda>n. (skip_slashes (tl rest), Some n)) r, s1)
         }
         else if slash then do {
           (r, s1) \<leftarrow> vfs_get_bootfs s;
           Some (map_sum id (\<lambda>n. (skip_slashes (tl rest), Some n)) r, s1)
         }
         else do {
           (r, s1) \<leftarrow> vfs_get_current_dir s;
           case r of
             Inl e \<Rightarrow> Some (Inl e, s1)
           | Inr n \<Rightarrow> do {
               node \<leftarrow> v_inode s1 n;
               fs \<leftarrow> in_fs node;
               (root, s2) \<leftarrow> fo_get_root fops fs s1;
               (_, s3) \<leftarrow> inode_ref_dec ops n s2;
               Some (Inr (skip_slashes (tl rest), root), s3)
             }
         })"

definition vfs_lookup ::
    "(nat \<Rightarrow> 'a vst_scheme inode_ops) \<Rightarrow> 'a vst_scheme fs_ops \<Rightarrow> string \<Rightarrow> 'a vst_scheme \<Rightarrow>
      (nat option res \<times> 'a vst_scheme) option" where
  "vfs_lookup ops fops path s = do {
     (r, s1) \<leftarrow> get_device ops fops path s;
     case r of
       Inl e \<Rightarrow> Some (Inl e, s1)
     | Inr (sub, node) \<Rightarrow>
         if sub \<noteq> [] then do {
           n \<leftarrow> node;
           f \<leftarrow> vop n (op_lookup (ops n)) s1;
           (r', s2) \<leftarrow> f n sub s1;
           (_, s3) \<leftarrow> inode_ref_dec ops n s2;
           Some (map_sum id Some r', s3)
         } else Some (Inr node, s1)
   }"

definition vfs_lookup_parent ::
    "(nat \<Rightarrow> 'a vst_scheme inode_ops) \<Rightarrow> 'a vst_scheme fs_ops \<Rightarrow> string \<Rightarrow> 'a vst_scheme \<Rightarrow>
      ((nat \<times> string) res \<times> 'a vst_scheme) option" where
  "vfs_lookup_parent ops fops path s = do {
     (r, s1) \<leftarrow> get_device ops fops path s;
     case r of
       Inl e \<Rightarrow> Some (Inl e, s1)
     | Inr (sub, node) \<Rightarrow>
         if sub \<noteq> [] then do {
           n \<leftarrow> node;
           f \<leftarrow> vop n (op_lookup_parent (ops n)) s1;
           f n sub s1
         } else Some (Inl E_INVAL, s1)
   }"

definition vfs_chdir ::
    "(nat \<Rightarrow> 'a vst_scheme inode_ops) \<Rightarrow> 'a vst_scheme fs_ops \<Rightarrow> string \<Rightarrow> 'a vst_scheme \<Rightarrow>
      (unit res \<times> 'a vst_scheme) option" where
  "vfs_chdir ops fops path s = do {
     (r, s1) \<leftarrow> vfs_lookup ops fops path s;
     case r of
       Inl e \<Rightarrow> Some (Inl e, s1)
     | Inr node \<Rightarrow> do {
         (r', s2) \<leftarrow> vfs_set_current_dir ops node s1;
         n \<leftarrow> node;
         (_, s3) \<leftarrow> inode_ref_dec ops n s2;
         Some (r', s3)
       }
   }"

definition vfs_set_bootfs ::
    "(nat \<Rightarrow> 'a vst_scheme inode_ops) \<Rightarrow> 'a vst_scheme fs_ops \<Rightarrow> string option \<Rightarrow> 'a vst_scheme \<Rightarrow>
      (unit res \<times> 'a vst_scheme) option" where
  "vfs_set_bootfs ops fops fsname s =
     (case fsname of
        None \<Rightarrow> do { s1 \<leftarrow> change_bootfs ops None s; Some (Inr (), s1) }
      | Some name \<Rightarrow>
          let rest = dropWhile (\<lambda>c. c \<noteq> CHR '':'') name in
          if rest = [] \<or> tl rest \<noteq> [] then Some (Inl E_INVAL, s)
          else do {
            (r, s1) \<leftarrow> vfs_chdir ops fops name s;
            case r of
              Inl e \<Rightarrow> Some (Inl e, s1)
            | Inr _ \<Rightarrow> do {
                (r', s2) \<leftarrow> vfs_get_current_dir s1;
                case r' of
                  Inl e \<Rightarrow> Some (Inl e, s2)
                | Inr node \<Rightarrow> do { s3 \<leftarrow> change_bootfs ops (Some node) s2; Some (Inr (), s3) }
              }
          })"

definition vfs_getcwd ::
    "(nat \<Rightarrow> 'a vst_scheme inode_ops) \<Rightarrow> iobuf \<Rightarrow> 'a vst_scheme \<Rightarrow> (unit res \<times> iobuf \<times> 'a vst_scheme) option" where
  "vfs_getcwd ops iob s = do {
     (r, s1) \<leftarrow> vfs_get_current_dir s;
     case r of
       Inl e \<Rightarrow> Some (Inl e, iob, s1)
     | Inr n \<Rightarrow> do {
         node \<leftarrow> v_inode s1 n;
         fs \<leftarrow> in_fs node;
         dev_name \<leftarrow> vfs_get_devname fs s1;
         len \<leftarrow> strlen (v_mem s1) dev_name;
         (r1, _, iob1, m) \<leftarrow> iobuf_move (v_mem s1) iob dev_name len True;
         let s2 = s1\<lparr>v_mem := m\<rparr>;
         (r2, iob2, s3) \<leftarrow>
           (case r1 of
              Inl e \<Rightarrow> Some (Inl e, iob1, s2)
            | Inr _ \<Rightarrow> do { f \<leftarrow> vop n (op_namefile (ops n)) s2; f n iob1 s2 });
         (_, s4) \<leftarrow> inode_ref_dec ops n s3;
         Some (r2, iob2, s4)
       }
   }"

section \<open>Operations on paths\<close>

definition O_RDONLY :: u32 where "O_RDONLY = 0"
definition O_WRONLY :: u32 where "O_WRONLY = 1"
definition O_RDWR :: u32 where "O_RDWR = 2"
definition O_CREAT :: u32 where "O_CREAT = 4"
definition O_EXCL :: u32 where "O_EXCL = 8"
definition O_TRUNC :: u32 where "O_TRUNC = 0x10"
definition O_APPEND :: u32 where "O_APPEND = 0x20"
definition O_ACCMODE :: u32 where "O_ACCMODE = 3"

text \<open>The inode that \<^verbatim>\<open>vfs_open\<close> opens: looked up, or created in its parent directory.\<close>

definition open_node ::
    "(nat \<Rightarrow> 'a vst_scheme inode_ops) \<Rightarrow> 'a vst_scheme fs_ops \<Rightarrow> string \<Rightarrow> u32 \<Rightarrow> 'a vst_scheme \<Rightarrow>
      (nat option res \<times> 'a vst_scheme) option" where
  "open_node ops fops path open_flags s =
     (if open_flags AND O_CREAT \<noteq> 0 then do {
        (r, s1) \<leftarrow> vfs_lookup_parent ops fops path s;
        case r of
          Inl e \<Rightarrow> Some (Inl e, s1)
        | Inr (dir, name) \<Rightarrow> do {
            f \<leftarrow> vop dir (op_create (ops dir)) s1;
            (r', s2) \<leftarrow> f dir name (open_flags AND O_EXCL \<noteq> 0) s1;
            (_, s3) \<leftarrow> inode_ref_dec ops dir s2;
            Some (map_sum id Some r', s3)
          }
      } else vfs_lookup ops fops path s)"

text \<open>The truncation in \<^verbatim>\<open>vfs_open\<close>: a failure drops the open and the reference, but is not reported.\<close>

definition open_trunc ::
    "(nat \<Rightarrow> 'a vst_scheme inode_ops) \<Rightarrow> nat \<Rightarrow> u32 \<Rightarrow> 'a vst_scheme \<Rightarrow> 'a vst_scheme option" where
  "open_trunc ops n open_flags s =
     (if open_flags AND O_TRUNC \<noteq> 0 then do {
        g \<leftarrow> vop n (op_truncate (ops n)) s;
        (r, s1) \<leftarrow> g n 0 s;
        case r of
          Inl _ \<Rightarrow> do {
            (_, s2) \<leftarrow> inode_open_dec ops n s1;
            (_, s3) \<leftarrow> inode_ref_dec ops n s2;
            Some s3
          }
        | Inr _ \<Rightarrow> Some s1
      } else Some s)"

definition vfs_open ::
    "(nat \<Rightarrow> 'a vst_scheme inode_ops) \<Rightarrow> 'a vst_scheme fs_ops \<Rightarrow> string \<Rightarrow> u32 \<Rightarrow> 'a vst_scheme \<Rightarrow>
      (nat res \<times> 'a vst_scheme) option" where
  "vfs_open ops fops path open_flags s =
     (let acc = open_flags AND O_ACCMODE; can_write = (acc = O_WRONLY \<or> acc = O_RDWR) in
      if acc \<noteq> O_RDONLY \<and> \<not> can_write then Some (Inl E_INVAL, s)
      else if open_flags AND O_TRUNC \<noteq> 0 \<and> \<not> can_write then Some (Inl E_INVAL, s)
      else do {
        (r, s1) \<leftarrow> open_node ops fops path open_flags s;
        case r of
          Inl e \<Rightarrow> Some (Inl e, s1)
        | Inr node \<Rightarrow> do {
            n \<leftarrow> node;
            f \<leftarrow> vop n (op_open (ops n)) s1;
            (r1, s2) \<leftarrow> f n open_flags s1;
            case r1 of
              Inl e \<Rightarrow> do { (_, s3) \<leftarrow> inode_ref_dec ops n s2; Some (Inl e, s3) }
            | Inr _ \<Rightarrow> do {
                (_, s3) \<leftarrow> inode_open_inc n s2;
                s4 \<leftarrow> open_trunc ops n open_flags s3;
                Some (Inr n, s4)
              }
          }
      })"

definition vfs_close ::
    "(nat \<Rightarrow> 'a vst_scheme inode_ops) \<Rightarrow> nat \<Rightarrow> 'a vst_scheme \<Rightarrow> (unit res \<times> 'a vst_scheme) option" where
  "vfs_close ops n s = do {
     (_, s1) \<leftarrow> inode_open_dec ops n s;
     (_, s2) \<leftarrow> inode_ref_dec ops n s1;
     Some (Inr (), s2)
   }"

definition vfs_unlink ::
    "(nat \<Rightarrow> 'a vst_scheme inode_ops) \<Rightarrow> 'a vst_scheme fs_ops \<Rightarrow> string \<Rightarrow> 'a vst_scheme \<Rightarrow>
      (unit res \<times> 'a vst_scheme) option" where
  "vfs_unlink ops fops path s = do {
     (r, s1) \<leftarrow> vfs_lookup_parent ops fops path s;
     case r of
       Inl e \<Rightarrow> Some (Inl e, s1)
     | Inr (dir, name) \<Rightarrow> do {
         f \<leftarrow> vop dir (op_unlink (ops dir)) s1;
         (r', s2) \<leftarrow> f dir name s1;
         (_, s3) \<leftarrow> inode_ref_dec ops dir s2;
         Some (r', s3)
       }
   }"

definition vfs_rename ::
    "(nat \<Rightarrow> 'a vst_scheme inode_ops) \<Rightarrow> 'a vst_scheme fs_ops \<Rightarrow> string \<Rightarrow> string \<Rightarrow> 'a vst_scheme \<Rightarrow>
      (unit res \<times> 'a vst_scheme) option" where
  "vfs_rename ops fops old_path new_path s = do {
     (r, s1) \<leftarrow> vfs_lookup_parent ops fops old_path s;
     case r of
       Inl e \<Rightarrow> Some (Inl e, s1)
     | Inr (old_dir, old_name) \<Rightarrow> do {
         (r', s2) \<leftarrow> vfs_lookup_parent ops fops new_path s1;
         case r' of
           Inl e \<Rightarrow> do { (_, s3) \<leftarrow> inode_ref_dec ops old_dir s2; Some (Inl e, s3) }
         | Inr (new_dir, new_name) \<Rightarrow> do {
             od \<leftarrow> v_inode s2 old_dir;
             nd \<leftarrow> v_inode s2 new_dir;
             (r2, s3) \<leftarrow>
               (if in_fs od = None \<or> in_fs od \<noteq> in_fs nd then Some (Inl E_XDEV, s2)
                else do { f \<leftarrow> vop old_dir (op_rename (ops old_dir)) s2; f old_dir old_name new_dir new_name s2 });
             (_, s4) \<leftarrow> inode_ref_dec ops old_dir s3;
             (_, s5) \<leftarrow> inode_ref_dec ops new_dir s4;
             Some (r2, s5)
           }
       }
   }"

definition vfs_link ::
    "(nat \<Rightarrow> 'a vst_scheme inode_ops) \<Rightarrow> 'a vst_scheme fs_ops \<Rightarrow> string \<Rightarrow> string \<Rightarrow> 'a vst_scheme \<Rightarrow>
      (unit res \<times> 'a vst_scheme) option" where
  "vfs_link ops fops old_path new_path s = do {
     (r, s1) \<leftarrow> vfs_lookup ops fops old_path s;
     case r of
       Inl e \<Rightarrow> Some (Inl e, s1)
     | Inr old \<Rightarrow> do {
         (r', s2) \<leftarrow> vfs_lookup_parent ops fops new_path s1;
         old_node \<leftarrow> old;
         case r' of
           Inl e \<Rightarrow> do { (_, s3) \<leftarrow> inode_ref_dec ops old_node s2; Some (Inl e, s3) }
         | Inr (new_dir, new_name) \<Rightarrow> do {
             i \<leftarrow> v_inode s2 old_node;
             nd \<leftarrow> v_inode s2 new_dir;
             (r2, s3) \<leftarrow>
               (if in_fs i = None \<or> in_fs i \<noteq> in_fs nd then Some (Inl E_XDEV, s2)
                else do { f \<leftarrow> vop new_dir (op_link (ops new_dir)) s2; f new_dir new_name old_node s2 });
             (_, s4) \<leftarrow> inode_ref_dec ops old_node s3;
             (_, s5) \<leftarrow> inode_ref_dec ops new_dir s4;
             Some (r2, s5)
           }
       }
   }"

definition vfs_symlink ::
    "(nat \<Rightarrow> 'a vst_scheme inode_ops) \<Rightarrow> 'a vst_scheme fs_ops \<Rightarrow> string \<Rightarrow> string \<Rightarrow> 'a vst_scheme \<Rightarrow>
      (unit res \<times> 'a vst_scheme) option" where
  "vfs_symlink ops fops old_path new_path s = do {
     (r, s1) \<leftarrow> vfs_lookup_parent ops fops new_path s;
     case r of
       Inl e \<Rightarrow> Some (Inl e, s1)
     | Inr (new_dir, new_name) \<Rightarrow> do {
         f \<leftarrow> vop new_dir (op_symlink (ops new_dir)) s1;
         (r', s2) \<leftarrow> f new_dir new_name old_path s1;
         (_, s3) \<leftarrow> inode_ref_dec ops new_dir s2;
         Some (r', s3)
       }
   }"

definition vfs_readlink ::
    "(nat \<Rightarrow> 'a vst_scheme inode_ops) \<Rightarrow> 'a vst_scheme fs_ops \<Rightarrow> string \<Rightarrow> iobuf \<Rightarrow> 'a vst_scheme \<Rightarrow>
      (unit res \<times> iobuf \<times> 'a vst_scheme) option" where
  "vfs_readlink ops fops path iob s = do {
     (r, s1) \<leftarrow> vfs_lookup ops fops path s;
     case r of
       Inl e \<Rightarrow> Some (Inl e, iob, s1)
     | Inr node \<Rightarrow> do {
         n \<leftarrow> node;
         f \<leftarrow> vop n (op_readlink (ops n)) s1;
         (r', iob1, s2) \<leftarrow> f n iob s1;
         (_, s3) \<leftarrow> inode_ref_dec ops n s2;
         Some (r', iob1, s3)
       }
   }"

definition vfs_mkdir ::
    "(nat \<Rightarrow> 'a vst_scheme inode_ops) \<Rightarrow> 'a vst_scheme fs_ops \<Rightarrow> string \<Rightarrow> 'a vst_scheme \<Rightarrow>
      (unit res \<times> 'a vst_scheme) option" where
  "vfs_mkdir ops fops path s = do {
     (r, s1) \<leftarrow> vfs_lookup_parent ops fops path s;
     case r of
       Inl e \<Rightarrow> Some (Inl e, s1)
     | Inr (dir, name) \<Rightarrow> do {
         f \<leftarrow> vop dir (op_mkdir (ops dir)) s1;
         (r', s2) \<leftarrow> f dir name s1;
         (_, s3) \<leftarrow> inode_ref_dec ops dir s2;
         Some (r', s3)
       }
   }"

end
