(* ===== verification/Filemap.thy ===== *)
theory Filemap
  imports Vfs
begin

text \<open>
  The open files of a process: the descriptor table and the operations on descriptors
  (\<^verbatim>\<open>src/kernel/fs/file.c\<close>) and the per-process file system structure with its creation, duplication and
  destruction (\<^verbatim>\<open>src/kernel/fs/fs.c\<close>).

  A \<^verbatim>\<open>File *\<close> is the address of the file system structure and an index into its table.  The theorems show
  that the descriptor table keeps its invariant, that \<^verbatim>\<open>open\<close> takes the lowest free descriptor, that closing
  a duplicate gives back exactly what \<^verbatim>\<open>dup\<close> took, and what the loops of \<^verbatim>\<open>dup_fs\<close> and \<^verbatim>\<open>fs_destory\<close>, which
  never advance to the next descriptor, do.
\<close>

section \<open>The descriptor table\<close>

definition FS_STRUCT_NENTRY :: nat where "FS_STRUCT_NENTRY = 145"
definition NO_FD :: int where "NO_FD = - 0x9527"

definition testfd :: "int \<Rightarrow> bool" where
  "testfd fd = (fd \<ge> 0 \<and> fd < int FS_STRUCT_NENTRY)"

definition get_file :: "nat \<Rightarrow> nat \<Rightarrow> 'a vst_scheme \<Rightarrow> File option" where
  "get_file p i s = do {
     fs \<leftarrow> v_fs s p;
     if i < length (fs_filemap fs) then Some (fs_filemap fs ! i) else None
   }"

definition set_file :: "nat \<Rightarrow> nat \<Rightarrow> File \<Rightarrow> 'a vst_scheme \<Rightarrow> 'a vst_scheme" where
  "set_file p i f s =
     (case v_fs s p of None \<Rightarrow> s | Some fs \<Rightarrow> upd_fs p (fs\<lparr>fs_filemap := (fs_filemap fs)[i := f]\<rparr>) s)"

definition get_filemap :: "'a vst_scheme \<Rightarrow> File list option" where
  "get_filemap s = do {
     fs \<leftarrow> v_fs s (v_cur s);
     kassert (fs_count fs > 0);
     Some (fs_filemap fs)
   }"

definition filemap_init :: "File list \<Rightarrow> File list" where
  "filemap_init fm =
     map (\<lambda>fd. (fm ! fd)\<lparr>f_count := 0, f_status := FD_NONE, f_fd := int fd\<rparr>) [0..<FS_STRUCT_NENTRY]"

fun scan_none :: "nat \<Rightarrow> File list \<Rightarrow> nat option" where
  "scan_none fd [] = None"
| "scan_none fd (f # fs) = (if f_status f = FD_NONE then Some fd else scan_none (Suc fd) fs)"

definition filemap_found :: "nat \<Rightarrow> 'a vst_scheme \<Rightarrow> (nat res \<times> 'a vst_scheme) option" where
  "filemap_found i s = do {
     f \<leftarrow> get_file (v_cur s) i s;
     kassert (f_count f = 0);
     Some (Inr i, set_file (v_cur s) i (f\<lparr>f_status := FD_INIT, f_node := None\<rparr>) s)
   }"

definition filemap_alloc :: "int \<Rightarrow> 'a vst_scheme \<Rightarrow> (nat res \<times> 'a vst_scheme) option" where
  "filemap_alloc fd s = do {
     fm \<leftarrow> get_filemap s;
     if fd = NO_FD then
       (case scan_none 0 fm of
          None \<Rightarrow> Some (Inl E_MAX_OPEN, s)
        | Some i \<Rightarrow> filemap_found i s)
     else if testfd fd then do {
       f \<leftarrow> get_file (v_cur s) (nat fd) s;
       if f_status f = FD_NONE then filemap_found (nat fd) s else Some (Inl E_BUSY, s)
     }
     else Some (Inl E_INVAL, s)
   }"

definition filemap_free ::
    "(nat \<Rightarrow> 'a vst_scheme inode_ops) \<Rightarrow> nat \<Rightarrow> nat \<Rightarrow> 'a vst_scheme \<Rightarrow> 'a vst_scheme option" where
  "filemap_free ops p i s = do {
     f \<leftarrow> get_file p i s;
     kassert (f_status f = FD_INIT \<or> f_status f = FD_CLOSED);
     kassert (f_count f = 0);
     s1 \<leftarrow> (if f_status f = FD_CLOSED then do {
              n \<leftarrow> f_node f;
              (_, s') \<leftarrow> vfs_close ops n s;
              Some s'
            } else Some s);
     f1 \<leftarrow> get_file p i s1;
     Some (set_file p i (f1\<lparr>f_status := FD_NONE\<rparr>) s1)
   }"

definition filemap_acquire :: "nat \<Rightarrow> nat \<Rightarrow> 'a vst_scheme \<Rightarrow> 'a vst_scheme option" where
  "filemap_acquire p i s = do {
     f \<leftarrow> get_file p i s;
     kassert (f_status f = FD_OPENED);
     Some (set_file p i (f\<lparr>f_count := f_count f + 1\<rparr>) s)
   }"

definition filemap_release ::
    "(nat \<Rightarrow> 'a vst_scheme inode_ops) \<Rightarrow> nat \<Rightarrow> nat \<Rightarrow> 'a vst_scheme \<Rightarrow> 'a vst_scheme option" where
  "filemap_release ops p i s = do {
     f \<leftarrow> get_file p i s;
     kassert (f_status f = FD_OPENED \<or> f_status f = FD_CLOSED);
     kassert (f_count f > 0);
     let s1 = set_file p i (f\<lparr>f_count := f_count f - 1\<rparr>) s;
     if f_count f - 1 = 0 then filemap_free ops p i s1 else Some s1
   }"

definition filemap_open :: "nat \<Rightarrow> nat \<Rightarrow> 'a vst_scheme \<Rightarrow> 'a vst_scheme option" where
  "filemap_open p i s = do {
     f \<leftarrow> get_file p i s;
     kassert (f_status f = FD_INIT \<and> f_node f \<noteq> None);
     Some (set_file p i (f\<lparr>f_status := FD_OPENED, f_count := f_count f + 1\<rparr>) s)
   }"

definition filemap_close ::
    "(nat \<Rightarrow> 'a vst_scheme inode_ops) \<Rightarrow> nat \<Rightarrow> nat \<Rightarrow> 'a vst_scheme \<Rightarrow> 'a vst_scheme option" where
  "filemap_close ops p i s = do {
     f \<leftarrow> get_file p i s;
     kassert (f_status f = FD_OPENED);
     kassert (f_count f > 0);
     let s1 = set_file p i (f\<lparr>f_status := FD_CLOSED, f_count := f_count f - 1\<rparr>) s;
     if f_count f - 1 = 0 then filemap_free ops p i s1 else Some s1
   }"

definition filemap_dup :: "nat \<times> nat \<Rightarrow> nat \<times> nat \<Rightarrow> 'a vst_scheme \<Rightarrow> 'a vst_scheme option" where
  "filemap_dup to from s = do {
     t \<leftarrow> get_file (fst to) (snd to) s;
     f \<leftarrow> get_file (fst from) (snd from) s;
     kassert (f_status t = FD_INIT \<and> f_status f = FD_OPENED);
     n \<leftarrow> f_node f;
     (_, s1) \<leftarrow> inode_ref_inc n s;
     (_, s2) \<leftarrow> inode_open_inc n s1;
     let t1 = t\<lparr>f_pos := f_pos f, f_readable := f_readable f, f_writable := f_writable f, f_node := Some n\<rparr>;
     filemap_open (fst to) (snd to) (set_file (fst to) (snd to) t1 s2)
   }"

definition fd2file :: "int \<Rightarrow> 'a vst_scheme \<Rightarrow> nat res option" where
  "fd2file fd s =
     (if testfd fd then do {
        fm \<leftarrow> get_filemap s;
        f \<leftarrow> get_file (v_cur s) (nat fd) s;
        Some (if f_status f = FD_OPENED \<and> f_fd f = fd then Inr (nat fd) else Inl E_INVAL)
      } else Some (Inl E_INVAL))"

definition file_testfd :: "int \<Rightarrow> bool \<Rightarrow> bool \<Rightarrow> 'a vst_scheme \<Rightarrow> bool option" where
  "file_testfd fd readable writable s = do {
     r \<leftarrow> fd2file fd s;
     case r of
       Inl _ \<Rightarrow> Some False
     | Inr i \<Rightarrow> do {
         f \<leftarrow> get_file (v_cur s) i s;
         Some (\<not> (readable \<and> \<not> f_readable f) \<and> \<not> (writable \<and> \<not> f_writable f))
       }
   }"

section \<open>Operations on descriptors\<close>

definition open_pos ::
    "(nat \<Rightarrow> 'a vst_scheme inode_ops) \<Rightarrow> nat \<Rightarrow> u32 \<Rightarrow> 'a vst_scheme \<Rightarrow> (int res \<times> 'a vst_scheme) option" where
  "open_pos ops n open_flags s =
     (if open_flags AND O_APPEND \<noteq> 0 then do {
        f \<leftarrow> vop n (op_fstat (ops n)) s;
        (st, s') \<leftarrow> f n s;
        Some (map_sum id (\<lambda>st. i32 (int (st_size st))) st, s')
      } else Some (Inr 0, s))"

definition open_finish ::
    "(nat \<Rightarrow> 'a vst_scheme inode_ops) \<Rightarrow> nat \<Rightarrow> nat \<Rightarrow> nat \<Rightarrow> bool \<Rightarrow> bool \<Rightarrow> u32 \<Rightarrow> 'a vst_scheme \<Rightarrow>
      (int res \<times> 'a vst_scheme) option" where
  "open_finish ops p i n readable writable open_flags s = do {
     f0 \<leftarrow> get_file p i s;
     (r, s1) \<leftarrow> open_pos ops n open_flags (set_file p i (f0\<lparr>f_pos := 0\<rparr>) s);
     case r of
       Inl e \<Rightarrow> do {
         (_, s2) \<leftarrow> vfs_close ops n s1;
         s3 \<leftarrow> filemap_free ops p i s2;
         Some (Inl e, s3)
       }
     | Inr pos \<Rightarrow> do {
         f \<leftarrow> get_file p i s1;
         s2 \<leftarrow> filemap_open p i (set_file p i
           (f\<lparr>f_pos := pos, f_node := Some n, f_writable := writable, f_readable := readable\<rparr>) s1);
         Some (Inr (f_fd f), s2)
       }
   }"

definition file_open ::
    "(nat \<Rightarrow> 'a vst_scheme inode_ops) \<Rightarrow> 'a vst_scheme fs_ops \<Rightarrow> string \<Rightarrow> u32 \<Rightarrow> 'a vst_scheme \<Rightarrow>
      (int res \<times> 'a vst_scheme) option" where
  "file_open ops fops path open_flags s =
     (let acc = open_flags AND O_ACCMODE;
          readable = (acc = O_RDONLY \<or> acc = O_RDWR); writable = (acc = O_WRONLY \<or> acc = O_RDWR) in
      if \<not> readable \<and> \<not> writable then Some (Inl E_INVAL, s)
      else do {
        (r, s1) \<leftarrow> filemap_alloc NO_FD s;
        case r of
          Inl e \<Rightarrow> Some (Inl e, s1)
        | Inr i \<Rightarrow> do {
            (r2, s2) \<leftarrow> vfs_open ops fops path open_flags s1;
            case r2 of
              Inl e \<Rightarrow> do { s3 \<leftarrow> filemap_free ops (v_cur s) i s2; Some (Inl e, s3) }
            | Inr n \<Rightarrow> open_finish ops (v_cur s) i n readable writable open_flags s2
          }
      })"

definition file_close ::
    "(nat \<Rightarrow> 'a vst_scheme inode_ops) \<Rightarrow> int \<Rightarrow> 'a vst_scheme \<Rightarrow> (unit res \<times> 'a vst_scheme) option" where
  "file_close ops fd s = do {
     r \<leftarrow> fd2file fd s;
     case r of
       Inl e \<Rightarrow> Some (Inl e, s)
     | Inr i \<Rightarrow> do { s1 \<leftarrow> filemap_close ops (v_cur s) i s; Some (Inr (), s1) }
   }"

text \<open>
  Reading and writing share their text but for the flag tested and the operation called.  The result is
  the return code, the number of bytes copied and the state.
\<close>

definition file_io ::
    "(nat \<Rightarrow> 'a vst_scheme inode_ops) \<Rightarrow>
      ('a vst_scheme inode_ops \<Rightarrow> (nat \<Rightarrow> iobuf \<Rightarrow> 'a vst_scheme \<Rightarrow> (int res \<times> iobuf \<times> 'a vst_scheme) option) option) \<Rightarrow>
      (File \<Rightarrow> bool) \<Rightarrow> int \<Rightarrow> nat \<Rightarrow> nat \<Rightarrow> 'a vst_scheme \<Rightarrow> (int res \<times> nat \<times> 'a vst_scheme) option" where
  "file_io ops op allowed fd base len s = do {
     r \<leftarrow> fd2file fd s;
     case r of
       Inl e \<Rightarrow> Some (Inl e, 0, s)
     | Inr i \<Rightarrow> do {
         let p = v_cur s;
         f \<leftarrow> get_file p i s;
         if \<not> allowed f then Some (Inl E_INVAL, 0, s)
         else do {
           s1 \<leftarrow> filemap_acquire p i s;
           n \<leftarrow> f_node f;
           g \<leftarrow> vop n (op (ops n)) s1;
           (ret, iob, s2) \<leftarrow> g n (iobuf_init base len (f_pos f)) s1;
           let copied = iobuf_used iob;
           f2 \<leftarrow> get_file p i s2;
           let s3 = (if f_status f2 = FD_OPENED
                     then set_file p i (f2\<lparr>f_pos := i32 (f_pos f2 + int copied)\<rparr>) s2 else s2);
           s4 \<leftarrow> filemap_release ops p i s3;
           Some (ret, copied, s4)
         }
       }
   }"

definition file_read ::
    "(nat \<Rightarrow> 'a vst_scheme inode_ops) \<Rightarrow> int \<Rightarrow> nat \<Rightarrow> nat \<Rightarrow> 'a vst_scheme \<Rightarrow>
      (int res \<times> nat \<times> 'a vst_scheme) option" where
  "file_read ops = file_io ops op_read f_readable"

definition file_write ::
    "(nat \<Rightarrow> 'a vst_scheme inode_ops) \<Rightarrow> int \<Rightarrow> nat \<Rightarrow> nat \<Rightarrow> 'a vst_scheme \<Rightarrow>
      (int res \<times> nat \<times> 'a vst_scheme) option" where
  "file_write ops = file_io ops op_write f_writable"

definition file_fstat ::
    "(nat \<Rightarrow> 'a vst_scheme inode_ops) \<Rightarrow> int \<Rightarrow> 'a vst_scheme \<Rightarrow> (stat res \<times> 'a vst_scheme) option" where
  "file_fstat ops fd s = do {
     r \<leftarrow> fd2file fd s;
     case r of
       Inl e \<Rightarrow> Some (Inl e, s)
     | Inr i \<Rightarrow> do {
         s1 \<leftarrow> filemap_acquire (v_cur s) i s;
         f \<leftarrow> get_file (v_cur s) i s1;
         n \<leftarrow> f_node f;
         g \<leftarrow> vop n (op_fstat (ops n)) s1;
         (ret, s2) \<leftarrow> g n s1;
         s3 \<leftarrow> filemap_release ops (v_cur s) i s2;
         Some (ret, s3)
       }
   }"

definition file_dup :: "int \<Rightarrow> int \<Rightarrow> 'a vst_scheme \<Rightarrow> (int res \<times> 'a vst_scheme) option" where
  "file_dup fd1 fd2 s = do {
     r1 \<leftarrow> fd2file fd1 s;
     case r1 of
       Inl e \<Rightarrow> Some (Inl e, s)
     | Inr i1 \<Rightarrow> do {
         (r2, s1) \<leftarrow> filemap_alloc fd2 s;
         case r2 of
           Inl e \<Rightarrow> Some (Inl e, s1)
         | Inr i2 \<Rightarrow> do {
             s2 \<leftarrow> filemap_dup (v_cur s, i2) (v_cur s, i1) s1;
             f \<leftarrow> get_file (v_cur s) i2 s2;
             Some (Inr (f_fd f), s2)
           }
       }
   }"

definition LSEEK_SET :: int where "LSEEK_SET = 0"
definition LSEEK_CUR :: int where "LSEEK_CUR = 1"
definition LSEEK_END :: int where "LSEEK_END = 2"

text \<open>The switch of \<^verbatim>\<open>file_seek\<close>, and its attempt to move.\<close>

definition seek_target ::
    "(nat \<Rightarrow> 'a vst_scheme inode_ops) \<Rightarrow> File \<Rightarrow> int \<Rightarrow> int \<Rightarrow> 'a vst_scheme \<Rightarrow> (int res \<times> 'a vst_scheme) option" where
  "seek_target ops f pos whence s =
     (if whence = LSEEK_SET then Some (Inr pos, s)
      else if whence = LSEEK_CUR then Some (Inr (i32 (pos + f_pos f)), s)
      else if whence = LSEEK_END then do {
        n \<leftarrow> f_node f;
        g \<leftarrow> vop n (op_fstat (ops n)) s;
        (st, s') \<leftarrow> g n s;
        Some (map_sum id (\<lambda>st. i32 (pos + int (st_size st))) st, s')
      }
      else Some (Inl E_INVAL, s))"

definition seek_try ::
    "(nat \<Rightarrow> 'a vst_scheme inode_ops) \<Rightarrow> nat \<Rightarrow> nat \<Rightarrow> int \<Rightarrow> 'a vst_scheme \<Rightarrow> (unit res \<times> 'a vst_scheme) option" where
  "seek_try ops p i pos s = do {
     f \<leftarrow> get_file p i s;
     n \<leftarrow> f_node f;
     g \<leftarrow> vop n (op_tryseek (ops n)) s;
     (r, s1) \<leftarrow> g n pos s;
     case r of
       Inl e \<Rightarrow> Some (Inl e, s1)
     | Inr _ \<Rightarrow> do { f1 \<leftarrow> get_file p i s1; Some (Inr (), set_file p i (f1\<lparr>f_pos := pos\<rparr>) s1) }
   }"

definition file_seek ::
    "(nat \<Rightarrow> 'a vst_scheme inode_ops) \<Rightarrow> int \<Rightarrow> int \<Rightarrow> int \<Rightarrow> 'a vst_scheme \<Rightarrow> (unit res \<times> 'a vst_scheme) option" where
  "file_seek ops fd pos whence s = do {
     r \<leftarrow> fd2file fd s;
     case r of
       Inl e \<Rightarrow> Some (Inl e, s)
     | Inr i \<Rightarrow> do {
         s1 \<leftarrow> filemap_acquire (v_cur s) i s;
         f \<leftarrow> get_file (v_cur s) i s1;
         (r1, s2) \<leftarrow> seek_target ops f pos whence s1;
         (ret, s3) \<leftarrow> (case r1 of
                         Inl e \<Rightarrow> Some (Inl e, s2)
                       | Inr pos' \<Rightarrow> seek_try ops (v_cur s) i pos' s2);
         s4 \<leftarrow> filemap_release ops (v_cur s) i s3;
         Some (ret, s4)
       }
   }"

definition file_fsync ::
    "(nat \<Rightarrow> 'a vst_scheme inode_ops) \<Rightarrow> int \<Rightarrow> 'a vst_scheme \<Rightarrow> (unit res \<times> 'a vst_scheme) option" where
  "file_fsync ops fd s = do {
     r \<leftarrow> fd2file fd s;
     case r of
       Inl e \<Rightarrow> Some (Inl e, s)
     | Inr i \<Rightarrow> do {
         s1 \<leftarrow> filemap_acquire (v_cur s) i s;
         f \<leftarrow> get_file (v_cur s) i s1;
         n \<leftarrow> f_node f;
         g \<leftarrow> vop n (op_fsync (ops n)) s1;
         (ret, s2) \<leftarrow> g n s1;
         s3 \<leftarrow> filemap_release ops (v_cur s) i s2;
         Some (ret, s3)
       }
   }"

text \<open>A directory entry in memory: its offset, and the address of the name.\<close>

record dirent =
  d_offset :: int
  d_name_at :: nat

definition file_get_dirent ::
    "(nat \<Rightarrow> 'a vst_scheme inode_ops) \<Rightarrow> int \<Rightarrow> dirent \<Rightarrow> 'a vst_scheme \<Rightarrow>
      (unit res \<times> dirent \<times> 'a vst_scheme) option" where
  "file_get_dirent ops fd direntp s = do {
     r \<leftarrow> fd2file fd s;
     case r of
       Inl e \<Rightarrow> Some (Inl e, direntp, s)
     | Inr i \<Rightarrow> do {
         s1 \<leftarrow> filemap_acquire (v_cur s) i s;
         f \<leftarrow> get_file (v_cur s) i s1;
         n \<leftarrow> f_node f;
         g \<leftarrow> vop n (op_getdirentry (ops n)) s1;
         (ret, iob, s2) \<leftarrow> g n (iobuf_init (d_name_at direntp) (FS_MAX_FNAME_LEN + 1) (d_offset direntp)) s1;
         let d = (case ret of
                    Inl _ \<Rightarrow> direntp
                  | Inr _ \<Rightarrow> direntp\<lparr>d_offset := i32 (d_offset direntp + int (iobuf_used iob))\<rparr>);
         s3 \<leftarrow> filemap_release ops (v_cur s) i s2;
         Some (ret, d, s3)
       }
   }"

section \<open>The file system structure of a process\<close>

definition fs_count_inc :: "nat \<Rightarrow> 'a vst_scheme \<Rightarrow> (int \<times> 'a vst_scheme) option" where
  "fs_count_inc p s = do { fs \<leftarrow> v_fs s p; Some (fs_count fs + 1, upd_fs p (fs\<lparr>fs_count := fs_count fs + 1\<rparr>) s) }"

definition fs_count_dec :: "nat \<Rightarrow> 'a vst_scheme \<Rightarrow> (int \<times> 'a vst_scheme) option" where
  "fs_count_dec p s = do { fs \<leftarrow> v_fs s p; Some (fs_count fs - 1, upd_fs p (fs\<lparr>fs_count := fs_count fs - 1\<rparr>) s) }"

text \<open>The allocation gives an address and the old contents of the file table.\<close>

definition fs_create :: "(nat \<times> File list) option \<Rightarrow> 'a vst_scheme \<Rightarrow> nat option \<times> 'a vst_scheme" where
  "fs_create got s =
     (case got of
        None \<Rightarrow> (None, s)
      | Some (p, raw) \<Rightarrow>
          (Some p, upd_fs p \<lparr>fs_pwd = None, fs_filemap = filemap_init raw, fs_count = 0, fs_sem = 1\<rparr> s))"

text \<open>Both loops look at the first entry of the table in every round.\<close>

fun fs_destory_loop ::
    "nat \<Rightarrow> (nat \<Rightarrow> 'a vst_scheme inode_ops) \<Rightarrow> nat \<Rightarrow> 'a vst_scheme \<Rightarrow> 'a vst_scheme option" where
  "fs_destory_loop 0 ops p s = Some s"
| "fs_destory_loop (Suc k) ops p s = do {
     f \<leftarrow> get_file p 0 s;
     s1 \<leftarrow> (if f_status f = FD_OPENED then filemap_close ops p 0 s else Some s);
     f1 \<leftarrow> get_file p 0 s1;
     kassert (f_status f1 = FD_NONE);
     fs_destory_loop k ops p s1
   }"

definition fs_destory ::
    "(nat \<Rightarrow> 'a vst_scheme inode_ops) \<Rightarrow> nat \<Rightarrow> 'a vst_scheme \<Rightarrow> 'a vst_scheme option" where
  "fs_destory ops p s = do {
     fs \<leftarrow> v_fs s p;
     kassert (fs_count fs = 0);
     s1 \<leftarrow> (case fs_pwd fs of
              None \<Rightarrow> Some s
            | Some n \<Rightarrow> do { (_, s') \<leftarrow> inode_ref_dec ops n s; Some s' });
     s2 \<leftarrow> fs_destory_loop FS_STRUCT_NENTRY ops p s1;
     Some (s2\<lparr>v_fs := (v_fs s2)(p := None)\<rparr>)
   }"

fun dup_fs_loop :: "nat \<Rightarrow> nat \<Rightarrow> nat \<Rightarrow> 'a vst_scheme \<Rightarrow> 'a vst_scheme option" where
  "dup_fs_loop 0 to from s = Some s"
| "dup_fs_loop (Suc k) to from s = do {
     f \<leftarrow> get_file from 0 s;
     s1 \<leftarrow> (if f_status f = FD_OPENED then do {
              t \<leftarrow> get_file to 0 s;
              filemap_dup (to, 0) (from, 0) (set_file to 0 (t\<lparr>f_status := FD_INIT\<rparr>) s)
            } else Some s);
     dup_fs_loop k to from s1
   }"

definition dup_fs :: "nat \<Rightarrow> nat \<Rightarrow> 'a vst_scheme \<Rightarrow> (unit res \<times> 'a vst_scheme) option" where
  "dup_fs to from s = do {
     t \<leftarrow> v_fs s to;
     f \<leftarrow> v_fs s from;
     kassert (fs_count t = 0 \<and> fs_count f > 0);
     let s1 = upd_fs to (t\<lparr>fs_pwd := fs_pwd f\<rparr>) s;
     s2 \<leftarrow> (case fs_pwd f of
              None \<Rightarrow> Some s1
            | Some n \<Rightarrow> do { (_, s') \<leftarrow> inode_ref_inc n s1; Some s' });
     s3 \<leftarrow> dup_fs_loop FS_STRUCT_NENTRY to from s2;
     Some (Inr (), s3)
   }"

definition fs_cleanup :: "'a vst_scheme fs_ops \<Rightarrow> 'a vst_scheme \<Rightarrow> 'a vst_scheme option" where
  "fs_cleanup fops s = vfs_cleanup fops s"


section \<open>Descriptor tables as maps\<close>

text \<open>The descriptor operations seen on the tables alone: \<open>look\<close> reads an entry and \<open>put\<close> replaces it.\<close>

type_synonym ftables = "nat \<Rightarrow> fs_struct option"

definition look :: "nat \<Rightarrow> nat \<Rightarrow> ftables \<Rightarrow> File option" where
  "look p i F = (case F p of None \<Rightarrow> None | Some fs \<Rightarrow>
     if i < length (fs_filemap fs) then Some (fs_filemap fs ! i) else None)"

definition put :: "nat \<Rightarrow> nat \<Rightarrow> File \<Rightarrow> ftables \<Rightarrow> ftables" where
  "put p i f F = (case F p of None \<Rightarrow> F | Some fs \<Rightarrow> F(p \<mapsto> fs\<lparr>fs_filemap := (fs_filemap fs)[i := f]\<rparr>))"

lemma get_file_look [simp]: "get_file p i s = look p i (v_fs s)"
  by (simp add: get_file_def look_def split: option.splits)

lemma upd_fs_simps [simp]:
  "v_fs (upd_fs p fs s) = (v_fs s)(p \<mapsto> fs)" "v_cur (upd_fs p fs s) = v_cur s"
  "v_inode (upd_fs p fs s) = v_inode s"
  by (simp_all add: upd_fs_def)

lemma upd_inode_simps [simp]:
  "v_fs (upd_inode n i s) = v_fs s" "v_cur (upd_inode n i s) = v_cur s"
  "v_inode (upd_inode n i s) = (v_inode s)(n \<mapsto> i)"
  by (simp_all add: upd_inode_def)

lemma set_file_simps [simp]:
  "v_fs (set_file p i f s) = put p i f (v_fs s)" "v_cur (set_file p i f s) = v_cur s"
  "v_inode (set_file p i f s) = v_inode s"
  by (simp_all add: set_file_def put_def split: option.splits)

lemma look_put:
  "look p i F = Some g \<Longrightarrow> look q j (put p i f F) = (if q = p \<and> j = i then Some f else look q j F)"
  by (auto simp: look_def put_def split: option.splits if_splits)

lemma look_put_same [simp]: "look p i F = Some g \<Longrightarrow> look p i (put p i f F) = Some f"
  by (simp add: look_put)

lemma put_put [simp]: "put p i f (put p i g F) = put p i f F"
  by (auto simp: put_def split: option.splits)

text \<open>
  The invariant of a table entry: it carries its own index, is in use exactly while its open count is
  positive, and then has an inode.
\<close>

definition slot_ok :: "nat \<Rightarrow> File \<Rightarrow> bool" where
  "slot_ok i f = (f_fd f = int i \<and>
     (if f_status f = FD_OPENED \<or> f_status f = FD_CLOSED then f_count f > 0 \<and> f_node f \<noteq> None
      else f_count f = 0))"

definition tables_ok :: "ftables \<Rightarrow> bool" where
  "tables_ok F = ((\<forall>p fs. F p = Some fs \<longrightarrow> length (fs_filemap fs) = FS_STRUCT_NENTRY) \<and>
     (\<forall>p i f. look p i F = Some f \<longrightarrow> slot_ok i f))"

lemma tables_ok_put:
  assumes "tables_ok F" "look p i F = Some g" "slot_ok i f"
  shows "tables_ok (put p i f F)"
proof -
  have "\<And>q fs. put p i f F q = Some fs \<Longrightarrow> length (fs_filemap fs) = FS_STRUCT_NENTRY"
    using assms(1) by (auto simp: put_def tables_ok_def split: option.splits if_splits)
  moreover have "\<And>q j h. look q j (put p i f F) = Some h \<Longrightarrow> slot_ok j h"
    using assms by (auto simp: look_put tables_ok_def split: if_splits)
  ultimately show ?thesis by (auto simp: tables_ok_def)
qed

lemma tables_ok_look: "tables_ok F \<Longrightarrow> look p i F = Some f \<Longrightarrow> slot_ok i f"
  by (auto simp: tables_ok_def)

lemma scan_none_spec:
  "scan_none k fm = Some i \<Longrightarrow>
     k \<le> i \<and> i < k + length fm \<and> f_status (fm ! (i - k)) = FD_NONE \<and> (\<forall>j<i - k. f_status (fm ! j) \<noteq> FD_NONE)"
proof (induction k fm rule: scan_none.induct)
  case (2 fd f fs)
  show ?case
  proof (cases "f_status f = FD_NONE")
    case False
    then have *: "Suc fd \<le> i" "i < Suc fd + length fs" "f_status (fs ! (i - Suc fd)) = FD_NONE"
      "\<forall>j<i - Suc fd. f_status (fs ! j) \<noteq> FD_NONE"
      using 2 by auto
    have "i - fd = Suc (i - Suc fd)" using *(1) by simp
    then show ?thesis using * False by (auto simp: less_Suc_eq_0_disj)
  qed (use 2 in auto)
qed simp

lemma scan_none_None: "scan_none k fm = None \<Longrightarrow> f \<in> set fm \<Longrightarrow> f_status f \<noteq> FD_NONE"
  by (induction k fm rule: scan_none.induct) (auto split: if_splits)

lemma get_filemap_look:
  assumes "get_filemap s = Some fm"
  shows "look (v_cur s) i (v_fs s) = (if i < length fm then Some (fm ! i) else None)"
  using assms by (auto simp: get_filemap_def look_def bind_Some_conv)

section \<open>What the operations do to the tables\<close>

text \<open>Inversion of a computation that ended in \<^term>\<open>Some y\<close>, one rule for each construct.\<close>

lemma case_sum_Some:
  "((case r of Inl e \<Rightarrow> A e | Inr x \<Rightarrow> B x) = Some y) \<longleftrightarrow>
     (\<exists>e. r = Inl e \<and> A e = Some y) \<or> (\<exists>x. r = Inr x \<and> B x = Some y)"
  by (cases r) auto

lemma case_option_Some:
  "((case r of None \<Rightarrow> A | Some x \<Rightarrow> B x) = Some y) \<longleftrightarrow> (r = None \<and> A = Some y) \<or> (\<exists>x. r = Some x \<and> B x = Some y)"
  by (cases r) auto

lemma case_prod_Some: "((case r of (a, b) \<Rightarrow> A a b) = Some y) \<longleftrightarrow> (\<exists>a b. r = (a, b) \<and> A a b = Some y)"
  by (cases r) auto

lemma if_Some: "((if b then A else B) = Some y) \<longleftrightarrow> (b \<and> A = Some y) \<or> (\<not> b \<and> B = Some y)"
  by auto

lemma kassert_Some: "(kassert b = Some u) \<longleftrightarrow> b"
  by (simp add: kassert_def)

lemmas run_simps = kassert_Some bind_Some_conv case_sum_Some case_option_Some case_prod_Some if_Some Let_def

lemma found_effect:
  assumes "filemap_found i s = Some (r, s')"
  obtains f where "look (v_cur s) i (v_fs s) = Some f" "f_count f = 0" "r = Inr i" "v_cur s' = v_cur s"
    "v_fs s' = put (v_cur s) i (f\<lparr>f_status := FD_INIT, f_node := None\<rparr>) (v_fs s)"
  using assms by (auto simp: filemap_found_def run_simps)

lemma acquire_effect:
  assumes "filemap_acquire p i s = Some s'"
  obtains f where "look p i (v_fs s) = Some f" "f_status f = FD_OPENED" "v_cur s' = v_cur s"
    "v_fs s' = put p i (f\<lparr>f_count := f_count f + 1\<rparr>) (v_fs s)"
  using assms by (auto simp: filemap_acquire_def run_simps)

lemma open_effect:
  assumes "filemap_open p i s = Some s'" "look p i (v_fs s) = Some f"
  shows "v_fs s' = put p i (f\<lparr>f_status := FD_OPENED, f_count := f_count f + 1\<rparr>) (v_fs s)"
    "v_cur s' = v_cur s" "f_status f = FD_INIT" "f_node f \<noteq> None"
  using assms by (auto simp: filemap_open_def run_simps)

lemma alloc_effect:
  assumes "filemap_alloc fd s = Some (r, s')"
  shows "(\<exists>e. r = Inl e \<and> s' = s) \<or>
    (\<exists>i f. r = Inr i \<and> look (v_cur s) i (v_fs s) = Some f \<and> f_status f = FD_NONE \<and> f_count f = 0 \<and>
       (fd = NO_FD \<longrightarrow> (\<forall>j<i. \<exists>g. look (v_cur s) j (v_fs s) = Some g \<and> f_status g \<noteq> FD_NONE)) \<and>
       (fd \<noteq> NO_FD \<longrightarrow> fd = int i) \<and> v_cur s' = v_cur s \<and>
       v_fs s' = put (v_cur s) i (f\<lparr>f_status := FD_INIT, f_node := None\<rparr>) (v_fs s))"
proof -
  obtain fm where fm: "get_filemap s = Some fm"
    using assms by (auto simp: filemap_alloc_def run_simps)
  note lk = get_filemap_look [OF fm]
  show ?thesis
  proof (cases "fd = NO_FD")
    case True
    then show ?thesis
    proof (cases "scan_none 0 fm")
      case (Some i)
      then have "i < length fm" "f_status (fm ! i) = FD_NONE" "\<forall>j<i. f_status (fm ! j) \<noteq> FD_NONE"
        using scan_none_spec [OF Some] by simp_all
      moreover have "filemap_found i s = Some (r, s')"
        using assms True Some fm by (simp add: filemap_alloc_def)
      ultimately show ?thesis using True by (auto simp: lk elim!: found_effect)
    qed (use assms fm in \<open>auto simp: filemap_alloc_def\<close>)
  next
    case False
    then show ?thesis
      using assms by (auto simp: filemap_alloc_def run_simps testfd_def elim!: found_effect)
  qed
qed

lemma alloc_NO_FD:
  assumes "filemap_alloc NO_FD s = Some (Inr i, s')"
  obtains f where "look (v_cur s) i (v_fs s) = Some f" "f_status f = FD_NONE" "f_count f = 0"
    "\<forall>j<i. \<exists>g. look (v_cur s) j (v_fs s) = Some g \<and> f_status g \<noteq> FD_NONE" "v_cur s' = v_cur s"
    "v_fs s' = put (v_cur s) i (f\<lparr>f_status := FD_INIT, f_node := None\<rparr>) (v_fs s)"
  using alloc_effect [OF assms] that by auto

text \<open>The entry of a descriptor that was just opened.\<close>

definition opened_file :: "bool \<Rightarrow> bool \<Rightarrow> nat \<Rightarrow> int \<Rightarrow> File \<Rightarrow> File" where
  "opened_file rd wr n pos f = f\<lparr>f_status := FD_OPENED, f_readable := rd, f_writable := wr,
     f_pos := pos, f_node := Some n, f_count := 1\<rparr>"

text \<open>
  The contract of a file system behind the descriptors: its operations leave every descriptor table
  and the identity of the current process alone.
\<close>

locale inode_backend =
  fixes ops :: "nat \<Rightarrow> 'a vst_scheme inode_ops" and fops :: "'a vst_scheme fs_ops"
  assumes open_keeps: "op_open (ops n) = Some o1 \<Longrightarrow> o1 n fl s = Some (r1, s') \<Longrightarrow> v_fs s' = v_fs s \<and> v_cur s' = v_cur s"
    and close_keeps: "op_close (ops n) = Some o2 \<Longrightarrow> o2 n s = Some (r1, s') \<Longrightarrow> v_fs s' = v_fs s \<and> v_cur s' = v_cur s"
    and reclaim_keeps: "op_reclaim (ops n) = Some o2 \<Longrightarrow> o2 n s = Some (r1, s') \<Longrightarrow> v_fs s' = v_fs s \<and> v_cur s' = v_cur s"
    and fsync_keeps: "op_fsync (ops n) = Some o2 \<Longrightarrow> o2 n s = Some (r1, s') \<Longrightarrow> v_fs s' = v_fs s \<and> v_cur s' = v_cur s"
    and read_keeps: "op_read (ops n) = Some o3 \<Longrightarrow> o3 n iob s = Some (r6, iob', s') \<Longrightarrow> v_fs s' = v_fs s \<and> v_cur s' = v_cur s"
    and write_keeps: "op_write (ops n) = Some o3 \<Longrightarrow> o3 n iob s = Some (r6, iob', s') \<Longrightarrow> v_fs s' = v_fs s \<and> v_cur s' = v_cur s"
    and getdirentry_keeps: "op_getdirentry (ops n) = Some o9 \<Longrightarrow> o9 n iob s = Some (r1, iob', s') \<Longrightarrow> v_fs s' = v_fs s \<and> v_cur s' = v_cur s"
    and fstat_keeps: "op_fstat (ops n) = Some o4 \<Longrightarrow> o4 n s = Some (r2, s') \<Longrightarrow> v_fs s' = v_fs s \<and> v_cur s' = v_cur s"
    and tryseek_keeps: "op_tryseek (ops n) = Some o5 \<Longrightarrow> o5 n pos s = Some (r1, s') \<Longrightarrow> v_fs s' = v_fs s \<and> v_cur s' = v_cur s"
    and truncate_keeps: "op_truncate (ops n) = Some o5 \<Longrightarrow> o5 n pos s = Some (r1, s') \<Longrightarrow> v_fs s' = v_fs s \<and> v_cur s' = v_cur s"
    and create_keeps: "op_create (ops n) = Some o6 \<Longrightarrow> o6 n name ex s = Some (r3, s') \<Longrightarrow> v_fs s' = v_fs s \<and> v_cur s' = v_cur s"
    and lookup_keeps: "op_lookup (ops n) = Some o7 \<Longrightarrow> o7 n name s = Some (r3, s') \<Longrightarrow> v_fs s' = v_fs s \<and> v_cur s' = v_cur s"
    and lookup_parent_keeps: "op_lookup_parent (ops n) = Some o8 \<Longrightarrow> o8 n name s = Some (r4, s') \<Longrightarrow> v_fs s' = v_fs s \<and> v_cur s' = v_cur s"
    and get_root_keeps: "fo_get_root fops fs s = Some (r5, s') \<Longrightarrow> v_fs s' = v_fs s \<and> v_cur s' = v_cur s"
begin

lemma vop_SomeD: "vop n f s = Some g \<Longrightarrow> f = Some g"
  by (auto simp: vop_def run_simps)

lemma ref_inc_keeps: "inode_ref_inc n s = Some (r, s') \<Longrightarrow> v_fs s' = v_fs s \<and> v_cur s' = v_cur s"
  by (auto simp: inode_ref_inc_def run_simps)

lemma open_inc_keeps: "inode_open_inc n s = Some (r, s') \<Longrightarrow> v_fs s' = v_fs s \<and> v_cur s' = v_cur s"
  by (auto simp: inode_open_inc_def run_simps)

lemma ref_dec_keeps: "inode_ref_dec ops n s = Some (r, s') \<Longrightarrow> v_fs s' = v_fs s \<and> v_cur s' = v_cur s"
  by (auto simp: inode_ref_dec_def run_simps
      dest!: vop_SomeD reclaim_keeps)

lemma open_dec_keeps: "inode_open_dec ops n s = Some (r, s') \<Longrightarrow> v_fs s' = v_fs s \<and> v_cur s' = v_cur s"
  by (auto simp: inode_open_dec_def run_simps
      dest!: vop_SomeD close_keeps)

lemma vfs_close_keeps: "vfs_close ops n s = Some (r, s') \<Longrightarrow> v_fs s' = v_fs s \<and> v_cur s' = v_cur s"
  by (auto simp: vfs_close_def run_simps dest!: ref_dec_keeps open_dec_keeps)

lemma current_dir_keeps: "vfs_get_current_dir s = Some (r, s') \<Longrightarrow> v_fs s' = v_fs s \<and> v_cur s' = v_cur s"
  by (auto simp: vfs_get_current_dir_def run_simps dest!: ref_inc_keeps)

lemma get_bootfs_keeps: "vfs_get_bootfs s = Some (r, s') \<Longrightarrow> v_fs s' = v_fs s \<and> v_cur s' = v_cur s"
  by (auto simp: vfs_get_bootfs_def lock_bootfs_def unlock_bootfs_def run_simps dest!: ref_inc_keeps)

lemma vfs_get_root_keeps: "vfs_get_root fops name s = Some (r, s') \<Longrightarrow> v_fs s' = v_fs s \<and> v_cur s' = v_cur s"
  by (auto simp: vfs_get_root_def lock_vdev_list_def unlock_vdev_list_def run_simps dest!: ref_inc_keeps get_root_keeps)

lemma get_device_keeps: "get_device ops fops path s = Some (r, s') \<Longrightarrow> v_fs s' = v_fs s \<and> v_cur s' = v_cur s"
  by (auto simp: get_device_def run_simps
      dest!: current_dir_keeps vfs_get_root_keeps get_bootfs_keeps ref_dec_keeps get_root_keeps)

lemma vfs_lookup_keeps: "vfs_lookup ops fops path s = Some (r, s') \<Longrightarrow> v_fs s' = v_fs s \<and> v_cur s' = v_cur s"
  by (auto simp: vfs_lookup_def run_simps
      dest!: get_device_keeps vop_SomeD lookup_keeps ref_dec_keeps)

lemma vfs_lookup_parent_keeps:
  "vfs_lookup_parent ops fops path s = Some (r, s') \<Longrightarrow> v_fs s' = v_fs s \<and> v_cur s' = v_cur s"
  by (auto simp: vfs_lookup_parent_def run_simps
      dest!: get_device_keeps vop_SomeD lookup_parent_keeps)

lemma open_node_keeps: "open_node ops fops path fl s = Some (r, s') \<Longrightarrow> v_fs s' = v_fs s \<and> v_cur s' = v_cur s"
  by (auto simp: open_node_def run_simps
      dest!: vfs_lookup_parent_keeps vfs_lookup_keeps vop_SomeD create_keeps ref_dec_keeps)

lemma open_trunc_keeps: "open_trunc ops n fl s = Some s' \<Longrightarrow> v_fs s' = v_fs s \<and> v_cur s' = v_cur s"
  by (auto simp: open_trunc_def run_simps
      dest!: vop_SomeD ref_dec_keeps open_dec_keeps dest: truncate_keeps)

lemma vfs_open_keeps: "vfs_open ops fops path fl s = Some (r, s') \<Longrightarrow> v_fs s' = v_fs s \<and> v_cur s' = v_cur s"
  by (auto simp: vfs_open_def run_simps
      dest!: open_node_keeps vop_SomeD ref_dec_keeps open_inc_keeps open_trunc_keeps
      dest: open_keeps)

text \<open>The table after each step, from the entry before it.\<close>

lemma free_effect:
  assumes "filemap_free ops p i s = Some s'" "look p i (v_fs s) = Some f"
  shows "v_fs s' = put p i (f\<lparr>f_status := FD_NONE\<rparr>) (v_fs s)" "v_cur s' = v_cur s"
    "f_status f = FD_INIT \<or> f_status f = FD_CLOSED" "f_count f = 0"
  using assms by (auto simp: filemap_free_def run_simps dest!: vfs_close_keeps)

lemma release_effect:
  assumes "filemap_release ops p i s = Some s'" "look p i (v_fs s) = Some f"
  shows "v_fs s' = put p i (if f_count f = 1 then f\<lparr>f_count := f_count f - 1, f_status := FD_NONE\<rparr>
           else f\<lparr>f_count := f_count f - 1\<rparr>) (v_fs s)"
    "v_cur s' = v_cur s" "f_count f > 0" "f_status f = FD_OPENED \<or> f_status f = FD_CLOSED"
    "f_count f = 1 \<longrightarrow> f_status f = FD_CLOSED"
proof -
  let ?g = "f\<lparr>f_count := f_count f - 1\<rparr>"
  have pre: "f_status f = FD_OPENED \<or> f_status f = FD_CLOSED" "f_count f > 0"
    and run: "(if f_count f = 1 then filemap_free ops p i (set_file p i ?g s) else Some (set_file p i ?g s)) = Some s'"
    using assms by (auto simp: filemap_release_def run_simps)
  have free: "f_count f = 1 \<Longrightarrow> filemap_free ops p i (set_file p i ?g s) = Some s'"
    using run by simp
  have "look p i (v_fs (set_file p i ?g s)) = Some ?g" using assms(2) by simp
  note eff = free_effect [OF free this]
  show "v_fs s' = put p i (if f_count f = 1 then f\<lparr>f_count := f_count f - 1, f_status := FD_NONE\<rparr>
           else f\<lparr>f_count := f_count f - 1\<rparr>) (v_fs s)" "v_cur s' = v_cur s"
    using eff(1,2) run by (cases "f_count f = 1"; force)+
  show "f_count f = 1 \<longrightarrow> f_status f = FD_CLOSED" using eff(3) pre by auto
qed (use assms in \<open>auto simp: filemap_release_def run_simps\<close>)

lemma close_effect:
  assumes "filemap_close ops p i s = Some s'" "look p i (v_fs s) = Some f"
  shows "v_fs s' = put p i (if f_count f = 1
           then f\<lparr>f_status := FD_CLOSED, f_count := f_count f - 1, f_status := FD_NONE\<rparr>
           else f\<lparr>f_status := FD_CLOSED, f_count := f_count f - 1\<rparr>) (v_fs s)"
    "v_cur s' = v_cur s" "f_count f > 0" "f_status f = FD_OPENED"
proof -
  let ?g = "f\<lparr>f_status := FD_CLOSED, f_count := f_count f - 1\<rparr>"
  have run: "(if f_count f = 1 then filemap_free ops p i (set_file p i ?g s) else Some (set_file p i ?g s)) = Some s'"
    using assms by (auto simp: filemap_close_def run_simps)
  have free: "f_count f = 1 \<Longrightarrow> filemap_free ops p i (set_file p i ?g s) = Some s'"
    using run by simp
  have "look p i (v_fs (set_file p i ?g s)) = Some ?g" using assms(2) by simp
  note eff = free_effect [OF free this]
  show "v_fs s' = put p i (if f_count f = 1
           then f\<lparr>f_status := FD_CLOSED, f_count := f_count f - 1, f_status := FD_NONE\<rparr>
           else f\<lparr>f_status := FD_CLOSED, f_count := f_count f - 1\<rparr>) (v_fs s)" "v_cur s' = v_cur s"
    using eff(1,2) run by (cases "f_count f = 1"; force)+
qed (use assms in \<open>auto simp: filemap_close_def run_simps\<close>)

text \<open>An entry acquired and released around an operation that moves at most its position.\<close>

lemma bracket:
  assumes ok: "tables_ok (v_fs s)" and acq: "filemap_acquire p i s = Some s1"
    and mid: "v_fs s2 = v_fs s1 \<or> (\<exists>h x. look p i (v_fs s1) = Some h \<and> v_fs s2 = put p i (h\<lparr>f_pos := x\<rparr>) (v_fs s1))"
    and rel: "filemap_release ops p i s2 = Some s3"
  shows "tables_ok (v_fs s3)"
proof -
  obtain f where f: "look p i (v_fs s) = Some f" "f_status f = FD_OPENED"
    and F1: "v_fs s1 = put p i (f\<lparr>f_count := f_count f + 1\<rparr>) (v_fs s)"
    using acq by (rule acquire_effect) auto
  have slot: "f_fd f = int i" "f_count f > 0" "f_node f \<noteq> None"
    using tables_ok_look [OF ok f(1)] f(2) by (auto simp: slot_ok_def)
  obtain g where F2: "v_fs s2 = put p i g (v_fs s)" and g: "f_status g = FD_OPENED"
      "f_fd g = int i" "f_count g = f_count f + 1" "f_node g \<noteq> None"
    using mid F1 f slot that by (auto simp: f(1))
  have "look p i (v_fs s2) = Some g" using F2 f(1) by simp
  then have "v_fs s3 = put p i (g\<lparr>f_count := f_count g - 1\<rparr>) (v_fs s)"
    using release_effect(1) [OF rel] F2 g slot by simp
  moreover have "slot_ok i (g\<lparr>f_count := f_count g - 1\<rparr>)"
    using g slot by (simp add: slot_ok_def)
  ultimately show ?thesis using tables_ok_put [OF ok f(1)] by simp
qed

lemma fd2file_Inr: "fd2file fd s = Some (Inr i) \<Longrightarrow> i = nat fd \<and> 0 \<le> fd"
  by (auto simp: fd2file_def run_simps testfd_def split: if_splits)

lemma file_io_ok:
  assumes "file_io ops op allowed fd base len s = Some (r, c, s')" "tables_ok (v_fs s)"
    and keeps: "\<And>n o3 iob s r iob' s'. op (ops n) = Some o3 \<Longrightarrow> o3 n iob s = Some (r, iob', s') \<Longrightarrow> v_fs s' = v_fs s"
  shows "tables_ok (v_fs s')"
proof (cases "s' = s")
  case False
  then obtain i x s1 n g iob s2 f2 where
    run: "filemap_acquire (v_cur s) i s = Some s1" "op (ops n) = Some g" "g n x s1 = Some (r, iob, s2)"
    and f2: "look (v_cur s) i (v_fs s2) = Some f2"
    and rel': "filemap_release ops (v_cur s) i (if f_status f2 = FD_OPENED
          then set_file (v_cur s) i (f2\<lparr>f_pos := i32 (f_pos f2 + int (iobuf_used iob))\<rparr>) s2 else s2) = Some s'"
    using assms(1) by (simp add: file_io_def run_simps) (elim exE conjE disjE; (simp; fail | drule vop_SomeD, blast))
  define s3 where "s3 = (if f_status f2 = FD_OPENED
          then set_file (v_cur s) i (f2\<lparr>f_pos := i32 (f_pos f2 + int (iobuf_used iob))\<rparr>) s2 else s2)"
  have rel: "filemap_release ops (v_cur s) i s3 = Some s'" using rel' by (simp add: s3_def)
  have s3: "v_fs s3 = v_fs s2 \<or> v_fs s3 = put (v_cur s) i (f2\<lparr>f_pos := i32 (f_pos f2 + int (iobuf_used iob))\<rparr>) (v_fs s2)"
    by (simp add: s3_def)
  have "v_fs s2 = v_fs s1" using keeps [OF run(2,3)] .
  then have "v_fs s3 = v_fs s1 \<or>
      (\<exists>h x. look (v_cur s) i (v_fs s1) = Some h \<and> v_fs s3 = put (v_cur s) i (h\<lparr>f_pos := x\<rparr>) (v_fs s1))"
    using s3 f2 by metis
  then show ?thesis by (rule bracket [OF assms(2) run(1) _ rel])
qed (use assms in simp)

lemma file_read_ok: "file_read ops fd base len s = Some (r, c, s') \<Longrightarrow> tables_ok (v_fs s) \<Longrightarrow> tables_ok (v_fs s')"
  unfolding file_read_def by (erule file_io_ok) (auto dest: read_keeps)

lemma file_write_ok: "file_write ops fd base len s = Some (r, c, s') \<Longrightarrow> tables_ok (v_fs s) \<Longrightarrow> tables_ok (v_fs s')"
  unfolding file_write_def by (erule file_io_ok) (auto dest: write_keeps)

lemma file_fstat_ok: "file_fstat ops fd s = Some (r, s') \<Longrightarrow> tables_ok (v_fs s) \<Longrightarrow> tables_ok (v_fs s')"
  by (auto simp: file_fstat_def run_simps dest!: vop_SomeD dest: fstat_keeps intro: bracket)

lemma file_fsync_ok: "file_fsync ops fd s = Some (r, s') \<Longrightarrow> tables_ok (v_fs s) \<Longrightarrow> tables_ok (v_fs s')"
  by (auto simp: file_fsync_def run_simps dest!: vop_SomeD dest: fsync_keeps intro: bracket)

lemma file_get_dirent_ok:
  "file_get_dirent ops fd d s = Some (r, d', s') \<Longrightarrow> tables_ok (v_fs s) \<Longrightarrow> tables_ok (v_fs s')"
  by (auto simp: file_get_dirent_def run_simps dest!: vop_SomeD dest: getdirentry_keeps intro: bracket)

lemma file_close_ok:
  assumes "file_close ops fd s = Some (r, s')" "tables_ok (v_fs s)"
  shows "tables_ok (v_fs s')"
proof (cases "s' = s")
  case False
  then obtain i where cl: "filemap_close ops (v_cur s) i s = Some s'"
    using assms(1) by (auto simp: file_close_def run_simps)
  then obtain f where f: "look (v_cur s) i (v_fs s) = Some f"
    by (auto simp: filemap_close_def run_simps)
  have "slot_ok i f" using tables_ok_look [OF assms(2) f] .
  then show ?thesis
    using close_effect [OF cl f] tables_ok_put [OF assms(2) f] by (auto simp: slot_ok_def)
qed (use assms in simp)

lemma seek_target_keeps: "seek_target ops f pos wh s = Some (r, s') \<Longrightarrow> v_fs s' = v_fs s"
  by (auto simp: seek_target_def run_simps dest!: vop_SomeD dest: fstat_keeps)

lemma seek_try_keeps:
  "seek_try ops p i pos s = Some (r, s') \<Longrightarrow>
     v_fs s' = v_fs s \<or> (\<exists>h x. look p i (v_fs s) = Some h \<and> v_fs s' = put p i (h\<lparr>f_pos := x\<rparr>) (v_fs s))"
  by (auto simp: seek_try_def run_simps dest!: vop_SomeD dest: tryseek_keeps)
    (drule (1) tryseek_keeps, force)

lemma file_seek_ok:
  assumes "file_seek ops fd pos whence s = Some (r, s')" "tables_ok (v_fs s)"
  shows "tables_ok (v_fs s')"
proof (cases "s' = s")
  case False
  then obtain i s1 f r1 s2 s3 where acq: "filemap_acquire (v_cur s) i s = Some s1"
    and tgt: "seek_target ops f pos whence s1 = Some (r1, s2)"
    and try_s: "s3 = s2 \<or> (\<exists>x. seek_try ops (v_cur s) i x s2 = Some (r, s3))"
    and rel: "filemap_release ops (v_cur s) i s3 = Some s'"
    using assms(1) by (simp add: file_seek_def run_simps) blast
  note s2 = seek_target_keeps [OF tgt]
  have "v_fs s3 = v_fs s1 \<or>
      (\<exists>h x. look (v_cur s) i (v_fs s1) = Some h \<and> v_fs s3 = put (v_cur s) i (h\<lparr>f_pos := x\<rparr>) (v_fs s1))"
    using try_s seek_try_keeps s2 by metis
  then show ?thesis by (rule bracket [OF assms(2) acq _ rel])
qed (use assms in simp)

text \<open>A successful open takes the lowest free descriptor and changes nothing else in the tables.\<close>

lemma open_pos_keeps: "open_pos ops n fl s = Some (r, s') \<Longrightarrow> v_fs s' = v_fs s \<and> v_cur s' = v_cur s"
  by (auto simp: open_pos_def run_simps dest!: vop_SomeD dest: fstat_keeps)

lemma open_finish_effect:
  assumes "open_finish ops p i n rd wr fl s = Some (r, s')"
    and f: "look p i (v_fs s) = Some f" "f_count f = 0"
  shows "v_cur s' = v_cur s \<and>
    ((\<exists>pos. r = Inr (f_fd f) \<and> v_fs s' = put p i (opened_file rd wr n pos f) (v_fs s)) \<or>
     (\<exists>e. r = Inl e \<and> v_fs s' = put p i (f\<lparr>f_status := FD_NONE, f_pos := 0\<rparr>) (v_fs s)))"
proof -
  let ?s0 = "set_file p i (f\<lparr>f_pos := 0\<rparr>) s"
  obtain r1 s1 where pos: "open_pos ops n fl ?s0 = Some (r1, s1)"
    and rest: "(case r1 of
       Inl e \<Rightarrow> do { (_, s2) \<leftarrow> vfs_close ops n s1; s3 \<leftarrow> filemap_free ops p i s2; Some (Inl e, s3) }
     | Inr pos \<Rightarrow> do {
         f \<leftarrow> get_file p i s1;
         s2 \<leftarrow> filemap_open p i (set_file p i (f\<lparr>f_pos := pos, f_node := Some n, f_writable := wr, f_readable := rd\<rparr>) s1);
         Some (Inr (f_fd f), s2) }) = Some (r, s')"
    using assms(1) f by (auto simp: open_finish_def bind_Some_conv)
  have s1: "v_fs s1 = put p i (f\<lparr>f_pos := 0\<rparr>) (v_fs s)" "v_cur s1 = v_cur s"
    using open_pos_keeps [OF pos] by simp_all
  then have l1: "look p i (v_fs s1) = Some (f\<lparr>f_pos := 0\<rparr>)" using f by simp
  show ?thesis
  proof (cases r1)
    case (Inl e)
    then obtain s2 where c: "v_fs s2 = v_fs s1" "v_cur s2 = v_cur s1" "filemap_free ops p i s2 = Some s'" "r = Inl e"
      using rest by (auto simp: run_simps dest!: vfs_close_keeps)
    show ?thesis using free_effect(1,2) [OF c(3)] c l1 s1 by (cases f) auto
  next
    case (Inr q)
    let ?g = "f\<lparr>f_pos := q, f_node := Some n, f_writable := wr, f_readable := rd\<rparr>"
    have o: "filemap_open p i (set_file p i ?g s1) = Some s'" "r = Inr (f_fd f)"
      using rest Inr l1 by (auto simp: run_simps)
    have "look p i (v_fs (set_file p i ?g s1)) = Some ?g" using l1 by simp
    then show ?thesis using open_effect(1,2) [OF o(1)] s1 f o(2) by (cases f) (auto simp: opened_file_def)
  qed
qed

lemma file_open_effect:
  assumes "file_open ops fops path fl s = Some (r, s')" "r = Inr fd \<or> v_fs s' \<noteq> v_fs s"
  shows "\<exists>i f. look (v_cur s) i (v_fs s) = Some f \<and> f_status f = FD_NONE \<and> f_count f = 0 \<and>
    (\<forall>j<i. \<exists>g. look (v_cur s) j (v_fs s) = Some g \<and> f_status g \<noteq> FD_NONE) \<and> v_cur s' = v_cur s \<and>
    ((\<exists>n pos. r = Inr (f_fd f) \<and> v_fs s' =
        put (v_cur s) i (opened_file (fl AND O_ACCMODE \<noteq> O_WRONLY) (fl AND O_ACCMODE \<noteq> O_RDONLY) n pos f) (v_fs s)) \<or>
     (\<exists>e x. r = Inl e \<and> v_fs s' = put (v_cur s) i (f\<lparr>f_status := FD_NONE, f_node := None, f_pos := x\<rparr>) (v_fs s)))"
proof -
  let ?p = "v_cur s" and ?a = "fl AND O_ACCMODE"
  obtain i s1 r2 s2 where al: "filemap_alloc NO_FD s = Some (Inr i, s1)"
    and op: "vfs_open ops fops path fl s1 = Some (r2, s2)"
    and acc: "?a = O_RDONLY \<or> ?a = O_WRONLY \<or> ?a = O_RDWR"
    and rest: "(\<exists>e. r2 = Inl e \<and> r = Inl e \<and> filemap_free ops ?p i s2 = Some s') \<or>
      (\<exists>n. r2 = Inr n \<and> open_finish ops ?p i n (?a = O_RDONLY \<or> ?a = O_RDWR) (?a = O_WRONLY \<or> ?a = O_RDWR) fl s2 = Some (r, s'))"
    using assms alloc_effect [of NO_FD s] by (auto simp: file_open_def run_simps)
  obtain f where f: "look ?p i (v_fs s) = Some f" "f_status f = FD_NONE" "f_count f = 0"
    "\<forall>j<i. \<exists>g. look ?p j (v_fs s) = Some g \<and> f_status g \<noteq> FD_NONE" "v_cur s1 = ?p"
    "v_fs s1 = put ?p i (f\<lparr>f_status := FD_INIT, f_node := None\<rparr>) (v_fs s)"
    using al by (rule alloc_NO_FD)
  have s2: "v_fs s2 = put ?p i (f\<lparr>f_status := FD_INIT, f_node := None\<rparr>) (v_fs s)" "v_cur s2 = ?p"
    using vfs_open_keeps [OF op] f by simp_all
  have l2: "look ?p i (v_fs s2) = Some (f\<lparr>f_status := FD_INIT, f_node := None\<rparr>)" using s2 f(1) by simp
  have rw: "(?a = O_RDONLY \<or> ?a = O_RDWR) = (?a \<noteq> O_WRONLY)" "(?a = O_WRONLY \<or> ?a = O_RDWR) = (?a \<noteq> O_RDONLY)"
    using acc by (auto simp: O_RDONLY_def O_WRONLY_def O_RDWR_def)
  have "v_cur s' = ?p \<and> ((\<exists>n pos. r = Inr (f_fd f) \<and> v_fs s' =
        put ?p i (opened_file (?a \<noteq> O_WRONLY) (?a \<noteq> O_RDONLY) n pos f) (v_fs s)) \<or>
     (\<exists>e x. r = Inl e \<and> v_fs s' = put ?p i (f\<lparr>f_status := FD_NONE, f_node := None, f_pos := x\<rparr>) (v_fs s)))"
    using rest
  proof (elim disjE exE conjE)
    fix e assume "r = Inl e" "filemap_free ops ?p i s2 = Some s'"
    then show ?thesis using free_effect(1,2) [OF _ l2] s2 by (cases f) (auto intro!: exI [of _ "f_pos f"])
  next
    fix n assume o: "open_finish ops ?p i n (?a = O_RDONLY \<or> ?a = O_RDWR) (?a = O_WRONLY \<or> ?a = O_RDWR) fl s2 = Some (r, s')"
    show ?thesis
      using open_finish_effect [OF o l2] f(3) s2 unfolding rw by (cases f) (auto simp: opened_file_def)
  qed
  then show ?thesis using f by blast
qed

lemma file_open_ok:
  assumes "file_open ops fops path fl s = Some (r, s')" "tables_ok (v_fs s)"
  shows "tables_ok (v_fs s')"
proof (cases "v_fs s' = v_fs s")
  case False
  then obtain i f g where f: "look (v_cur s) i (v_fs s) = Some f" "f_count f = 0"
    and g: "v_fs s' = put (v_cur s) i g (v_fs s)" "f_fd g = f_fd f"
      "f_status g = FD_NONE \<and> f_count g = 0 \<or> f_status g = FD_OPENED \<and> f_count g = 1 \<and> f_node g \<noteq> None"
    using file_open_effect [OF assms(1)] by (fastforce simp: opened_file_def)
  have "slot_ok i g" using tables_ok_look [OF assms(2) f(1)] g(2,3) by (auto simp: slot_ok_def)
  then show ?thesis using tables_ok_put [OF assms(2) f(1)] g by simp
qed (use assms in simp)

end

text \<open>Duplication does not call the file system.\<close>

lemma inc_simps:
  "inode_ref_inc n s = Some (r, s') \<Longrightarrow> v_fs s' = v_fs s \<and> v_cur s' = v_cur s"
  "inode_open_inc n s = Some (r, s') \<Longrightarrow> v_fs s' = v_fs s \<and> v_cur s' = v_cur s"
  by (auto simp: inode_ref_inc_def inode_open_inc_def run_simps)

lemma dup_effect:
  assumes "filemap_dup (p, i) (q, j) s = Some s'" "look p i (v_fs s) = Some t"
  shows "\<exists>f n. look q j (v_fs s) = Some f \<and> f_status f = FD_OPENED \<and> f_node f = Some n \<and> v_cur s' = v_cur s \<and>
    f_status t = FD_INIT \<and>
    v_fs s' = put p i (t\<lparr>f_pos := f_pos f, f_readable := f_readable f, f_writable := f_writable f, f_node := Some n,
      f_status := FD_OPENED, f_count := f_count t + 1\<rparr>) (v_fs s)"
  using assms by (auto simp: filemap_dup_def filemap_open_def run_simps dest!: inc_simps)

lemma slot_ok_dup:
  assumes "filemap_dup (p, i) (q, j) (set_file p i (t\<lparr>f_status := FD_INIT\<rparr>) s) = Some s'"
    and "look p i (v_fs s) = Some t" "slot_ok i t" "tables_ok (v_fs s)"
  shows "tables_ok (v_fs s')" "v_cur s' = v_cur s"
proof -
  have "look p i (v_fs (set_file p i (t\<lparr>f_status := FD_INIT\<rparr>) s)) = Some (t\<lparr>f_status := FD_INIT\<rparr>)"
    using assms by simp
  note eff = dup_effect [OF assms(1) this]
  then obtain g where "v_fs s' = put p i g (v_fs s)" "f_fd g = f_fd t" "f_status g = FD_OPENED" "f_node g \<noteq> None"
    "f_count g = f_count t + 1"
    by (auto simp: put_put)
  moreover have "f_count t \<ge> 0" using assms(3) by (auto simp: slot_ok_def split: if_splits)
  ultimately show "tables_ok (v_fs s')"
    using assms by (auto simp: slot_ok_def intro!: tables_ok_put)
  show "v_cur s' = v_cur s" using eff by auto
qed

lemma file_dup_ok:
  assumes "file_dup fd1 fd2 s = Some (r, s')" "tables_ok (v_fs s)"
  shows "tables_ok (v_fs s')"
proof (cases "s' = s")
  case False
  then obtain i1 r2 s1 where al: "filemap_alloc fd2 s = Some (r2, s1)"
    and rest: "s' = s1 \<and> r2 = Inl (projl r2) \<or> (\<exists>i2. r2 = Inr i2 \<and> filemap_dup (v_cur s, i2) (v_cur s, i1) s1 = Some s')"
    using assms(1) by (auto simp: file_dup_def run_simps)
  then obtain i2 t where r2: "r2 = Inr i2" "look (v_cur s) i2 (v_fs s) = Some t" "f_status t = FD_NONE"
    and s1: "v_fs s1 = put (v_cur s) i2 (t\<lparr>f_status := FD_INIT, f_node := None\<rparr>) (v_fs s)"
    using alloc_effect [OF al] False by auto
  have dup: "filemap_dup (v_cur s, i2) (v_cur s, i1) s1 = Some s'" using rest r2 by auto
  have l1: "look (v_cur s) i2 (v_fs s1) = Some (t\<lparr>f_status := FD_INIT, f_node := None\<rparr>)"
    using s1 r2 by simp
  obtain g where g: "v_fs s' = put (v_cur s) i2 g (v_fs s)" "f_fd g = f_fd t" "f_status g = FD_OPENED"
      "f_node g \<noteq> None" "f_count g = f_count t + 1"
    using dup_effect [OF dup l1] s1 by (auto simp: put_put)
  have "slot_ok i2 g" using tables_ok_look [OF assms(2) r2(2)] r2(3) g by (auto simp: slot_ok_def)
  then show ?thesis using tables_ok_put [OF assms(2) r2(2)] g(1) by simp
qed (use assms in simp)

section \<open>Whole runs\<close>

lemma tables_ok_upd:
  assumes "tables_ok F" "F p = Some fs" "fs_filemap fs' = fs_filemap fs"
  shows "tables_ok (F(p \<mapsto> fs'))"
proof -
  have "\<And>q i. look q i (F(p \<mapsto> fs')) = look q i F" using assms by (auto simp: look_def)
  then show ?thesis using assms by (auto simp: tables_ok_def split: if_splits)
qed

lemma tables_ok_del: "tables_ok F \<Longrightarrow> tables_ok (F(p := None))"
  by (auto simp: tables_ok_def look_def split: option.splits if_splits)

lemma tables_ok_create: "tables_ok (v_fs s) \<Longrightarrow> tables_ok (v_fs (snd (fs_create got s)))"
  by (auto simp: tables_ok_def look_def fs_create_def filemap_init_def slot_ok_def
      split: option.splits prod.splits if_splits)

lemma dup_fs_loop_ok:
  "dup_fs_loop k to from s = Some s' \<Longrightarrow> tables_ok (v_fs s) \<Longrightarrow> tables_ok (v_fs s') \<and> v_cur s' = v_cur s"
proof (induction k arbitrary: s)
  case (Suc k)
  then obtain s1 where s1: "dup_fs_loop k to from s1 = Some s'"
    "s1 = s \<or> (\<exists>t. look to 0 (v_fs s) = Some t \<and>
       filemap_dup (to, 0) (from, 0) (set_file to 0 (t\<lparr>f_status := FD_INIT\<rparr>) s) = Some s1)"
    by (auto simp: run_simps)
  then have "tables_ok (v_fs s1) \<and> v_cur s1 = v_cur s"
    using Suc.prems(2) slot_ok_dup tables_ok_look by metis
  then show ?case using Suc.IH [OF s1(1)] by simp
qed simp

lemma dup_fs_ok:
  assumes "dup_fs to from s = Some (r, s')" "tables_ok (v_fs s)"
  shows "tables_ok (v_fs s')"
proof -
  obtain t f where t: "v_fs s to = Some t" and f: "v_fs s from = Some f"
    using assms(1) by (auto simp: dup_fs_def run_simps)
  define s1 where "s1 = upd_fs to (t\<lparr>fs_pwd := fs_pwd f\<rparr>) s"
  obtain s2 where s2': "s2 = s1 \<or> (\<exists>n r. inode_ref_inc n s1 = Some (r, s2))"
    and loop: "dup_fs_loop FS_STRUCT_NENTRY to from s2 = Some s'"
    using assms(1) t f by (auto simp: dup_fs_def s1_def [symmetric] run_simps)
  have s2: "v_fs s2 = (v_fs s)(to \<mapsto> t\<lparr>fs_pwd := fs_pwd f\<rparr>)"
    using s2' inc_simps(1) by (fastforce simp: s1_def)
  have "tables_ok (v_fs s2)" using tables_ok_upd [OF assms(2) t] s2 by simp
  then show ?thesis using dup_fs_loop_ok [OF loop] by simp
qed

context inode_backend
begin

lemma fs_destory_loop_ok:
  "fs_destory_loop k ops p s = Some s' \<Longrightarrow> tables_ok (v_fs s) \<Longrightarrow> tables_ok (v_fs s')"
proof (induction k arbitrary: s)
  case (Suc k)
  then obtain f s1 where s1: "fs_destory_loop k ops p s1 = Some s'" "look p 0 (v_fs s) = Some f"
    "s1 = s \<or> filemap_close ops p 0 s = Some s1"
    by (auto simp: run_simps)
  have "tables_ok (v_fs s1)" if cl: "filemap_close ops p 0 s = Some s1"
    using close_effect [OF cl s1(2)] tables_ok_put [OF Suc.prems(2) s1(2)] tables_ok_look [OF Suc.prems(2) s1(2)]
    by (auto simp: slot_ok_def)
  then show ?case using Suc.IH [OF s1(1)] s1(3) Suc.prems(2) by blast
qed simp

lemma fs_destory_ok: "fs_destory ops p s = Some s' \<Longrightarrow> tables_ok (v_fs s) \<Longrightarrow> tables_ok (v_fs s')"
  by (auto simp: fs_destory_def run_simps dest!: ref_dec_keeps intro!: tables_ok_del dest: fs_destory_loop_ok)

end

text \<open>The calls a kernel makes on the descriptor tables, those of other processes between them.\<close>

datatype file_call =
    Create "(nat \<times> File list) option" | Switch nat | Ref nat | Unref nat | Fork nat nat | Destory nat
  | Open string u32 | Close int | Read int nat nat | Write int nat nat | Fstat int | Dup int int
  | Seek int int int | Fsync int | Dirent int dirent

fun do_call ::
    "(nat \<Rightarrow> 'a vst_scheme inode_ops) \<Rightarrow> 'a vst_scheme fs_ops \<Rightarrow> file_call \<Rightarrow> 'a vst_scheme \<Rightarrow> 'a vst_scheme option" where
  "do_call ops fops (Create got) s = Some (snd (fs_create got s))"
| "do_call ops fops (Switch p) s = Some (s\<lparr>v_cur := p\<rparr>)"
| "do_call ops fops (Ref p) s = map_option snd (fs_count_inc p s)"
| "do_call ops fops (Unref p) s = map_option snd (fs_count_dec p s)"
| "do_call ops fops (Fork to from) s = map_option snd (dup_fs to from s)"
| "do_call ops fops (Destory p) s = fs_destory ops p s"
| "do_call ops fops (Open path fl) s = map_option snd (file_open ops fops path fl s)"
| "do_call ops fops (Close fd) s = map_option snd (file_close ops fd s)"
| "do_call ops fops (Read fd base len) s = map_option (snd \<circ> snd) (file_read ops fd base len s)"
| "do_call ops fops (Write fd base len) s = map_option (snd \<circ> snd) (file_write ops fd base len s)"
| "do_call ops fops (Fstat fd) s = map_option snd (file_fstat ops fd s)"
| "do_call ops fops (Dup fd1 fd2) s = map_option snd (file_dup fd1 fd2 s)"
| "do_call ops fops (Seek fd pos whence) s = map_option snd (file_seek ops fd pos whence s)"
| "do_call ops fops (Fsync fd) s = map_option snd (file_fsync ops fd s)"
| "do_call ops fops (Dirent fd d) s = map_option (snd \<circ> snd) (file_get_dirent ops fd d s)"

fun do_calls ::
    "(nat \<Rightarrow> 'a vst_scheme inode_ops) \<Rightarrow> 'a vst_scheme fs_ops \<Rightarrow> file_call list \<Rightarrow> 'a vst_scheme \<Rightarrow> 'a vst_scheme option" where
  "do_calls ops fops [] s = Some s"
| "do_calls ops fops (c # cs) s = do { s1 \<leftarrow> do_call ops fops c s; do_calls ops fops cs s1 }"

lemma count_ok:
  "fs_count_inc p s = Some (r, s') \<Longrightarrow> tables_ok (v_fs s) \<Longrightarrow> tables_ok (v_fs s')"
  "fs_count_dec p s = Some (r, s') \<Longrightarrow> tables_ok (v_fs s) \<Longrightarrow> tables_ok (v_fs s')"
  by (auto simp: fs_count_inc_def fs_count_dec_def run_simps intro!: tables_ok_upd)

context inode_backend
begin

lemma file_call_ok: "do_call ops fops c s = Some s' \<Longrightarrow> tables_ok (v_fs s) \<Longrightarrow> tables_ok (v_fs s')"
  by (cases c)
    (auto intro: tables_ok_create count_ok dup_fs_ok fs_destory_ok file_open_ok file_close_ok file_read_ok
      file_write_ok file_fstat_ok file_dup_ok file_seek_ok file_fsync_ok file_get_dirent_ok)

lemma file_calls_ok: "do_calls ops fops cs s = Some s' \<Longrightarrow> tables_ok (v_fs s) \<Longrightarrow> tables_ok (v_fs s')"
  by (induction cs arbitrary: s) (auto simp: bind_Some_conv dest: file_call_ok)

end

section \<open>Duplicating a descriptor and closing it again\<close>

lemma put_same: "look p i F = Some f \<Longrightarrow> put p i f F = F"
  by (auto simp: look_def put_def fun_eq_iff split: option.splits if_splits)

lemma set_file_set_inode:
  "set_file p i f s = s\<lparr>v_fs := put p i f (v_fs s)\<rparr>"
  "upd_inode n x s = s\<lparr>v_inode := (v_inode s)(n \<mapsto> x)\<rparr>"
  by (auto simp: set_file_def put_def upd_fs_def upd_inode_def split: option.splits)

text \<open>C37: Duplicating an open descriptor to a free one always succeeds, takes one reference and one open of
  the inode, and closing the duplicate gives both back: every other part of the state is as it was before,
  and the duplicate's entry is free again.
\<close>

theorem dup_close_restores:
  assumes fs: "v_fs s (v_cur s) = Some fs" "fs_count fs > 0" and ok: "tables_ok (v_fs s)"
    and f1: "testfd fd1" "fs_filemap fs ! nat fd1 = f1" "f_status f1 = FD_OPENED" "f_node f1 = Some n"
    and f2: "testfd fd2" "fs_filemap fs ! nat fd2 = f2" "f_status f2 = FD_NONE"
    and node: "v_inode s n = Some i" "0 < in_open i" "in_open i \<le> in_ref i"
  shows "\<exists>s1. file_dup fd1 fd2 s = Some (Inr fd2, s1) \<and>
    v_inode s1 n = Some (i\<lparr>in_ref := in_ref i + 1, in_open := in_open i + 1\<rparr>) \<and>
    file_testfd fd2 (f_readable f1) (f_writable f1) s1 = Some True \<and>
    (\<exists>f. f_status f = FD_NONE \<and> file_close ops fd2 s1 = Some (Inr (), set_file (v_cur s) (nat fd2) f s))"
proof -
  let ?p = "v_cur s" and ?i1 = "nat fd1" and ?i2 = "nat fd2"
  have len: "length (fs_filemap fs) = FS_STRUCT_NENTRY" using ok fs by (auto simp: tables_ok_def)
  have l: "look ?p ?i1 (v_fs s) = Some f1" "look ?p ?i2 (v_fs s) = Some f2"
    using fs f1 f2 len by (auto simp: look_def testfd_def)
  have ne: "?i1 \<noteq> ?i2" using f1 f2 by auto
  have slots: "f_fd f1 = fd1" "f_fd f2 = fd2" "f_count f2 = 0"
    using tables_ok_look [OF ok l(1)] tables_ok_look [OF ok l(2)] f1 f2 by (auto simp: slot_ok_def testfd_def)
  have fd2: "fd2 \<noteq> NO_FD" using f2(1) by (auto simp: testfd_def NO_FD_def)
  have fm: "get_filemap s = Some (fs_filemap fs)" using fs by (simp add: get_filemap_def)
  define t where "t = f2\<lparr>f_pos := f_pos f1, f_readable := f_readable f1, f_writable := f_writable f1,
    f_node := Some n, f_status := FD_OPENED, f_count := 1\<rparr>"
  define j where "j = i\<lparr>in_ref := in_ref i + 1, in_open := in_open i + 1\<rparr>"
  define s1 where "s1 = s\<lparr>v_inode := (v_inode s)(n \<mapsto> j), v_fs := put ?p ?i2 t (v_fs s)\<rparr>"
  have dup: "file_dup fd1 fd2 s = Some (Inr fd2, s1)"
    using f1 f2 fs fm l slots ne node fd2
    by (simp add: file_dup_def fd2file_def filemap_alloc_def filemap_found_def filemap_dup_def filemap_open_def
        look_put inode_ref_inc_def inode_open_inc_def set_file_set_inode s1_def t_def j_def)
  have fm1: "get_filemap s1 \<noteq> None"
    using fs by (auto simp: s1_def get_filemap_def put_def)
  have l1: "look ?p ?i2 (v_fs s1) = Some t" using l by (simp add: s1_def)
  have fd: "fd2file fd2 s1 = Some (Inr ?i2)"
    using fm1 l1 f2 slots by (auto simp: fd2file_def s1_def t_def)
  have "file_testfd fd2 (f_readable f1) (f_writable f1) s1 = Some True"
    using l1 by (simp add: file_testfd_def fd) (simp add: s1_def t_def)
  moreover have "file_close ops fd2 s1 = Some (Inr (), set_file ?p ?i2 (t\<lparr>f_count := 0, f_status := FD_NONE\<rparr>) s)"
    using node l fun_upd_idem [of "v_inode s" n "Some i"] unfolding file_close_def fd
    by (simp add: filemap_close_def filemap_free_def vfs_close_def inode_open_dec_def
        inode_ref_dec_def set_file_set_inode s1_def t_def j_def)
  moreover have "f_status (t\<lparr>f_count := 0, f_status := FD_NONE\<rparr>) = FD_NONE" by simp
  moreover have "v_inode s1 n = Some (i\<lparr>in_ref := in_ref i + 1, in_open := in_open i + 1\<rparr>)"
    by (simp add: s1_def j_def)
  ultimately show ?thesis using dup by blast
qed

text \<open>Three processes' worth of state for the examples: one inode, one table with descriptor 0 open on it.\<close>

definition ex_file :: "nat \<Rightarrow> File" where
  "ex_file fd = \<lparr>f_status = FD_NONE, f_readable = False, f_writable = False, f_fd = int fd, f_pos = 0,
     f_node = None, f_count = 0\<rparr>"

definition ex_open :: File where
  "ex_open = (ex_file 0)\<lparr>f_status := FD_OPENED, f_readable := True, f_node := Some 7, f_count := 1\<rparr>"

definition ex_table :: "File list" where
  "ex_table = ex_open # map ex_file [1..<FS_STRUCT_NENTRY]"

definition ex_free :: "File list" where
  "ex_free = map ex_file [0..<FS_STRUCT_NENTRY]"

definition ex_state :: vst where
  "ex_state = \<lparr>v_inode = [7 \<mapsto> \<lparr>in_ref = 1, in_open = 1, in_fs = None, in_isdev = True\<rparr>],
     v_fs = [1 \<mapsto> \<lparr>fs_pwd = None, fs_filemap = ex_table, fs_count = 1, fs_sem = 1\<rparr>,
             2 \<mapsto> \<lparr>fs_pwd = None, fs_filemap = ex_free, fs_count = 0, fs_sem = 1\<rparr>],
     v_cur = 1, v_bootfs = None, v_bootfs_sem = 1, v_vdevs = [], v_vdev_sem = 1, v_mem = (\<lambda>_. 0)\<rparr>"

lemma ex_table_nth: "i < FS_STRUCT_NENTRY \<Longrightarrow> ex_table ! i = (if i = 0 then ex_open else ex_file i)"
  by (auto simp: ex_table_def nth_Cons')

lemma ex_table_length: "length ex_table = FS_STRUCT_NENTRY"
  by (simp add: ex_table_def FS_STRUCT_NENTRY_def)

lemma ex_free_hd: "hd ex_free = ex_file 0" "ex_free \<noteq> []"
  by (simp_all add: ex_free_def FS_STRUCT_NENTRY_def upt_conv_Cons)

lemma ex_state_ok: "tables_ok (v_fs ex_state)"
  by (auto simp: tables_ok_def look_def ex_state_def ex_table_nth ex_table_length ex_free_def slot_ok_def
      ex_open_def ex_file_def split: if_splits)

theorem dup_close_restores_witness:
  "\<exists>s1. file_dup 0 5 ex_state = Some (Inr 5, s1) \<and>
    (\<exists>f. f_status f = FD_NONE \<and> file_close (\<lambda>_. undefined) 5 s1 = Some (Inr (), set_file 1 5 f ex_state))"
  using dup_close_restores [of ex_state "\<lparr>fs_pwd = None, fs_filemap = ex_table, fs_count = 1, fs_sem = 1\<rparr>"
      0 ex_open 7 5 "ex_file 5" "\<lparr>in_ref = 1, in_open = 1, in_fs = None, in_isdev = True\<rparr>" "\<lambda>_. undefined"]
    ex_state_ok
  by (auto simp: testfd_def FS_STRUCT_NENTRY_def ex_table_nth ex_open_def ex_file_def ex_state_def)

section \<open>Duplicating and destroying a whole table\<close>

text \<open>After \<open>k\<close> rounds the first entry of the copy has been opened \<open>k\<close> times, on the same inode.\<close>

lemma dup_fs_loop_first:
  assumes "look from 0 (v_fs s) = Some f" "f_status f = FD_OPENED" "f_node f = Some n" "to \<noteq> from"
    and "look to 0 (v_fs s) = Some t" "v_inode s n = Some i"
  shows "\<exists>s' t'. dup_fs_loop k to from s = Some s' \<and> v_fs s' = put to 0 t' (v_fs s) \<and> f_count t' = f_count t + int k \<and>
    f_status t' = (if k = 0 then f_status t else FD_OPENED) \<and> v_cur s' = v_cur s \<and>
    v_inode s' = (v_inode s)(n \<mapsto> i\<lparr>in_ref := in_ref i + int k, in_open := in_open i + int k\<rparr>)"
  using assms
proof (induction k arbitrary: s t i)
  case 0
  then show ?case by (auto simp: put_same fun_upd_idem intro!: exI [of _ t])
next
  case (Suc k)
  define t1 where "t1 = t\<lparr>f_status := FD_OPENED, f_pos := f_pos f, f_readable := f_readable f,
    f_writable := f_writable f, f_node := Some n, f_count := f_count t + 1\<rparr>"
  define i1 where "i1 = i\<lparr>in_ref := in_ref i + 1, in_open := in_open i + 1\<rparr>"
  define s1 where "s1 = s\<lparr>v_inode := (v_inode s)(n \<mapsto> i1), v_fs := put to 0 t1 (v_fs s)\<rparr>"
  have "filemap_dup (to, 0) (from, 0) (set_file to 0 (t\<lparr>f_status := FD_INIT\<rparr>) s) = Some s1"
    using Suc.prems
    by (cases t) (simp add: filemap_dup_def filemap_open_def look_put inode_ref_inc_def inode_open_inc_def
        set_file_set_inode s1_def t1_def i1_def)
  then have step: "dup_fs_loop (Suc k) to from s = dup_fs_loop k to from s1"
    using Suc.prems by simp
  have "look from 0 (v_fs s1) = Some f" "look to 0 (v_fs s1) = Some t1" "v_inode s1 n = Some i1"
    using Suc.prems by (auto simp: s1_def look_put)
  from Suc.IH [OF this(1) Suc.prems(2-4) this(2,3)]
  obtain s' t' where "dup_fs_loop k to from s1 = Some s'" "v_fs s' = put to 0 t' (v_fs s1)" "v_cur s' = v_cur s1"
    "f_count t' = f_count t1 + int k" "f_status t' = FD_OPENED"
    "v_inode s' = (v_inode s1)(n \<mapsto> i1\<lparr>in_ref := in_ref i1 + int k, in_open := in_open i1 + int k\<rparr>)"
    by (auto simp: t1_def simp del: fun_upd_apply)
  then show ?case
    unfolding step by (intro exI [of _ s'] exI [of _ t']) (auto simp: s1_def t1_def i1_def add.assoc put_put)
qed

text \<open>C38: When a process with descriptor 0 open is duplicated, the copy gets descriptor 0 opened 145 times (the
  size of the table), its inode gains that many references and opens, and no other descriptor is
  copied.  Destroying the copy then fails an assertion: closing the entry once leaves it with 144 opens.
\<close>

theorem dup_fs_then_destory_stops:
  assumes t: "v_fs s to = Some t" "fs_count t = 0" "0 < length (fs_filemap t)" "f_count (hd (fs_filemap t)) = 0"
    and f: "v_fs s from = Some f" "fs_count f > 0" "fs_pwd f = None" "fs_filemap f \<noteq> []"
    and fd0: "f_status (hd (fs_filemap f)) = FD_OPENED" "f_node (hd (fs_filemap f)) = Some n"
    and node: "v_inode s n = Some i"
  shows "\<exists>s' g. dup_fs to from s = Some (Inr (), s') \<and> get_file to 0 s' = Some g \<and> f_count g = 145 \<and>
    v_inode s' n = Some (i\<lparr>in_ref := in_ref i + 145, in_open := in_open i + 145\<rparr>) \<and>
    (\<forall>j>0. get_file to j s' = get_file to j s) \<and> fs_destory ops to s' = None"
proof -
  define s1 where "s1 = upd_fs to (t\<lparr>fs_pwd := None\<rparr>) s"
  have ne: "to \<noteq> from" using t f by auto
  have l: "look from 0 (v_fs s1) = Some (hd (fs_filemap f))" "look to 0 (v_fs s1) = Some (hd (fs_filemap t))"
    "v_inode s1 n = Some i"
    using t f node ne by (auto simp: s1_def look_def hd_conv_nth)
  obtain s' g where loop: "dup_fs_loop FS_STRUCT_NENTRY to from s1 = Some s'"
    and F: "v_fs s' = put to 0 g (v_fs s1)" and g: "f_count g = 145" "f_status g = FD_OPENED"
    and I: "v_inode s' = (v_inode s1)(n \<mapsto> i\<lparr>in_ref := in_ref i + 145, in_open := in_open i + 145\<rparr>)"
    using dup_fs_loop_first [OF l(1) fd0 ne l(2,3), of FS_STRUCT_NENTRY] t(4) by (auto simp: FS_STRUCT_NENTRY_def)
  have run: "dup_fs to from s = Some (Inr (), s')"
    using t f loop by (simp add: dup_fs_def s1_def)
  have g0: "look to 0 (v_fs s') = Some g" using F l(2) by simp
  have other: "get_file to j s' = get_file to j s" if "j > 0" for j
    using that l(2) t by (simp add: F look_put) (simp add: s1_def look_def)
  have N: "FS_STRUCT_NENTRY = Suc 144" by (simp add: FS_STRUCT_NENTRY_def)
  have "fs_destory_loop FS_STRUCT_NENTRY ops to s' = None"
    using g g0 unfolding N fs_destory_loop.simps by (simp add: filemap_close_def)
  moreover have "v_fs s' to = Some (t\<lparr>fs_pwd := None, fs_filemap := (fs_filemap t)[0 := g]\<rparr>)"
    using F t by (simp add: s1_def put_def)
  ultimately have "fs_destory ops to s' = None" using t by (simp add: fs_destory_def)
  then show ?thesis using run g0 g(1) I other by auto
qed

theorem dup_fs_then_destory_stops_witness:
  "\<exists>s' g. dup_fs 2 1 ex_state = Some (Inr (), s') \<and> get_file 2 0 s' = Some g \<and> f_count g = 145 \<and>
    fs_destory (\<lambda>_. undefined) 2 s' = None"
  using dup_fs_then_destory_stops [of ex_state 2 "\<lparr>fs_pwd = None, fs_filemap = ex_free, fs_count = 0, fs_sem = 1\<rparr>" 1
      "\<lparr>fs_pwd = None, fs_filemap = ex_table, fs_count = 1, fs_sem = 1\<rparr>" 7
      "\<lparr>in_ref = 1, in_open = 1, in_fs = None, in_isdev = True\<rparr>" "\<lambda>_. undefined"]
  by (auto simp: ex_state_def ex_free_hd ex_table_def ex_open_def ex_file_def)

end
