(* ===== verification/Devs.thy ===== *)
theory Devs
  imports Filemap Kqueue
begin

text \<open>
  The device files (\<^verbatim>\<open>src/kernel/fs/devs\<close>): the operations of a device inode (\<^verbatim>\<open>dev.c\<close>) and the four devices, the
  null device, the keyboard, the screen and the file system disk, the last on top of the IDE driver's sector
  transfers (\<^verbatim>\<open>src/kernel/driver/ide.c\<close>).

  A device's function pointers are set once by its initialisation and are represented by the kind of the
  device.  A drive is its bytes and the set of its bad sectors.  Reading the keyboard sleeps while its queue is empty;
  \<open>d_keys\<close> are the wakeups to come, a key or an interruption, and a reader that is never woken does not return.
\<close>

section \<open>State\<close>

datatype dev_kind = Null_dev | Stdin_dev | Stdout_dev | Disk0_dev

record device =
  d_blocks :: nat
  d_blocksize :: nat
  d_kind :: dev_kind

record ide_device =
  id_valid :: bool
  id_size :: nat

record dst = vst +
  d_dev :: "nat \<Rightarrow> device option"
  d_ide :: "ide_device list"
  d_chan :: "nat \<Rightarrow> int"
  d_disk :: "nat \<Rightarrow> mem"
  d_bad :: "nat \<Rightarrow> nat \<Rightarrow> bool"
  d_disk0_sem :: int
  d_disk0_buffer :: nat
  d_stdin :: queue
  d_keys :: "u8 option list"
  d_out :: "u8 list"

section \<open>The IDE driver\<close>

definition SECT_SIZE :: nat where "SECT_SIZE = 512"
definition MAX_IDE :: nat where "MAX_IDE = 4"
definition MAX_NSECS :: nat where "MAX_NSECS = 128"
definition MAX_DISK_NSECS :: nat where "MAX_DISK_NSECS = 0x10000000"

definition ide_device_valid :: "nat \<Rightarrow> 'a dst_scheme \<Rightarrow> bool" where
  "ide_device_valid ideno s = (ideno < MAX_IDE \<and> id_valid (d_ide s ! ideno))"

definition ide_device_size :: "nat \<Rightarrow> 'a dst_scheme \<Rightarrow> nat" where
  "ide_device_size ideno s = (if ide_device_valid ideno s then id_size (d_ide s ! ideno) else 0)"

definition lock_channel :: "nat \<Rightarrow> 'a dst_scheme \<Rightarrow> 'a dst_scheme option" where
  "lock_channel ideno s =
     (let c = ideno div 2 in
      if d_chan s c > 0 then Some (s\<lparr>d_chan := (d_chan s)(c := d_chan s c - 1)\<rparr>) else None)"

definition unlock_channel :: "nat \<Rightarrow> 'a dst_scheme \<Rightarrow> 'a dst_scheme" where
  "unlock_channel ideno s = (let c = ideno div 2 in s\<lparr>d_chan := (d_chan s)(c := d_chan s c + 1)\<rparr>)"

text \<open>The sector address as it is sent to the drive, in three bytes and four bits.\<close>

definition ide_lba :: "u32 \<Rightarrow> u32" where
  "ide_lba secno = (secno AND 0xFF) OR push_bit 8 (drop_bit 8 secno AND 0xFF) OR
     push_bit 16 (drop_bit 16 secno AND 0xFF) OR push_bit 24 (drop_bit 24 secno AND 0xF)"

text \<open>The transfer loops; they stop at the first sector for which the drive reports an error.\<close>

fun ide_read_loop :: "mem \<Rightarrow> (nat \<Rightarrow> bool) \<Rightarrow> nat \<Rightarrow> nat \<Rightarrow> nat \<Rightarrow> mem \<Rightarrow> bool \<times> mem" where
  "ide_read_loop disk bad sec 0 dst m = (True, m)"
| "ide_read_loop disk bad sec (Suc n) dst m =
     (if bad sec then (False, m)
      else ide_read_loop disk bad (Suc sec) n (dst + SECT_SIZE)
        (\<lambda>a. if dst \<le> a \<and> a < dst + SECT_SIZE then disk (sec * SECT_SIZE + (a - dst)) else m a))"

fun ide_write_loop :: "mem \<Rightarrow> (nat \<Rightarrow> bool) \<Rightarrow> nat \<Rightarrow> nat \<Rightarrow> nat \<Rightarrow> mem \<Rightarrow> bool \<times> mem" where
  "ide_write_loop m bad sec 0 src disk = (True, disk)"
| "ide_write_loop m bad sec (Suc n) src disk =
     (if bad sec then (False, disk)
      else ide_write_loop m bad (Suc sec) n (src + SECT_SIZE)
        (\<lambda>a. if sec * SECT_SIZE \<le> a \<and> a < Suc sec * SECT_SIZE then m (src + (a - sec * SECT_SIZE)) else disk a))"

definition ide_read_secs :: "nat \<Rightarrow> u32 \<Rightarrow> nat \<Rightarrow> nat \<Rightarrow> 'a dst_scheme \<Rightarrow> (bool \<times> 'a dst_scheme) option" where
  "ide_read_secs ideno secno dst nsecs s = do {
     kassert (nsecs \<le> MAX_NSECS \<and> ide_device_valid ideno s);
     kassert (unat secno < MAX_DISK_NSECS \<and> unat (secno + of_nat nsecs) \<le> MAX_DISK_NSECS);
     s1 \<leftarrow> lock_channel ideno s;
     let (ok, m) = ide_read_loop (d_disk s1 ideno) (d_bad s1 ideno) (unat (ide_lba secno)) nsecs dst (v_mem s1);
     Some (ok, unlock_channel ideno (s1\<lparr>v_mem := m\<rparr>))
   }"

definition ide_write_secs :: "nat \<Rightarrow> u32 \<Rightarrow> nat \<Rightarrow> nat \<Rightarrow> 'a dst_scheme \<Rightarrow> (bool \<times> 'a dst_scheme) option" where
  "ide_write_secs ideno secno src nsecs s = do {
     kassert (nsecs \<le> MAX_NSECS \<and> ide_device_valid ideno s);
     kassert (unat secno < MAX_DISK_NSECS \<and> unat (secno + of_nat nsecs) \<le> MAX_DISK_NSECS);
     s1 \<leftarrow> lock_channel ideno s;
     let (ok, d) = ide_write_loop (v_mem s1) (d_bad s1 ideno) (unat (ide_lba secno)) nsecs src (d_disk s1 ideno);
     Some (ok, unlock_channel ideno (s1\<lparr>d_disk := (d_disk s1)(ideno := d)\<rparr>))
   }"

section \<open>The file system disk\<close>

definition DISK0_DEV_NO :: nat where "DISK0_DEV_NO = 2"
definition DISK0_BLK_SIZE :: nat where "DISK0_BLK_SIZE = 4096"
definition DISK0_BUF_SIZE :: nat where "DISK0_BUF_SIZE = 4 * DISK0_BLK_SIZE"
definition DISK0_BLK_N_SECT :: nat where "DISK0_BLK_N_SECT = DISK0_BLK_SIZE div SECT_SIZE"

definition lock_disk0 :: "'a dst_scheme \<Rightarrow> 'a dst_scheme option" where
  "lock_disk0 s = (if d_disk0_sem s > 0 then Some (s\<lparr>d_disk0_sem := d_disk0_sem s - 1\<rparr>) else None)"

definition unlock_disk0 :: "'a dst_scheme \<Rightarrow> 'a dst_scheme" where
  "unlock_disk0 s = s\<lparr>d_disk0_sem := d_disk0_sem s + 1\<rparr>"

definition disk0_read_blks_nolock :: "u32 \<Rightarrow> nat \<Rightarrow> 'a dst_scheme \<Rightarrow> 'a dst_scheme option" where
  "disk0_read_blks_nolock blkno nblks s = do {
     (ok, s1) \<leftarrow> ide_read_secs DISK0_DEV_NO (blkno * of_nat DISK0_BLK_N_SECT) (d_disk0_buffer s)
                   (nblks * DISK0_BLK_N_SECT) s;
     kassert ok;
     Some s1
   }"

definition disk0_write_blks_nolock :: "u32 \<Rightarrow> nat \<Rightarrow> 'a dst_scheme \<Rightarrow> 'a dst_scheme option" where
  "disk0_write_blks_nolock blkno nblks s = do {
     (ok, s1) \<leftarrow> ide_write_secs DISK0_DEV_NO (blkno * of_nat DISK0_BLK_N_SECT) (d_disk0_buffer s)
                   (nblks * DISK0_BLK_N_SECT) s;
     kassert ok;
     Some s1
   }"

text \<open>One round of the loop: the bytes copied, the blocks moved, the buffer and the state.\<close>

definition disk0_round ::
    "bool \<Rightarrow> u32 \<Rightarrow> nat \<Rightarrow> iobuf \<Rightarrow> 'a dst_scheme \<Rightarrow> (nat \<times> nat \<times> iobuf \<times> 'a dst_scheme) option" where
  "disk0_round wr blkno resid iob s =
     (if wr then do {
        (_, copied, iob1, m) \<leftarrow> iobuf_move (v_mem s) iob (d_disk0_buffer s) DISK0_BUF_SIZE False;
        kassert (copied \<noteq> 0 \<and> copied \<le> resid \<and> copied mod DISK0_BLK_SIZE = 0);
        let nblks = copied div DISK0_BLK_SIZE;
        s1 \<leftarrow> disk0_write_blks_nolock blkno nblks (s\<lparr>v_mem := m\<rparr>);
        Some (copied, nblks, iob1, s1)
      } else do {
        let alen = (if DISK0_BUF_SIZE > resid then resid else DISK0_BUF_SIZE);
        let nblks = alen div DISK0_BLK_SIZE;
        s1 \<leftarrow> disk0_read_blks_nolock blkno nblks s;
        (_, copied, iob1, m) \<leftarrow> iobuf_move (v_mem s1) iob (d_disk0_buffer s1) alen True;
        kassert (copied = alen \<and> copied mod DISK0_BLK_SIZE = 0);
        Some (copied, nblks, iob1, s1\<lparr>v_mem := m\<rparr>)
      })"

text \<open>The assertions of a round leave the bytes copied positive and at most the rest.\<close>

function disk0_loop ::
    "bool \<Rightarrow> u32 \<Rightarrow> nat \<Rightarrow> iobuf \<Rightarrow> 'a dst_scheme \<Rightarrow> (iobuf \<times> 'a dst_scheme) option" where
  "disk0_loop wr blkno resid iob s =
     (if resid = 0 then Some (iob, s)
      else case disk0_round wr blkno resid iob s of
        None \<Rightarrow> None
      | Some (cnt, nblks, iob1, s1) \<Rightarrow>
          if cnt = 0 then None else disk0_loop wr (blkno + of_nat nblks) (resid - cnt) iob1 s1)"
  by pat_completeness auto
termination by (relation "measure (\<lambda>(_, _, resid, _). resid)") auto

declare disk0_loop.simps [simp del]

definition disk0_io ::
    "device \<Rightarrow> bool \<Rightarrow> iobuf \<Rightarrow> 'a dst_scheme \<Rightarrow> (int res \<times> iobuf \<times> 'a dst_scheme) option" where
  "disk0_io dev wr iob s =
     (let offset = io_offset iob; resid = io_resid iob;
          blkno = word_of_int (offset div int DISK0_BLK_SIZE) :: u32; nblks = resid div DISK0_BLK_SIZE in
      if offset mod int DISK0_BLK_SIZE \<noteq> 0 \<or> resid mod DISK0_BLK_SIZE \<noteq> 0 then Some (Inl E_INVAL, iob, s)
      else if unat (blkno + of_nat nblks) > d_blocks dev then Some (Inl E_INVAL, iob, s)
      else if nblks = 0 then Some (Inr 0, iob, s)
      else do {
        s1 \<leftarrow> lock_disk0 s;
        (iob1, s2) \<leftarrow> disk0_loop wr blkno resid iob s1;
        Some (Inr 0, iob1, unlock_disk0 s2)
      })"

section \<open>Keyboard, screen and null device\<close>

definition dev_stdin_write :: "u8 \<Rightarrow> 'a dst_scheme \<Rightarrow> 'a dst_scheme" where
  "dev_stdin_write c s = (if c \<noteq> 0 then s\<lparr>d_stdin := queue_push (d_stdin s) (ucast c)\<rparr> else s)"

text \<open>The result is the number of characters read, the memory, the queue and the remaining wakeups.\<close>

function dev_stdin_loop ::
    "nat \<Rightarrow> nat \<Rightarrow> nat \<Rightarrow> mem \<Rightarrow> queue \<Rightarrow> u8 option list \<Rightarrow> (nat \<times> mem \<times> queue \<times> u8 option list) option" where
  "dev_stdin_loop ret len buf m que keys =
     (if ret < len then
        if \<not> queue_empty que then
          (case queue_pop que of
             None \<Rightarrow> None
           | Some (c, que1) \<Rightarrow> dev_stdin_loop (Suc ret) len (Suc buf) (m(buf := ucast c)) que1 keys)
        else
          (case keys of
             [] \<Rightarrow> None
           | Some c # ks \<Rightarrow> dev_stdin_loop ret len buf m (queue_push que (ucast c)) ks
           | None # ks \<Rightarrow> Some (ret, m, que, ks))
      else Some (ret, m, que, keys))"
  by pat_completeness auto
termination by (relation "measure (\<lambda>(ret, len, _, _, _, keys). (len - ret) + length keys)") auto

declare dev_stdin_loop.simps [simp del]

definition dev_stdin_read :: "nat \<Rightarrow> nat \<Rightarrow> 'a dst_scheme \<Rightarrow> (nat \<times> 'a dst_scheme) option" where
  "dev_stdin_read buf len s = do {
     (ret, m, que, keys) \<leftarrow> dev_stdin_loop 0 len buf (v_mem s) (d_stdin s) (d_keys s);
     Some (ret, s\<lparr>v_mem := m, d_stdin := que, d_keys := keys\<rparr>)
   }"

definition stdin_io :: "bool \<Rightarrow> iobuf \<Rightarrow> 'a dst_scheme \<Rightarrow> (int res \<times> iobuf \<times> 'a dst_scheme) option" where
  "stdin_io wr iob s =
     (if \<not> wr then do {
        (ret, s1) \<leftarrow> dev_stdin_read (io_base iob) (io_resid iob) s;
        Some (Inr (int ret), if ret > 0 then iob\<lparr>io_resid := io_resid iob - ret\<rparr> else iob, s1)
      } else Some (Inl E_INVAL, iob, s))"

definition stdout_io :: "bool \<Rightarrow> iobuf \<Rightarrow> 'a dst_scheme \<Rightarrow> (int res \<times> iobuf \<times> 'a dst_scheme) option" where
  "stdout_io wr iob s =
     (if wr then Some (Inr 0, iob\<lparr>io_resid := 0\<rparr>,
        s\<lparr>d_out := d_out s @ map (\<lambda>k. v_mem s (io_base iob + k)) [0..<io_resid iob]\<rparr>)
      else Some (Inl E_INVAL, iob, s))"

definition null_io :: "bool \<Rightarrow> iobuf \<Rightarrow> 'a dst_scheme \<Rightarrow> (int res \<times> iobuf \<times> 'a dst_scheme) option" where
  "null_io wr iob s = Some (Inr 0, if wr then iob\<lparr>io_resid := 0\<rparr> else iob, s)"

section \<open>Device inodes\<close>

definition dop_open :: "device \<Rightarrow> u32 \<Rightarrow> unit res" where
  "dop_open dev open_flags =
     (case d_kind dev of
        Null_dev \<Rightarrow> Inr ()
      | Stdin_dev \<Rightarrow> if open_flags \<noteq> O_RDONLY then Inl E_INVAL else Inr ()
      | Stdout_dev \<Rightarrow> if open_flags \<noteq> O_WRONLY then Inl E_INVAL else Inr ()
      | Disk0_dev \<Rightarrow> Inr ())"

definition dop_close :: "device \<Rightarrow> unit res" where "dop_close dev = Inr ()"

definition dop_io :: "device \<Rightarrow> iobuf \<Rightarrow> bool \<Rightarrow> 'a dst_scheme \<Rightarrow> (int res \<times> iobuf \<times> 'a dst_scheme) option" where
  "dop_io dev iob wr s =
     (case d_kind dev of
        Null_dev \<Rightarrow> null_io wr iob s
      | Stdin_dev \<Rightarrow> stdin_io wr iob s
      | Stdout_dev \<Rightarrow> stdout_io wr iob s
      | Disk0_dev \<Rightarrow> disk0_io dev wr iob s)"

definition dop_ioctl :: "device \<Rightarrow> unit res" where
  "dop_ioctl dev = (if d_kind dev = Disk0_dev then Inl E_UNIMP else Inl E_INVAL)"

definition dev_info :: "nat \<Rightarrow> 'a dst_scheme \<Rightarrow> device option" where
  "dev_info n s = do { i \<leftarrow> v_inode s n; kassert (in_isdev i); d_dev s n }"

definition dev_open :: "nat \<Rightarrow> u32 \<Rightarrow> 'a dst_scheme \<Rightarrow> (unit res \<times> 'a dst_scheme) option" where
  "dev_open n open_flags s =
     (if open_flags AND (O_CREAT OR O_TRUNC OR O_EXCL OR O_APPEND) \<noteq> 0 then Some (Inl E_INVAL, s)
      else do { dev \<leftarrow> dev_info n s; Some (dop_open dev open_flags, s) })"

definition dev_close :: "nat \<Rightarrow> 'a dst_scheme \<Rightarrow> (unit res \<times> 'a dst_scheme) option" where
  "dev_close n s = do { dev \<leftarrow> dev_info n s; Some (dop_close dev, s) }"

definition dev_read :: "nat \<Rightarrow> iobuf \<Rightarrow> 'a dst_scheme \<Rightarrow> (int res \<times> iobuf \<times> 'a dst_scheme) option" where
  "dev_read n iob s = do { dev \<leftarrow> dev_info n s; dop_io dev iob False s }"

definition dev_write :: "nat \<Rightarrow> iobuf \<Rightarrow> 'a dst_scheme \<Rightarrow> (int res \<times> iobuf \<times> 'a dst_scheme) option" where
  "dev_write n iob s = do { dev \<leftarrow> dev_info n s; dop_io dev iob True s }"

definition dev_ioctl :: "nat \<Rightarrow> int \<Rightarrow> nat \<Rightarrow> 'a dst_scheme \<Rightarrow> (unit res \<times> 'a dst_scheme) option" where
  "dev_ioctl n op data s = do { dev \<leftarrow> dev_info n s; Some (dop_ioctl dev, s) }"

definition dev_gettype :: "nat \<Rightarrow> 'a dst_scheme \<Rightarrow> (u32 res \<times> 'a dst_scheme) option" where
  "dev_gettype n s = do { dev \<leftarrow> dev_info n s; Some (Inr (if d_blocks dev > 0 then S_IFBLK else S_IFCHR), s) }"

definition dev_fstat :: "nat \<Rightarrow> 'a dst_scheme \<Rightarrow> (stat res \<times> 'a dst_scheme) option" where
  "dev_fstat n s = do {
     f \<leftarrow> vop n (Some dev_gettype) s;
     (r, s1) \<leftarrow> f n s;
     case r of
       Inl e \<Rightarrow> Some (Inl e, s1)
     | Inr mode \<Rightarrow> do {
         dev \<leftarrow> dev_info n s1;
         Some (Inr \<lparr>st_mode = mode, st_nlinks = 1, st_blocks = d_blocks dev,
                    st_size = (d_blocks dev * d_blocksize dev) mod 2 ^ 32\<rparr>, s1)
       }
   }"

definition dev_tryseek :: "nat \<Rightarrow> int \<Rightarrow> 'a dst_scheme \<Rightarrow> (unit res \<times> 'a dst_scheme) option" where
  "dev_tryseek n pos s = do {
     dev \<leftarrow> dev_info n s;
     Some (if d_blocks dev > 0 \<and> unat (word_of_int pos :: u32) mod d_blocksize dev = 0 \<and> pos \<ge> 0 \<and>
              unat (word_of_int pos :: u32) < (d_blocks dev * d_blocksize dev) mod 2 ^ 32
           then Inr () else Inl E_INVAL, s)
   }"

definition dev_lookup :: "nat \<Rightarrow> string \<Rightarrow> 'a dst_scheme \<Rightarrow> (nat res \<times> 'a dst_scheme) option" where
  "dev_lookup n path s =
     (if path \<noteq> [] then Some (Inl E_NOENT, s)
      else do { (_, s1) \<leftarrow> inode_ref_inc n s; Some (Inr n, s1) })"

definition dev_node_ops :: "'a dst_scheme inode_ops" where
  "dev_node_ops = \<lparr>
     op_open = Some dev_open, op_close = Some dev_close, op_read = Some dev_read, op_write = Some dev_write,
     op_fstat = Some dev_fstat,
     op_fsync = Some (\<lambda>n s. Some (null_vop_pass, s)),
     op_mkdir = Some (\<lambda>n name s. Some (null_vop_notdir, s)),
     op_link = Some (\<lambda>n name l s. Some (null_vop_notdir, s)),
     op_rename = Some (\<lambda>n name m name' s. Some (null_vop_notdir, s)),
     op_readlink = Some (\<lambda>n iob s. Some (null_vop_invalid, iob, s)),
     op_symlink = Some (\<lambda>n name path s. Some (null_vop_notdir, s)),
     op_namefile = Some (\<lambda>n iob s. Some (null_vop_pass, iob, s)),
     op_getdirentry = Some (\<lambda>n iob s. Some (null_vop_invalid, iob, s)),
     op_reclaim = Some (\<lambda>n s. Some (null_vop_pass, s)),
     op_ioctl = Some dev_ioctl, op_gettype = Some dev_gettype, op_tryseek = Some dev_tryseek,
     op_truncate = Some (\<lambda>n len s. Some (null_vop_invalid, s)),
     op_create = Some (\<lambda>n name excl s. Some (null_vop_notdir, s)),
     op_unlink = Some (\<lambda>n name s. Some (null_vop_notdir, s)),
     op_lookup = Some dev_lookup,
     op_lookup_parent = Some (\<lambda>n path s. Some (null_vop_notdir, s))\<rparr>"

definition dev_create_inode :: "(nat \<times> inode) option \<Rightarrow> 'a dst_scheme \<Rightarrow> (nat option \<times> 'a dst_scheme) option" where
  "dev_create_inode got s =
     (case alloc_inode got True s of
        (None, s1) \<Rightarrow> Some (None, s1)
      | (Some n, s1) \<Rightarrow> do { s2 \<leftarrow> inode_init n None s1; Some (Some n, s2) })"

section \<open>Initialisation\<close>

text \<open>The allocations of an initialisation: the inode, the copy of the name, and the device entry.\<close>

record dev_mem =
  m_node :: "(nat \<times> inode) option"
  m_name :: "nat option"
  m_vdev :: bool

definition dev_install ::
    "string \<Rightarrow> bool \<Rightarrow> (nat \<Rightarrow> 'a dst_scheme \<Rightarrow> 'a dst_scheme option) \<Rightarrow> dev_mem \<Rightarrow> 'a dst_scheme \<Rightarrow> 'a dst_scheme option" where
  "dev_install name mountable init got s = do {
     (node, s1) \<leftarrow> dev_create_inode (m_node got) s;
     n \<leftarrow> node;
     s2 \<leftarrow> init n s1;
     (r, s3) \<leftarrow> vfs_add_dev (m_name got) (m_vdev got) name n mountable s2;
     kassert (r = Inr ());
     Some s3
   }"

definition set_dev :: "nat \<Rightarrow> device \<Rightarrow> 'a dst_scheme \<Rightarrow> 'a dst_scheme" where
  "set_dev n dev s = s\<lparr>d_dev := (d_dev s)(n \<mapsto> dev)\<rparr>"

definition null_device_init :: "nat \<Rightarrow> 'a dst_scheme \<Rightarrow> 'a dst_scheme option" where
  "null_device_init n s = Some (set_dev n \<lparr>d_blocks = 0, d_blocksize = 1, d_kind = Null_dev\<rparr> s)"

definition STDIN_BUF_SIZE :: nat where "STDIN_BUF_SIZE = 4096"

definition stdin_device_init :: "nat \<Rightarrow> 'a dst_scheme \<Rightarrow> 'a dst_scheme option" where
  "stdin_device_init n s = Some ((set_dev n \<lparr>d_blocks = 0, d_blocksize = 1, d_kind = Stdin_dev\<rparr> s)
     \<lparr>d_stdin := queue_init (replicate STDIN_BUF_SIZE 0) STDIN_BUF_SIZE\<rparr>)"

definition stdout_device_init :: "nat \<Rightarrow> 'a dst_scheme \<Rightarrow> 'a dst_scheme option" where
  "stdout_device_init n s = Some (set_dev n \<lparr>d_blocks = 0, d_blocksize = 1, d_kind = Stdout_dev\<rparr> s)"

definition disk0_device_init :: "nat option \<Rightarrow> nat \<Rightarrow> 'a dst_scheme \<Rightarrow> 'a dst_scheme option" where
  "disk0_device_init got n s = do {
     kassert (ide_device_valid DISK0_DEV_NO s);
     buf \<leftarrow> got;
     Some ((set_dev n \<lparr>d_blocks = ide_device_size DISK0_DEV_NO s div DISK0_BLK_N_SECT,
                       d_blocksize = DISK0_BLK_SIZE, d_kind = Disk0_dev\<rparr> s)
       \<lparr>d_disk0_sem := 1, d_disk0_buffer := buf\<rparr>)
   }"

definition dev_init_null :: "dev_mem \<Rightarrow> 'a dst_scheme \<Rightarrow> 'a dst_scheme option" where
  "dev_init_null = dev_install ''null'' False null_device_init"

definition dev_init_stdin :: "dev_mem \<Rightarrow> 'a dst_scheme \<Rightarrow> 'a dst_scheme option" where
  "dev_init_stdin = dev_install ''stdin'' False stdin_device_init"

definition dev_init_stdout :: "dev_mem \<Rightarrow> 'a dst_scheme \<Rightarrow> 'a dst_scheme option" where
  "dev_init_stdout = dev_install ''stdout'' False stdout_device_init"

definition dev_init_disk0 :: "nat option \<Rightarrow> dev_mem \<Rightarrow> 'a dst_scheme \<Rightarrow> 'a dst_scheme option" where
  "dev_init_disk0 buf = dev_install ''disk0'' True (disk0_device_init buf)"

definition dev_init :: "nat option \<Rightarrow> (nat \<Rightarrow> dev_mem) \<Rightarrow> 'a dst_scheme \<Rightarrow> 'a dst_scheme option" where
  "dev_init buf got s = do {
     s1 \<leftarrow> dev_init_null (got 0) s;
     s2 \<leftarrow> dev_init_stdin (got 1) s1;
     s3 \<leftarrow> dev_init_stdout (got 2) s2;
     dev_init_disk0 buf (got 3) s3
   }"

section \<open>Sector transfers\<close>

lemma ide_lba_id: "unat secno < 2 ^ 28 \<Longrightarrow> ide_lba secno = secno"
proof (rule bit_word_eqI)
  fix n assume lt: "unat secno < 2 ^ 28" and n: "n < LENGTH(32)"
  have t28: "take_bit 28 secno = secno"
    using lt by (intro word_unat_eq_iff [THEN iffD2]) (simp add: unsigned_take_bit_eq take_bit_nat_eq_self)
  have hi: "bit secno n \<Longrightarrow> n < 28" for n
    using bit_take_bit_iff [of 28 secno n] by (simp add: t28)
  have masks: "(0xFF :: u32) = mask 8" "(0xF :: u32) = mask 4"
    by (simp_all add: mask_eq_exp_minus_1)
  show "bit (ide_lba secno) n = bit secno n"
    unfolding ide_lba_def masks using n hi [of n]
    by (cases "n < 8"; cases "n < 16"; cases "n < 24") (auto simp: bit_simps)
qed

lemma ide_read_loop_all:
  "(\<forall>k<n. \<not> bad (sec + k)) \<Longrightarrow> ide_read_loop disk bad sec n dst m =
     (True, \<lambda>a. if dst \<le> a \<and> a < dst + n * SECT_SIZE then disk (sec * SECT_SIZE + (a - dst)) else m a)"
proof (induction n arbitrary: sec dst m)
  case (Suc n)
  have "\<forall>k<n. \<not> bad (Suc sec + k)" "\<not> bad sec"
    using Suc.prems [rule_format, of "Suc _"] Suc.prems [rule_format, of 0] by auto
  then show ?case
    by (auto simp: Suc.IH fun_eq_iff algebra_simps intro!: arg_cong [of _ _ disk])
qed (auto simp: fun_eq_iff)

lemma ide_write_loop_all:
  "(\<forall>k<n. \<not> bad (sec + k)) \<Longrightarrow> ide_write_loop m bad sec n src disk =
     (True, \<lambda>a. if sec * SECT_SIZE \<le> a \<and> a < (sec + n) * SECT_SIZE then m (src + (a - sec * SECT_SIZE)) else disk a)"
proof (induction n arbitrary: sec src disk)
  case (Suc n)
  have "\<forall>k<n. \<not> bad (Suc sec + k)" "\<not> bad sec"
    using Suc.prems [rule_format, of "Suc _"] Suc.prems [rule_format, of 0] by auto
  then show ?case
    by (auto simp: Suc.IH fun_eq_iff algebra_simps intro!: arg_cong [of _ _ m])
qed (auto simp: fun_eq_iff)

text \<open>The drive is there, its channel is free and it has no bad sectors.\<close>

definition disk_ready :: "'a dst_scheme \<Rightarrow> bool" where
  "disk_ready s = (ide_device_valid DISK0_DEV_NO s \<and> d_chan s 1 > 0 \<and> (\<forall>k. \<not> d_bad s DISK0_DEV_NO k))"

definition disk_put :: "mem \<Rightarrow> nat \<Rightarrow> nat \<Rightarrow> nat \<Rightarrow> mem \<Rightarrow> mem" where
  "disk_put m src at n disk = (\<lambda>a. if at \<le> a \<and> a < at + n then m (src + (a - at)) else disk a)"

definition disk_get :: "mem \<Rightarrow> nat \<Rightarrow> nat \<Rightarrow> nat \<Rightarrow> mem \<Rightarrow> mem" where
  "disk_get disk at dst n m = (\<lambda>a. if dst \<le> a \<and> a < dst + n then disk (at + (a - dst)) else m a)"

lemma blk_consts: "DISK0_BLK_N_SECT = 8" "DISK0_BUF_SIZE = 16384" "DISK0_BLK_SIZE = 4096"
  by (simp_all add: DISK0_BLK_N_SECT_def DISK0_BUF_SIZE_def DISK0_BLK_SIZE_def SECT_SIZE_def)

lemma blk_sect:
  fixes blkno :: u32
  assumes "unat blkno + n \<le> 2 ^ 25" "0 < n" "n \<le> 4"
  shows "unat (blkno * 8) = unat blkno * 8" "unat (blkno * 8) < MAX_DISK_NSECS"
    "unat (blkno * 8 + of_nat (n * 8)) \<le> MAX_DISK_NSECS" "n * 8 \<le> MAX_NSECS"
proof -
  have m: "unat (blkno * 8) = unat blkno * 8"
    using assms by (simp add: unat_word_ariths)
  have o: "unat (of_nat (n * 8) :: u32) = n * 8" using assms by (simp add: unat_of_nat del: of_nat_mult)
  have "unat (blkno * 8) + unat (of_nat (n * 8) :: u32) < 2 ^ 32" using assms unfolding m o by simp
  from unat_add_no_wrap [OF this]
  have "unat (blkno * 8 + of_nat (n * 8)) = unat blkno * 8 + n * 8" unfolding m o .
  then show "unat (blkno * 8 + of_nat (n * 8)) \<le> MAX_DISK_NSECS" using assms by (simp add: MAX_DISK_NSECS_def)
  show "unat (blkno * 8) = unat blkno * 8" by (rule m)
  show "unat (blkno * 8) < MAX_DISK_NSECS" using assms unfolding m by (simp add: MAX_DISK_NSECS_def)
  show "n * 8 \<le> MAX_NSECS" using assms by (simp add: MAX_NSECS_def)
qed

lemma disk0_write_blks:
  assumes r: "disk_ready s" and n: "unat blkno + n \<le> 2 ^ 25" "0 < n" "n \<le> 4"
  shows "disk0_write_blks_nolock blkno n s = Some (s\<lparr>d_disk := (d_disk s)(DISK0_DEV_NO :=
    disk_put (v_mem s) (d_disk0_buffer s) (unat blkno * 4096) (n * 4096) (d_disk s DISK0_DEV_NO))\<rparr>)"
proof -
  note b = blk_sect [OF n]
  have lba: "ide_lba (blkno * 8) = blkno * 8"
    using b(1,2) by (intro ide_lba_id) (simp add: MAX_DISK_NSECS_def)
  show ?thesis
    using r b
    by (simp add: disk0_write_blks_nolock_def ide_write_secs_def blk_consts disk_ready_def lock_channel_def
        unlock_channel_def DISK0_DEV_NO_def Let_def lba ide_write_loop_all disk_put_def SECT_SIZE_def algebra_simps cong: if_cong)
qed

lemma disk0_read_blks:
  assumes r: "disk_ready s" and n: "unat blkno + n \<le> 2 ^ 25" "0 < n" "n \<le> 4"
  shows "disk0_read_blks_nolock blkno n s = Some (s\<lparr>v_mem :=
    disk_get (d_disk s DISK0_DEV_NO) (unat blkno * 4096) (d_disk0_buffer s) (n * 4096) (v_mem s)\<rparr>)"
proof -
  note b = blk_sect [OF n]
  have lba: "ide_lba (blkno * 8) = blkno * 8"
    using b(1,2) by (intro ide_lba_id) (simp add: MAX_DISK_NSECS_def)
  show ?thesis
    using r b
    by (simp add: disk0_read_blks_nolock_def ide_read_secs_def blk_consts disk_ready_def lock_channel_def
        unlock_channel_def DISK0_DEV_NO_def Let_def lba ide_read_loop_all disk_get_def SECT_SIZE_def algebra_simps cong: if_cong)
qed

lemma unat_blk_add:
  fixes blkno :: u32
  assumes "unat blkno + n \<le> 2 ^ 25"
  shows "unat (blkno + of_nat n) = unat blkno + n"
proof -
  have n: "unat (of_nat n :: u32) = n" using assms by (simp add: unat_of_nat)
  then show ?thesis using assms by (subst unat_add_no_wrap) simp_all
qed

definition advance :: "nat \<Rightarrow> iobuf \<Rightarrow> iobuf" where
  "advance n iob =
     (if n = 0 then iob
      else iob\<lparr>io_base := io_base iob + n, io_offset := i32 (io_offset iob + int n), io_resid := io_resid iob - n\<rparr>)"

lemma advance_advance: "advance b (advance a iob) = advance (a + b) iob"
  by (simp add: advance_def add.assoc)

lemma advance_0 [simp]: "advance 0 iob = iob"
  by (simp add: advance_def)

lemma disk_put_0 [simp]: "disk_put m src at 0 disk = disk"
  by (auto simp: disk_put_def fun_eq_iff)

lemma disk_put_compose:
  assumes "\<And>j. j < c \<Longrightarrow> m1 (buf + j) = m (src + j)" "\<And>j. j < d \<Longrightarrow> m1 (src + c + j) = m (src + c + j)"
  shows "disk_put m1 (src + c) (at + c) d (disk_put m1 buf at c disk) = disk_put m src at (c + d) disk"
proof
  fix a
  have "m1 (buf + (a - at)) = m (src + (a - at))" if "a < at + c" "at \<le> a" using assms(1) [of "a - at"] that by simp
  moreover have "m1 (src + c + (a - (at + c))) = m (src + (a - at))" if "at + c \<le> a" "a < at + c + d"
    using assms(2) [of "a - (at + c)"] that by simp
  ultimately show "disk_put m1 (src + c) (at + c) d (disk_put m1 buf at c disk) a = disk_put m src at (c + d) disk a"
    by (auto simp: disk_put_def)
qed

text \<open>The writer's whole loop: the disk gets the bytes of the buffer, memory changes in the driver's buffer only.\<close>

lemma disk0_loop_write:
  assumes "disk_ready s" "io_resid iob = k * 4096" "unat blkno + k \<le> 2 ^ 25"
    and "io_base iob + k * 4096 \<le> d_disk0_buffer s \<or> d_disk0_buffer s + 16384 \<le> io_base iob"
  shows "\<exists>m. disk0_loop True blkno (k * 4096) iob s = Some (advance (k * 4096) iob,
      s\<lparr>v_mem := m, d_disk := (d_disk s)(DISK0_DEV_NO :=
        disk_put (v_mem s) (io_base iob) (unat blkno * 4096) (k * 4096) (d_disk s DISK0_DEV_NO))\<rparr>) \<and>
    (\<forall>a. a < d_disk0_buffer s \<or> d_disk0_buffer s + 16384 \<le> a \<longrightarrow> m a = v_mem s a)"
  using assms
proof (induction k arbitrary: blkno iob s rule: less_induct)
  case (less k)
  show ?case
  proof (cases "k = 0")
    case True
    then show ?thesis
      by (auto simp: disk0_loop.simps [of _ _ 0] intro!: exI [of _ "v_mem s"])
  next
    case False
    define c where "c = min k 4"
    have c: "0 < c" "c \<le> 4" "c \<le> k" "k - c < k" using False by (auto simp: c_def)
    have mn: "min 16384 (k * 4096) = c * 4096" by (simp add: c_def min_def)
    define m1 where "m1 = copied (v_mem s) (d_disk0_buffer s) (io_base iob) (c * 4096)"
    define s1 where "s1 = s\<lparr>v_mem := m1, d_disk := (d_disk s)(DISK0_DEV_NO :=
      disk_put m1 (d_disk0_buffer s) (unat blkno * 4096) (c * 4096) (d_disk s DISK0_DEV_NO))\<rparr>"
    have rdy: "disk_ready (s\<lparr>v_mem := m1\<rparr>)" using less.prems(1) by (simp add: disk_ready_def ide_device_valid_def)
    have b: "unat blkno + c \<le> 2 ^ 25" using less.prems(3) c by simp
    have rnd: "disk0_round True blkno (k * 4096) iob s = Some (c * 4096, c, advance (c * 4096) iob, s1)"
      using c less.prems(2) disk0_write_blks [OF rdy b c(1,2)]
      by (simp add: disk0_round_def iobuf_move_eq blk_consts mn m1_def s1_def advance_def)
    have rdy1: "disk_ready s1" using less.prems(1) by (simp add: s1_def disk_ready_def ide_device_valid_def)
    have un: "unat (blkno + of_nat c) = unat blkno + c" by (rule unat_blk_add [OF b])
    have step: "disk0_loop True blkno (k * 4096) iob s =
        disk0_loop True (blkno + of_nat c) ((k - c) * 4096) (advance (c * 4096) iob) s1"
      using False c by (subst disk0_loop.simps) (simp add: rnd diff_mult_distrib)
    have disj: "io_base (advance (c * 4096) iob) + (k - c) * 4096 \<le> d_disk0_buffer s1 \<or>
        d_disk0_buffer s1 + 16384 \<le> io_base (advance (c * 4096) iob)"
      using less.prems(4) c by (auto simp: advance_def s1_def diff_mult_distrib)
    have resid: "io_resid (advance (c * 4096) iob) = (k - c) * 4096"
      using less.prems(2) by (simp add: advance_def diff_mult_distrib)
    have bnd: "unat (blkno + of_nat c) + (k - c) \<le> 2 ^ 25" using less.prems(3) c un by simp
    obtain m where loop: "disk0_loop True blkno (k * 4096) iob s =
        Some (advance ((k - c) * 4096) (advance (c * 4096) iob),
          s1\<lparr>v_mem := m, d_disk := (d_disk s1)(DISK0_DEV_NO :=
            disk_put (v_mem s1) (io_base (advance (c * 4096) iob)) ((unat blkno + c) * 4096) ((k - c) * 4096)
              (d_disk s1 DISK0_DEV_NO))\<rparr>)"
      and m: "\<forall>a. a < d_disk0_buffer s1 \<or> d_disk0_buffer s1 + 16384 \<le> a \<longrightarrow> m a = v_mem s1 a"
      using less.IH [OF c(4) rdy1 resid bnd disj] unfolding step un by blast
    have same: "m1 a = v_mem s a" if "a < d_disk0_buffer s \<or> d_disk0_buffer s + 16384 \<le> a" for a
      using that c by (auto simp: m1_def copied_def)
    have disk: "disk_put m1 (io_base iob + c * 4096) (unat blkno * 4096 + c * 4096) ((k - c) * 4096)
        (disk_put m1 (d_disk0_buffer s) (unat blkno * 4096) (c * 4096) (d_disk s DISK0_DEV_NO)) =
        disk_put (v_mem s) (io_base iob) (unat blkno * 4096) (c * 4096 + (k - c) * 4096) (d_disk s DISK0_DEV_NO)"
    proof (rule disk_put_compose)
      show "m1 (d_disk0_buffer s + j) = v_mem s (io_base iob + j)" if "j < c * 4096" for j
        using that by (simp add: m1_def copied_def)
      show "m1 (io_base iob + c * 4096 + j) = v_mem s (io_base iob + c * 4096 + j)" if "j < (k - c) * 4096" for j
        using that less.prems(4) by (intro same) (auto simp: diff_mult_distrib)
    qed
    have sum: "c * 4096 + (k - c) * 4096 = k * 4096" using c by (simp add: diff_mult_distrib)
    have base: "io_base (advance (c * 4096) iob) = io_base iob + c * 4096" by (simp add: advance_def)
    show ?thesis
      using loop m same disk unfolding advance_advance sum base
      by (intro exI [of _ m]) (auto simp: s1_def add_mult_distrib fun_upd_same simp del: fun_upd_apply)
  qed
qed

text \<open>The reader's whole loop: the bytes of the disk arrive in the buffer.\<close>

lemma disk0_loop_read:
  assumes "disk_ready s" "io_resid iob = k * 4096" "unat blkno + k \<le> 2 ^ 25"
    and "io_base iob + k * 4096 \<le> d_disk0_buffer s \<or> d_disk0_buffer s + 16384 \<le> io_base iob"
  shows "\<exists>m. disk0_loop False blkno (k * 4096) iob s = Some (advance (k * 4096) iob, s\<lparr>v_mem := m\<rparr>) \<and>
    (\<forall>a. a < d_disk0_buffer s \<or> d_disk0_buffer s + 16384 \<le> a \<longrightarrow>
       m a = disk_get (d_disk s DISK0_DEV_NO) (unat blkno * 4096) (io_base iob) (k * 4096) (v_mem s) a)"
  using assms
proof (induction k arbitrary: blkno iob s rule: less_induct)
  case (less k)
  show ?case
  proof (cases "k = 0")
    case True
    then show ?thesis
      by (auto simp: disk0_loop.simps [of _ _ 0] disk_get_def intro!: exI [of _ "v_mem s"])
  next
    case False
    define c where "c = min k 4"
    have c: "0 < c" "c \<le> 4" "c \<le> k" "k - c < k" using False by (auto simp: c_def)
    have mn: "(if 16384 > k * 4096 then k * 4096 else 16384) = c * 4096" by (simp add: c_def min_def)
    have le: "c * 4096 \<le> io_resid iob" using c less.prems(2) by simp
    define m0 where "m0 = disk_get (d_disk s DISK0_DEV_NO) (unat blkno * 4096) (d_disk0_buffer s) (c * 4096) (v_mem s)"
    define m1 where "m1 = copied m0 (io_base iob) (d_disk0_buffer s) (c * 4096)"
    define s1 where "s1 = s\<lparr>v_mem := m1\<rparr>"
    have b: "unat blkno + c \<le> 2 ^ 25" using less.prems(3) c by simp
    have rnd: "disk0_round False blkno (k * 4096) iob s = Some (c * 4096, c, advance (c * 4096) iob, s1)"
      using c le disk0_read_blks [OF less.prems(1) b c(1,2)]
      unfolding disk0_round_def blk_consts Let_def mn
      by (simp add: iobuf_move_eq blk_consts m0_def m1_def s1_def advance_def)
    have rdy1: "disk_ready s1" using less.prems(1) by (simp add: s1_def disk_ready_def ide_device_valid_def)
    have un: "unat (blkno + of_nat c) = unat blkno + c" by (rule unat_blk_add [OF b])
    have step: "disk0_loop False blkno (k * 4096) iob s =
        disk0_loop False (blkno + of_nat c) ((k - c) * 4096) (advance (c * 4096) iob) s1"
      using False c by (subst disk0_loop.simps) (simp add: rnd diff_mult_distrib)
    have disj: "io_base (advance (c * 4096) iob) + (k - c) * 4096 \<le> d_disk0_buffer s1 \<or>
        d_disk0_buffer s1 + 16384 \<le> io_base (advance (c * 4096) iob)"
      using less.prems(4) c by (auto simp: advance_def s1_def diff_mult_distrib)
    have resid: "io_resid (advance (c * 4096) iob) = (k - c) * 4096"
      using less.prems(2) by (simp add: advance_def diff_mult_distrib)
    have bnd: "unat (blkno + of_nat c) + (k - c) \<le> 2 ^ 25" using less.prems(3) c un by simp
    obtain m where loop: "disk0_loop False blkno (k * 4096) iob s =
        Some (advance ((k - c) * 4096) (advance (c * 4096) iob), s1\<lparr>v_mem := m\<rparr>)"
      and m: "\<forall>a. a < d_disk0_buffer s1 \<or> d_disk0_buffer s1 + 16384 \<le> a \<longrightarrow>
        m a = disk_get (d_disk s1 DISK0_DEV_NO) ((unat blkno + c) * 4096) (io_base iob + c * 4096) ((k - c) * 4096) (v_mem s1) a"
      using less.IH [OF c(4) rdy1 resid bnd disj] unfolding step un by (auto simp: advance_def)
    have m1: "m1 a = disk_get (d_disk s DISK0_DEV_NO) (unat blkno * 4096) (io_base iob) (c * 4096) (v_mem s) a"
      if "a < d_disk0_buffer s \<or> d_disk0_buffer s + 16384 \<le> a" for a
      using that c by (auto simp: m1_def m0_def copied_def disk_get_def)
    have sum: "c * 4096 + (k - c) * 4096 = k * 4096" using c by (simp add: diff_mult_distrib)
    have "m a = disk_get (d_disk s DISK0_DEV_NO) (unat blkno * 4096) (io_base iob) (k * 4096) (v_mem s) a"
      if a: "a < d_disk0_buffer s \<or> d_disk0_buffer s + 16384 \<le> a" for a
    proof -
      have "m a = disk_get (d_disk s DISK0_DEV_NO) (unat blkno * 4096 + c * 4096) (io_base iob + c * 4096) ((k - c) * 4096) m1 a"
        using m a by (auto simp: s1_def add_mult_distrib)
      then show ?thesis using m1 [OF a] sum by (auto simp: disk_get_def intro!: arg_cong [of _ _ "d_disk s DISK0_DEV_NO"])
    qed
    then show ?thesis using loop by (intro exI [of _ m]) (auto simp: advance_advance sum s1_def)
  qed
qed

lemma disk0_io_run:
  assumes dev: "b + k \<le> d_blocks dev" "d_blocks dev \<le> 2 ^ 25" "0 < k" and lock: "d_disk0_sem s > 0"
    and iob: "io_offset iob = int b * 4096" "io_resid iob = k * 4096"
    and loop: "disk0_loop wr (of_nat b) (k * 4096) iob (s\<lparr>d_disk0_sem := d_disk0_sem s - 1\<rparr>) = Some (iob', s')"
  shows "disk0_io dev wr iob s = Some (Inr 0, iob', unlock_disk0 s')"
proof -
  have b: "unat (of_nat b :: u32) = b" using dev by (simp add: unat_of_nat)
  have "unat (of_nat b + of_nat k :: u32) = b + k" using dev unat_blk_add [of "of_nat b" k] b by simp
  moreover have "int b * 4096 div 4096 = int b" by simp
  ultimately show ?thesis
    using dev lock iob loop by (simp add: disk0_io_def Let_def lock_disk0_def blk_consts)
qed

text \<open>C10: What is written to the file system disk is read back.  Writing whole blocks at a block offset and reading
  them into another buffer gives the same bytes, consumes both buffers completely, changes no byte of the disk
  outside the blocks written and no memory outside the two buffers and the driver's own.
\<close>

theorem disk0_write_read:
  assumes rdy: "disk_ready s" "d_disk0_sem s > 0"
    and dev: "b + k \<le> d_blocks dev" "d_blocks dev \<le> 2 ^ 25" "0 < k"
    and w: "io_offset w = int b * 4096" "io_resid w = k * 4096"
      "io_base w + k * 4096 \<le> d_disk0_buffer s \<or> d_disk0_buffer s + 16384 \<le> io_base w"
    and r: "io_offset r = int b * 4096" "io_resid r = k * 4096"
      "io_base r + k * 4096 \<le> d_disk0_buffer s \<or> d_disk0_buffer s + 16384 \<le> io_base r"
  shows "\<exists>w' s1 r' s2. disk0_io dev True w s = Some (Inr 0, w', s1) \<and> disk0_io dev False r s1 = Some (Inr 0, r', s2) \<and>
    io_resid w' = 0 \<and> io_resid r' = 0 \<and>
    (\<forall>j<k * 4096. v_mem s2 (io_base r + j) = v_mem s (io_base w + j)) \<and>
    (\<forall>a. a < b * 4096 \<or> (b + k) * 4096 \<le> a \<longrightarrow> d_disk s2 DISK0_DEV_NO a = d_disk s DISK0_DEV_NO a) \<and>
    (\<forall>a. (a < io_base r \<or> io_base r + k * 4096 \<le> a) \<and> (a < d_disk0_buffer s \<or> d_disk0_buffer s + 16384 \<le> a) \<longrightarrow>
       v_mem s2 a = v_mem s a)"
proof -
  let ?l = "s\<lparr>d_disk0_sem := d_disk0_sem s - 1\<rparr>" and ?d = "d_disk s DISK0_DEV_NO"
  have b: "unat (of_nat b :: u32) = b" using dev by (simp add: unat_of_nat)
  have bk: "unat (of_nat b :: u32) + k \<le> 2 ^ 25" using dev b by simp
  define d1 where "d1 = disk_put (v_mem s) (io_base w) (b * 4096) (k * 4096) ?d"
  have "disk_ready ?l" using rdy by (simp add: disk_ready_def ide_device_valid_def)
  from disk0_loop_write [OF this w(2) bk] w(3)
  obtain m1 where l1: "disk0_loop True (of_nat b) (k * 4096) w ?l = Some (advance (k * 4096) w,
      ?l\<lparr>v_mem := m1, d_disk := (d_disk s)(DISK0_DEV_NO := d1)\<rparr>)"
    and m1: "\<And>a. a < d_disk0_buffer s \<or> d_disk0_buffer s + 16384 \<le> a \<Longrightarrow> m1 a = v_mem s a"
    unfolding b d1_def by auto
  define s1 where "s1 = s\<lparr>v_mem := m1, d_disk := (d_disk s)(DISK0_DEV_NO := d1)\<rparr>"
  have io1: "disk0_io dev True w s = Some (Inr 0, advance (k * 4096) w, s1)"
    using disk0_io_run [OF dev rdy(2) w(1,2) l1] by (simp add: unlock_disk0_def s1_def)
  let ?l1 = "s1\<lparr>d_disk0_sem := d_disk0_sem s1 - 1\<rparr>"
  have "disk_ready ?l1" using rdy by (simp add: s1_def disk_ready_def ide_device_valid_def)
  from disk0_loop_read [OF this r(2) bk] r(3)
  obtain m2 where l2: "disk0_loop False (of_nat b) (k * 4096) r ?l1 = Some (advance (k * 4096) r, ?l1\<lparr>v_mem := m2\<rparr>)"
    and m2: "\<And>a. a < d_disk0_buffer s \<or> d_disk0_buffer s + 16384 \<le> a \<Longrightarrow>
      m2 a = disk_get d1 (b * 4096) (io_base r) (k * 4096) m1 a"
    unfolding b by (auto simp: s1_def)
  define s2 where "s2 = s1\<lparr>v_mem := m2\<rparr>"
  have "d_disk0_sem s1 > 0" using rdy(2) by (simp add: s1_def)
  then have io2: "disk0_io dev False r s1 = Some (Inr 0, advance (k * 4096) r, s2)"
    using disk0_io_run [OF dev _ r(1,2) l2] by (simp add: unlock_disk0_def s2_def)
  have "\<forall>j<k * 4096. v_mem s2 (io_base r + j) = v_mem s (io_base w + j)"
    using r(3) m2 by (auto simp: s2_def disk_get_def d1_def disk_put_def)
  moreover have "\<forall>a. a < b * 4096 \<or> (b + k) * 4096 \<le> a \<longrightarrow> d_disk s2 DISK0_DEV_NO a = ?d a"
    by (auto simp: s2_def s1_def d1_def disk_put_def add_mult_distrib)
  moreover have "\<forall>a. (a < io_base r \<or> io_base r + k * 4096 \<le> a) \<and> (a < d_disk0_buffer s \<or> d_disk0_buffer s + 16384 \<le> a) \<longrightarrow>
       v_mem s2 a = v_mem s a"
    using m1 m2 by (auto simp: s2_def disk_get_def)
  ultimately show ?thesis using io1 io2 w(2) r(2) by (auto simp: advance_def)
qed

definition ex_disk :: dst where
  "ex_disk = \<lparr>v_inode = \<lambda>_. None, v_fs = \<lambda>_. None, v_cur = 0, v_bootfs = None, v_bootfs_sem = 1,
    v_vdevs = [], v_vdev_sem = 1, v_mem = \<lambda>a. of_nat a, d_dev = \<lambda>_. None,
    d_ide = replicate 4 \<lparr>id_valid = True, id_size = 800\<rparr>, d_chan = \<lambda>_. 1, d_disk = \<lambda>_ _. 0, d_bad = \<lambda>_ _. False,
    d_disk0_sem = 1, d_disk0_buffer = 0, d_stdin = queue_init [] 0, d_keys = [], d_out = []\<rparr>"

definition ex_disk_dev :: device where
  "ex_disk_dev = \<lparr>d_blocks = 100, d_blocksize = 4096, d_kind = Disk0_dev\<rparr>"

lemma ex_disk_facts: "disk_ready ex_disk" "d_disk0_sem ex_disk = 1" "d_disk0_buffer ex_disk = 0"
    "d_blocks ex_disk_dev = 100"
  by (simp_all add: ex_disk_def ex_disk_dev_def disk_ready_def ide_device_valid_def DISK0_DEV_NO_def MAX_IDE_def)

theorem disk0_write_read_witness:
  "\<exists>w' s1 r' s2. disk0_io ex_disk_dev True (iobuf_init 50000 8192 4096) ex_disk = Some (Inr 0, w', s1) \<and>
     disk0_io ex_disk_dev False (iobuf_init 60000 8192 4096) s1 = Some (Inr 0, r', s2) \<and>
     (\<forall>j<8192. v_mem s2 (60000 + j) = v_mem ex_disk (50000 + j))"
  using disk0_write_read [of ex_disk 1 2 ex_disk_dev "iobuf_init 50000 8192 4096" "iobuf_init 60000 8192 4096"]
  by (simp add: ex_disk_facts iobuf_init_def) blast

section \<open>Devices behind descriptors\<close>

lemma unlock_chan [simp]:
  "v_fs (unlock_channel i s) = v_fs s" "v_cur (unlock_channel i s) = v_cur s"
  by (simp_all add: unlock_channel_def Let_def)

lemma disk0_round_keeps:
  "disk0_round wr blkno resid iob s = Some (c, n, iob', s') \<Longrightarrow> v_fs s' = v_fs s \<and> v_cur s' = v_cur s"
  by (auto simp: disk0_round_def disk0_write_blks_nolock_def disk0_read_blks_nolock_def ide_write_secs_def
      ide_read_secs_def lock_channel_def run_simps)

lemma disk0_loop_keeps:
  "disk0_loop wr blkno resid iob s = Some (iob', s') \<Longrightarrow> v_fs s' = v_fs s \<and> v_cur s' = v_cur s"
proof (induction wr blkno resid iob s rule: disk0_loop.induct)
  case (1 wr blkno resid iob s)
  show ?case
  proof (cases "resid = 0")
    case True
    then show ?thesis using "1.prems" by (simp add: disk0_loop.simps)
  next
    case False
    then obtain c n iob1 s1 where r: "disk0_round wr blkno resid iob s = Some (c, n, iob1, s1)" "c \<noteq> 0"
      and l: "disk0_loop wr (blkno + of_nat n) (resid - c) iob1 s1 = Some (iob', s')"
      using "1.prems" by (subst (asm) disk0_loop.simps) (auto split: option.splits if_splits)
    show ?thesis using "1.IH" [OF False r(1) refl refl refl r(2) l] disk0_round_keeps [OF r(1)] by simp
  qed
qed

lemma dop_io_keeps: "dop_io dev iob wr s = Some (r, iob', s') \<Longrightarrow> v_fs s' = v_fs s \<and> v_cur s' = v_cur s"
  by (auto simp: dop_io_def null_io_def stdin_io_def stdout_io_def disk0_io_def dev_stdin_read_def lock_disk0_def
      unlock_disk0_def run_simps split: dev_kind.splits dest!: disk0_loop_keeps)

text \<open>Before a file system is mounted, no device has file system operations.\<close>

definition no_fs :: "'a dst_scheme fs_ops" where
  "no_fs = \<lparr>fo_sync = \<lambda>_ _. None, fo_get_root = \<lambda>_ _. None, fo_unmount = \<lambda>_ _. None, fo_cleanup = \<lambda>_ _. None\<rparr>"

lemma dev_lookup_keeps: "dev_lookup n path s = Some (r, s') \<Longrightarrow> v_fs s' = v_fs s \<and> v_cur s' = v_cur s"
  by (auto simp: dev_lookup_def run_simps dest!: inc_simps)

interpretation dv: inode_backend "\<lambda>_. dev_node_ops" no_fs
  by unfold_locales
    (auto simp: dev_node_ops_def no_fs_def dev_open_def dev_close_def dev_read_def dev_write_def dev_fstat_def
      dev_gettype_def dev_tryseek_def vop_def run_simps dest!: dop_io_keeps dev_lookup_keeps)

text \<open>C4: The descriptor tables stay well formed.  In every sequence of descriptor calls, made for any processes
  over any file system that leaves the tables alone, every table keeps its size, every entry its own index, and
  an entry is in use exactly while its open count is positive, with an inode.
\<close>

theorem descriptor_tables_ok:
  assumes "inode_backend ops fops" "tables_ok (v_fs s)" "do_calls ops fops cs s = Some s'"
  shows "tables_ok (v_fs s')"
  using inode_backend.file_calls_ok [OF assms(1,3,2)] .

text \<open>C39: A successful open takes the lowest free descriptor: all lower ones are in use, the entry becomes an open
  file with the access mode of the flags and open count one, and no other entry of any table changes.
\<close>

theorem open_lowest_descriptor:
  assumes "inode_backend ops fops" "tables_ok (v_fs s)" "file_open ops fops path flags s = Some (Inr fd, s')"
  shows "0 \<le> fd \<and> (\<exists>f f'. get_file (v_cur s) (nat fd) s = Some f \<and> f_status f = FD_NONE \<and>
    (\<forall>j<nat fd. \<exists>g. get_file (v_cur s) j s = Some g \<and> f_status g \<noteq> FD_NONE) \<and>
    get_file (v_cur s) (nat fd) s' = Some f' \<and> f_status f' = FD_OPENED \<and> f_count f' = 1 \<and> f_node f' \<noteq> None \<and>
    f_readable f' = (flags AND O_ACCMODE \<noteq> O_WRONLY) \<and> f_writable f' = (flags AND O_ACCMODE \<noteq> O_RDONLY) \<and>
    (\<forall>q j. (q, j) \<noteq> (v_cur s, nat fd) \<longrightarrow> get_file q j s' = get_file q j s))"
proof -
  from inode_backend.file_open_effect [OF assms(1,3), of fd] obtain i f n pos
    where f: "look (v_cur s) i (v_fs s) = Some f" "f_status f = FD_NONE"
      "\<forall>j<i. \<exists>g. look (v_cur s) j (v_fs s) = Some g \<and> f_status g \<noteq> FD_NONE" "fd = f_fd f"
      and s': "v_fs s' = put (v_cur s) i
        (opened_file (flags AND O_ACCMODE \<noteq> O_WRONLY) (flags AND O_ACCMODE \<noteq> O_RDONLY) n pos f) (v_fs s)"
    by auto
  have "f_fd f = int i" using tables_ok_look [OF assms(2) f(1)] by (simp add: slot_ok_def)
  then show ?thesis using f s' by (auto simp: look_put opened_file_def)
qed

text \<open>A process with descriptor 0 open, and the screen as a device that is not open yet.\<close>

definition ex_dev :: dst where
  "ex_dev = \<lparr>v_inode = [7 \<mapsto> \<lparr>in_ref = 1, in_open = 1, in_fs = None, in_isdev = True\<rparr>,
      8 \<mapsto> \<lparr>in_ref = 1, in_open = 0, in_fs = None, in_isdev = True\<rparr>],
    v_fs = [1 \<mapsto> \<lparr>fs_pwd = None, fs_filemap = ex_table, fs_count = 1, fs_sem = 1\<rparr>], v_cur = 1, v_bootfs = None,
    v_bootfs_sem = 1, v_vdevs = [\<lparr>vd_name = ''stdout'', vd_name_at = 0, vd_node = Some 8, vd_fs = None,
      vd_mountable = False\<rparr>], v_vdev_sem = 1, v_mem = \<lambda>a. of_nat a,
    d_dev = [7 \<mapsto> \<lparr>d_blocks = 0, d_blocksize = 1, d_kind = Stdin_dev\<rparr>,
      8 \<mapsto> \<lparr>d_blocks = 0, d_blocksize = 1, d_kind = Stdout_dev\<rparr>],
    d_ide = [], d_chan = \<lambda>_. 1, d_disk = \<lambda>_ _. 0, d_bad = \<lambda>_ _. False,
    d_disk0_sem = 1, d_disk0_buffer = 0, d_stdin = queue_init [] 0, d_keys = [], d_out = []\<rparr>"

definition ex_fd1 :: File where
  "ex_fd1 = \<lparr>f_status = FD_OPENED, f_readable = False, f_writable = True, f_fd = 1, f_pos = 0, f_node = Some 8, f_count = 1\<rparr>"

definition ex_dev1 :: dst where
  "ex_dev1 = ex_dev\<lparr>v_inode := (v_inode ex_dev)(8 \<mapsto> \<lparr>in_ref = 2, in_open = 1, in_fs = None, in_isdev = True\<rparr>),
     v_fs := put 1 1 ex_fd1 (v_fs ex_dev)\<rparr>"

lemma ex_scan: "scan_none 0 ex_table = Some 1"
  by (simp add: ex_table_def FS_STRUCT_NENTRY_def upt_conv_Cons ex_open_def ex_file_def)

lemma ex_vfs_open:
  fixes s :: dst
  assumes "v_vdev_sem s = 1" "v_vdevs s = v_vdevs ex_dev" "d_dev s = d_dev ex_dev" "v_inode s = v_inode ex_dev"
  shows "vfs_open (\<lambda>_. dev_node_ops) no_fs ''stdout:'' O_WRONLY s = Some (Inr 8, s\<lparr>v_inode := v_inode ex_dev1\<rparr>)"
  using assms
  by (simp add: vfs_open_def open_node_def vfs_lookup_def get_device_def is_sep_def vfs_get_root_def lock_vdev_list_def
      unlock_vdev_list_def skip_slashes_def dev_node_ops_def vop_def inode_check_def MAX_INODE_COUNT_def ex_dev_def
      ex_dev1_def inode_ref_inc_def inode_open_inc_def upd_inode_def dev_open_def dev_info_def dop_open_def
      O_CREAT_def O_TRUNC_def O_WRONLY_def O_RDONLY_def O_RDWR_def O_ACCMODE_def O_EXCL_def O_APPEND_def open_trunc_def)

lemma ex_look: "look 1 1 (v_fs ex_dev) = Some (ex_file 1)" "get_filemap ex_dev = Some ex_table" "v_cur ex_dev = 1"
    "v_vdev_sem ex_dev = 1"
  by (simp_all add: ex_dev_def look_def ex_table_nth ex_table_length get_filemap_def) (simp add: FS_STRUCT_NENTRY_def)

lemma ex_file_open: "file_open (\<lambda>_. dev_node_ops) no_fs ''stdout:'' O_WRONLY ex_dev = Some (Inr 1, ex_dev1)"
  using ex_look
  by (simp add: file_open_def filemap_alloc_def ex_scan filemap_found_def set_file_set_inode ex_vfs_open open_finish_def
      open_pos_def filemap_open_def O_WRONLY_def O_RDONLY_def O_RDWR_def O_ACCMODE_def O_APPEND_def ex_file_def
      ex_vfs_open [unfolded O_WRONLY_def])
    (simp add: ex_dev1_def ex_fd1_def)

lemma ex_dev_ok: "tables_ok (v_fs ex_dev)"
  by (auto simp: tables_ok_def look_def ex_dev_def ex_table_nth ex_table_length slot_ok_def ex_open_def ex_file_def
      split: if_splits)

theorem descriptor_tables_ok_witness:
  "\<exists>s'. do_calls (\<lambda>_. dev_node_ops) no_fs [Open ''stdout:'' O_WRONLY, Create (Some (9, []))] ex_dev = Some s' \<and>
     tables_ok (v_fs s') \<and> file_testfd 1 False True s' = Some True"
proof -
  let ?s = "snd (fs_create (Some (9, [])) ex_dev1)"
  have run: "do_calls (\<lambda>_. dev_node_ops) no_fs [Open ''stdout:'' O_WRONLY, Create (Some (9, []))] ex_dev = Some ?s"
    by (simp add: ex_file_open)
  have "file_testfd 1 False True ?s = Some True"
    by (simp add: file_testfd_def fd2file_def testfd_def FS_STRUCT_NENTRY_def get_filemap_def fs_create_def ex_dev1_def
        ex_dev_def put_def look_def ex_fd1_def ex_table_length)
  then show ?thesis
    using run descriptor_tables_ok [OF dv.inode_backend_axioms ex_dev_ok run] by blast
qed

theorem open_lowest_descriptor_witness:
  "file_open (\<lambda>_. dev_node_ops) no_fs ''stdout:'' O_WRONLY ex_dev = Some (Inr 1, ex_dev1) \<and>
   (\<exists>f f'. get_file 1 1 ex_dev = Some f \<and> f_status f = FD_NONE \<and> get_file 1 1 ex_dev1 = Some f' \<and>
      f_status f' = FD_OPENED \<and> \<not> f_readable f' \<and> f_writable f')"
  using open_lowest_descriptor [OF dv.inode_backend_axioms ex_dev_ok ex_file_open] ex_file_open
  by (auto simp: ex_look O_WRONLY_def O_RDONLY_def O_ACCMODE_def)

end
