(* ===== verification/Rbtree.thy ===== *)
theory Rbtree
  imports Prelude
begin

text \<open>
  The intrusive red-black tree of \<^verbatim>\<open>src/kernel/lib/rbtree.c\<close>: rotations, predecessor and successor, insertion
  and deletion with their rebalancing loops, as operations on a store of node fields with a sentinel node.

  A node is an address; the comparison function of the tree is an argument.  The loops are partial functions.
  The theorems show that on a store that represents a red-black tree they return, keep the
  colour and black-height invariants, and insert and delete exactly one node in the in-order sequence.
\<close>

section \<open>Nodes and rotations\<close>

record rbtree =
  rb_root :: nat
  rb_nil :: nat
  rb_red :: "nat \<Rightarrow> bool"
  rb_parent :: "nat \<Rightarrow> nat"
  rb_left :: "nat \<Rightarrow> nat"
  rb_right :: "nat \<Rightarrow> nat"

definition set_red :: "nat \<Rightarrow> bool \<Rightarrow> rbtree \<Rightarrow> rbtree" where
  "set_red x c s = s\<lparr>rb_red := (rb_red s)(x := c)\<rparr>"

definition set_parent :: "nat \<Rightarrow> nat \<Rightarrow> rbtree \<Rightarrow> rbtree" where
  "set_parent x p s = s\<lparr>rb_parent := (rb_parent s)(x := p)\<rparr>"

definition set_left :: "nat \<Rightarrow> nat \<Rightarrow> rbtree \<Rightarrow> rbtree" where
  "set_left x y s = s\<lparr>rb_left := (rb_left s)(x := y)\<rparr>"

definition set_right :: "nat \<Rightarrow> nat \<Rightarrow> rbtree \<Rightarrow> rbtree" where
  "set_right x y s = s\<lparr>rb_right := (rb_right s)(x := y)\<rparr>"

definition rbtree_init :: "rbtree \<Rightarrow> rbtree" where
  "rbtree_init s = (set_red (rb_nil s) False s)\<lparr>rb_root := rb_nil s\<rparr>"

definition rbtree_left_rotate :: "nat \<Rightarrow> rbtree \<Rightarrow> rbtree" where
  "rbtree_left_rotate node s =
     (let right = rb_right s node; parent = rb_parent s node; right_left = rb_left s right;
          s1 = set_parent right parent s;
          s2 = (if parent \<noteq> rb_nil s1 then
                  if rb_left s1 parent = node then set_left parent right s1 else set_right parent right s1
                else s1\<lparr>rb_root := right\<rparr>);
          s3 = set_right node right_left (set_parent node right (set_left right node s2))
      in if right_left \<noteq> rb_nil s3 then set_parent right_left node s3 else s3)"

definition rbtree_right_rotate :: "nat \<Rightarrow> rbtree \<Rightarrow> rbtree" where
  "rbtree_right_rotate node s =
     (let left = rb_left s node; parent = rb_parent s node; left_right = rb_right s left;
          s1 = set_parent left parent s;
          s2 = (if parent \<noteq> rb_nil s1 then
                  if rb_left s1 parent = node then set_left parent left s1 else set_right parent left s1
                else s1\<lparr>rb_root := left\<rparr>);
          s3 = set_left node left_right (set_parent node left (set_right left node s2))
      in if left_right \<noteq> rb_nil s3 then set_parent left_right node s3 else s3)"

section \<open>Walking the tree\<close>

partial_function (option) rb_leftmost :: "rbtree \<Rightarrow> nat \<Rightarrow> nat option" where
  "rb_leftmost s node = (if rb_left s node \<noteq> rb_nil s then rb_leftmost s (rb_left s node) else Some node)"

partial_function (option) rb_rightmost :: "rbtree \<Rightarrow> nat \<Rightarrow> nat option" where
  "rb_rightmost s node = (if rb_right s node \<noteq> rb_nil s then rb_rightmost s (rb_right s node) else Some node)"

partial_function (option) rb_up_right :: "rbtree \<Rightarrow> nat \<Rightarrow> nat option" where
  "rb_up_right s node =
     (if rb_parent s node \<noteq> rb_nil s then
        if node = rb_right s (rb_parent s node) then Some (rb_parent s node) else rb_up_right s (rb_parent s node)
      else Some (rb_nil s))"

partial_function (option) rb_up_left :: "rbtree \<Rightarrow> nat \<Rightarrow> nat option" where
  "rb_up_left s node =
     (if rb_parent s node \<noteq> rb_nil s then
        if node = rb_left s (rb_parent s node) then Some (rb_parent s node) else rb_up_left s (rb_parent s node)
      else Some (rb_nil s))"

definition rbtree_predecessor :: "rbtree \<Rightarrow> nat \<Rightarrow> nat option" where
  "rbtree_predecessor s node =
     (if rb_left s node \<noteq> rb_nil s then rb_rightmost s (rb_left s node)
      else if rb_parent s node \<noteq> rb_nil s then
        if node = rb_right s (rb_parent s node) then Some (rb_parent s node) else rb_up_right s node
      else Some (rb_nil s))"

definition rbtree_successor :: "rbtree \<Rightarrow> nat \<Rightarrow> nat option" where
  "rbtree_successor s node =
     (if rb_right s node \<noteq> rb_nil s then rb_leftmost s (rb_right s node)
      else if rb_parent s node \<noteq> rb_nil s then rb_up_left s node
      else Some (rb_nil s))"

section \<open>Insertion\<close>

definition insert_fix_left :: "nat \<Rightarrow> nat \<Rightarrow> nat \<Rightarrow> rbtree \<Rightarrow> rbtree" where
  "insert_fix_left z p g s =
     (let (p, s1) = (if z = rb_right s p then let s' = rbtree_left_rotate p s in (rb_parent s' p, s') else (p, s))
      in set_red p False (set_red g True (rbtree_right_rotate g s1)))"

definition insert_fix_right :: "nat \<Rightarrow> nat \<Rightarrow> nat \<Rightarrow> rbtree \<Rightarrow> rbtree" where
  "insert_fix_right z p g s =
     (let (p, s1) = (if z = rb_left s p then let s' = rbtree_right_rotate p s in (rb_parent s' p, s') else (p, s))
      in set_red p False (set_red g True (rbtree_left_rotate g s1)))"

text \<open>After the rotations the new root of the subtree is black, and the loop ends in its next round.\<close>

partial_function (option) rbtree_insert_fixup :: "nat \<Rightarrow> rbtree \<Rightarrow> rbtree option" where
  "rbtree_insert_fixup z s =
     (if z = rb_root s then Some (set_red z False s)
      else if \<not> rb_red s (rb_parent s z) then Some s
      else
        (let p = rb_parent s z; g = rb_parent s p in
         if rb_left s g = p then
           (let u = rb_right s g in
            if rb_red s u then rbtree_insert_fixup g (set_red p False (set_red u False (set_red g True s)))
            else rbtree_insert_fixup (if z = rb_right s p then p else z) (insert_fix_left z p g s))
         else
           (let u = rb_left s g in
            if rb_red s u then rbtree_insert_fixup g (set_red p False (set_red u False (set_red g True s)))
            else rbtree_insert_fixup (if z = rb_left s p then p else z) (insert_fix_right z p g s))))"

partial_function (option) rb_insert_pos :: "(nat \<Rightarrow> nat \<Rightarrow> int) \<Rightarrow> rbtree \<Rightarrow> nat \<Rightarrow> nat \<Rightarrow> nat \<Rightarrow> nat option" where
  "rb_insert_pos cmp s z x y =
     (if x \<noteq> rb_nil s then rb_insert_pos cmp s z (if cmp z x < 0 then rb_left s x else rb_right s x) x
      else Some y)"

definition rbtree_insert :: "(nat \<Rightarrow> nat \<Rightarrow> int) \<Rightarrow> nat \<Rightarrow> rbtree \<Rightarrow> rbtree option" where
  "rbtree_insert cmp z s = do {
     y \<leftarrow> rb_insert_pos cmp s z (rb_root s) (rb_nil s);
     let s1 = (if y = rb_nil s then set_parent z (rb_nil s) (s\<lparr>rb_root := z\<rparr>)
               else if cmp z y < 0 then set_parent z y (set_left y z s)
               else set_parent z y (set_right y z s));
     let s2 = set_red z True (set_left z (rb_nil s) (set_right z (rb_nil s) s1));
     rbtree_insert_fixup z s2
   }"

section \<open>Deletion\<close>

definition transplant :: "nat \<Rightarrow> nat \<Rightarrow> rbtree \<Rightarrow> rbtree" where
  "transplant u v s =
     (let s1 = (if rb_parent s u = rb_nil s then s\<lparr>rb_root := v\<rparr>
                else if u = rb_left s (rb_parent s u) then set_left (rb_parent s u) v s
                else set_right (rb_parent s u) v s)
      in set_parent v (rb_parent s1 u) s1)"

definition swap_colors :: "nat \<Rightarrow> nat \<Rightarrow> rbtree \<Rightarrow> rbtree" where
  "swap_colors p q s = (let p_color = rb_red s p in set_red q p_color (set_red p (rb_red s q) s))"

text \<open>
  One round for a black sibling \<open>s'\<close>: the node to continue with, or \<^const>\<open>None\<close> when the loop returned from
  inside, and the tree.
\<close>

definition delete_black_left :: "nat \<Rightarrow> nat \<Rightarrow> rbtree \<Rightarrow> nat option \<times> rbtree" where
  "delete_black_left x p t =
     (let s = rb_right t p; sr = rb_right t s; sl = rb_left t s;
          (s, sr, sl, t1) =
            (if rb_red t sl \<and> \<not> rb_red t sr then
               let t' = set_red sl False (set_red s True (rbtree_right_rotate s t));
                   s' = rb_right t' p
               in (s', rb_right t' s', rb_left t' s', t')
             else (s, sr, sl, t))
      in if rb_red t1 sr then (None, set_red sr False (swap_colors p s (rbtree_left_rotate p t1)))
         else if \<not> rb_red t1 sl \<and> \<not> rb_red t1 sr then
           if rb_red t1 p then (None, set_red p False (set_red s True t1))
           else (Some p, set_red s True t1)
         else (Some x, t1))"

definition delete_black_right :: "nat \<Rightarrow> nat \<Rightarrow> rbtree \<Rightarrow> nat option \<times> rbtree" where
  "delete_black_right x p t =
     (let s = rb_left t p; sr = rb_right t s; sl = rb_left t s;
          (s, sr, sl, t1) =
            (if rb_red t sr \<and> \<not> rb_red t sl then
               let t' = set_red sr False (set_red s True (rbtree_left_rotate s t));
                   s' = rb_left t' p
               in (s', rb_right t' s', rb_left t' s', t')
             else (s, sr, sl, t))
      in if rb_red t1 sl then (None, set_red sl False (swap_colors p s (rbtree_right_rotate p t1)))
         else if \<not> rb_red t1 sl \<and> \<not> rb_red t1 sr then
           if rb_red t1 p then (None, set_red s True (set_red p False t1))
           else (Some p, set_red s True t1)
         else (Some x, t1))"

partial_function (option) rbtree_delete_fixup :: "nat \<Rightarrow> rbtree \<Rightarrow> rbtree option" where
  "rbtree_delete_fixup x t =
     (if x \<noteq> rb_root t \<and> \<not> rb_red t x then
        (let p = rb_parent t x in
         if x = rb_left t p then
           (let s = rb_right t p in
            if rb_red t s then rbtree_delete_fixup x (set_red s False (set_red p True (rbtree_left_rotate p t)))
            else (case delete_black_left x p t of
                    (None, t') \<Rightarrow> Some t'
                  | (Some y, t') \<Rightarrow> rbtree_delete_fixup y t'))
         else
           (let s = rb_left t p in
            if rb_red t s then rbtree_delete_fixup x (set_red s False (set_red p True (rbtree_right_rotate p t)))
            else (case delete_black_right x p t of
                    (None, t') \<Rightarrow> Some t'
                  | (Some y, t') \<Rightarrow> rbtree_delete_fixup y t')))
      else Some (set_red x False t))"

definition rbtree_delete :: "nat \<Rightarrow> rbtree \<Rightarrow> rbtree option" where
  "rbtree_delete z t =
     (if rb_left t z = rb_nil t then
        (let x = rb_right t z; red = rb_red t z; t1 = transplant z x t
         in if \<not> red then rbtree_delete_fixup x t1 else Some t1)
      else if rb_right t z = rb_nil t then
        (let x = rb_left t z; red = rb_red t z; t1 = transplant z x t
         in if \<not> red then rbtree_delete_fixup x t1 else Some t1)
      else do {
        y \<leftarrow> rbtree_successor t z;
        let red = rb_red t y;
        let x = rb_right t y;
        let t1 = (if rb_parent t y = z then set_parent x y t
                  else let t' = transplant y (rb_right t y) t;
                           t'' = set_right y (rb_right t' z) t'
                       in set_parent (rb_right t'' y) y t'');
        let t2 = transplant z y t1;
        let t3 = set_left y (rb_left t2 z) t2;
        let t4 = set_parent (rb_left t3 y) y t3;
        let t5 = set_red y (rb_red t4 z) t4;
        if \<not> red then rbtree_delete_fixup x t5 else Some t5
      })"

section \<open>The tree a store represents\<close>

text \<open>
  A coloured tree of addresses, and a context: the path from a subtree up to the root, each step with its
  side (true when the subtree is the left child), the node and the other subtree.
\<close>

datatype ct = Lf | N bool ct nat ct

type_synonym crumb = "bool \<times> bool \<times> nat \<times> ct"

fun inord :: "ct \<Rightarrow> nat list" where
  "inord Lf = []"
| "inord (N c l x r) = inord l @ x # inord r"

fun rt :: "nat \<Rightarrow> ct \<Rightarrow> nat" where
  "rt n Lf = n"
| "rt n (N c l x r) = x"

fun hp :: "nat \<Rightarrow> crumb list \<Rightarrow> nat" where
  "hp n [] = n"
| "hp n ((d, c, q, t) # k) = q"

fun kptrs :: "crumb list \<Rightarrow> nat list" where
  "kptrs [] = []"
| "kptrs ((d, c, q, t) # k) = q # inord t @ kptrs k"

fun plug :: "crumb list \<Rightarrow> ct \<Rightarrow> ct" where
  "plug [] t = t"
| "plug ((d, c, q, o') # k) t = plug k (if d then N c t q o' else N c o' q t)"

fun tree_at :: "rbtree \<Rightarrow> nat \<Rightarrow> ct \<Rightarrow> bool" where
  "tree_at s par Lf = True"
| "tree_at s par (N c l x r) = (x \<noteq> rb_nil s \<and> rb_parent s x = par \<and> rb_red s x = c \<and>
     rb_left s x = rt (rb_nil s) l \<and> rb_right s x = rt (rb_nil s) r \<and> tree_at s x l \<and> tree_at s x r)"

fun ctx_at :: "rbtree \<Rightarrow> nat \<Rightarrow> crumb list \<Rightarrow> bool" where
  "ctx_at s h [] = (rb_root s = h)"
| "ctx_at s h ((d, c, q, t) # k) = (q \<noteq> rb_nil s \<and> rb_red s q = c \<and> rb_parent s q = hp (rb_nil s) k \<and>
     rb_left s q = (if d then h else rt (rb_nil s) t) \<and> rb_right s q = (if d then rt (rb_nil s) t else h) \<and>
     tree_at s q t \<and> ctx_at s q k)"

definition cfg :: "rbtree \<Rightarrow> crumb list \<Rightarrow> ct \<Rightarrow> bool" where
  "cfg s k t = (tree_at s (hp (rb_nil s) k) t \<and> ctx_at s (rt (rb_nil s) t) k \<and>
     distinct (inord t @ kptrs k) \<and> \<not> rb_red s (rb_nil s))"

lemma set_simps [simp]:
  "rb_nil (set_red x c s) = rb_nil s" "rb_nil (set_parent x y s) = rb_nil s"
  "rb_nil (set_left x y s) = rb_nil s" "rb_nil (set_right x y s) = rb_nil s"
  "rb_root (set_red x c s) = rb_root s" "rb_root (set_parent x y s) = rb_root s"
  "rb_root (set_left x y s) = rb_root s" "rb_root (set_right x y s) = rb_root s"
  "rb_red (set_red x c s) = (rb_red s)(x := c)" "rb_red (set_parent x y s) = rb_red s"
  "rb_red (set_left x y s) = rb_red s" "rb_red (set_right x y s) = rb_red s"
  "rb_parent (set_red x c s) = rb_parent s" "rb_parent (set_parent x y s) = (rb_parent s)(x := y)"
  "rb_parent (set_left x y s) = rb_parent s" "rb_parent (set_right x y s) = rb_parent s"
  "rb_left (set_red x c s) = rb_left s" "rb_left (set_parent x y s) = rb_left s"
  "rb_left (set_left x y s) = (rb_left s)(x := y)" "rb_left (set_right x y s) = rb_left s"
  "rb_right (set_red x c s) = rb_right s" "rb_right (set_parent x y s) = rb_right s"
  "rb_right (set_left x y s) = rb_right s" "rb_right (set_right x y s) = (rb_right s)(x := y)"
  by (simp_all add: set_red_def set_parent_def set_left_def set_right_def)

lemma rotate_nil [simp]:
  "rb_nil (rbtree_left_rotate x s) = rb_nil s" "rb_nil (rbtree_right_rotate x s) = rb_nil s"
  by (simp_all add: rbtree_left_rotate_def rbtree_right_rotate_def Let_def)

lemma fix_nil [simp]:
  "rb_nil (insert_fix_left z p g s) = rb_nil s" "rb_nil (insert_fix_right z p g s) = rb_nil s"
  by (simp_all add: insert_fix_left_def insert_fix_right_def Let_def)

lemma rt_in: "t \<noteq> Lf \<Longrightarrow> rt n t \<in> set (inord t)"
  by (cases t) auto

lemma tree_at_nil: "tree_at s par t \<Longrightarrow> rb_nil s \<notin> set (inord t)"
  by (induction t arbitrary: par) auto

lemma rt_nil_iff: "tree_at s par t \<Longrightarrow> (rt (rb_nil s) t = rb_nil s) = (t = Lf)"
  by (cases t) auto

lemma ctx_at_nil: "ctx_at s h k \<Longrightarrow> rb_nil s \<notin> set (kptrs k)"
  by (induction k arbitrary: h rule: kptrs.induct) (auto dest: tree_at_nil)

lemma hp_in: "k \<noteq> [] \<Longrightarrow> hp n k \<in> set (kptrs k)"
  by (cases k rule: kptrs.cases) auto

text \<open>Framing: a tree depends on the fields of its own nodes only.\<close>

definition same_on :: "nat set \<Rightarrow> rbtree \<Rightarrow> rbtree \<Rightarrow> bool" where
  "same_on A s s' = (rb_nil s' = rb_nil s \<and> (\<forall>x\<in>A. rb_red s' x = rb_red s x \<and> rb_parent s' x = rb_parent s x \<and>
     rb_left s' x = rb_left s x \<and> rb_right s' x = rb_right s x))"

lemma tree_at_frame: "same_on (set (inord t)) s s' \<Longrightarrow> tree_at s' par t = tree_at s par t"
  by (induction t arbitrary: par) (auto simp: same_on_def)

lemma ctx_at_frame:
  "same_on (set (kptrs k)) s s' \<Longrightarrow> rb_root s' = rb_root s \<Longrightarrow> ctx_at s' h k = ctx_at s h k"
proof (induction k arbitrary: h rule: kptrs.induct)
  case (2 d c q t k)
  have so: "same_on (set (inord t)) s s'" "same_on (set (kptrs k)) s s'" using "2.prems" by (auto simp: same_on_def)
  have "tree_at s' q t = tree_at s q t" "ctx_at s' q k = ctx_at s q k"
    using tree_at_frame [OF so(1)] "2.IH" [OF so(2) "2.prems"(2)] by auto
  then show ?case using "2.prems"(1) by (simp add: same_on_def)
qed simp

text \<open>A subtree handed to another parent: only its root's parent field changes.\<close>

lemma tree_at_reparent:
  assumes "tree_at s par t" "distinct (inord t)" "rb_nil s' = rb_nil s"
    and "\<And>x. x \<in> set (inord t) \<Longrightarrow> rb_red s' x = rb_red s x \<and> rb_left s' x = rb_left s x \<and> rb_right s' x = rb_right s x"
    and "\<And>x. x \<in> set (inord t) \<Longrightarrow> rb_parent s' x = (if x = rt (rb_nil s) t then par' else rb_parent s x)"
  shows "tree_at s' par' t"
proof (cases t)
  case (N c l x r)
  have "same_on (set (inord l)) s s'" "same_on (set (inord r)) s s'"
    using assms N by (auto simp: same_on_def)
  then show ?thesis using assms N by (simp add: tree_at_frame)
qed simp

definition set_child :: "crumb list \<Rightarrow> nat \<Rightarrow> rbtree \<Rightarrow> rbtree" where
  "set_child k v s = (case k of [] \<Rightarrow> s\<lparr>rb_root := v\<rparr>
     | (d, c, q, t) # _ \<Rightarrow> if d then set_left q v s else set_right q v s)"

lemma set_child_simps [simp]:
  "rb_nil (set_child k v s) = rb_nil s" "rb_red (set_child k v s) = rb_red s" "rb_parent (set_child k v s) = rb_parent s"
  "x \<noteq> hp (rb_nil s) k \<Longrightarrow> rb_left (set_child k v s) x = rb_left s x"
  "x \<noteq> hp (rb_nil s) k \<Longrightarrow> rb_right (set_child k v s) x = rb_right s x"
  by (auto simp: set_child_def split: list.splits)

lemma ctx_at_set_child:
  assumes "ctx_at s h k" "distinct (kptrs k)"
  shows "ctx_at (set_child k v s) v k"
proof (cases k rule: kptrs.cases)
  case (2 d c q t k')
  have "same_on (set (inord t)) s (set_child k v s)" "same_on (set (kptrs k')) s (set_child k v s)"
    using assms 2 by (auto simp: same_on_def set_child_def)
  then show ?thesis
    using assms 2 by (auto simp: tree_at_frame ctx_at_frame set_child_def)
qed (simp add: set_child_def)

text \<open>The conditional by which the code replaces a node below its parent.\<close>

lemma replace_child:
  assumes "ctx_at s h k" "h \<noteq> rb_nil s" "h \<notin> set (kptrs k)"
  shows "(if hp (rb_nil s) k \<noteq> rb_nil s then
       if rb_left s (hp (rb_nil s) k) = h then set_left (hp (rb_nil s) k) v s else set_right (hp (rb_nil s) k) v s
     else s\<lparr>rb_root := v\<rparr>) = set_child k v s"
proof (cases k rule: kptrs.cases)
  case (2 d c q t k')
  have "rt (rb_nil s) t \<noteq> h" using assms 2 rt_in [of t] by (cases "t = Lf") auto
  then show ?thesis using assms 2 by (auto simp: set_child_def)
qed (simp add: set_child_def)

text \<open>Moving the focus, colouring, and the two rotations.\<close>

lemma cfg_up: "cfg s ((d, c, q, o') # k) t = cfg s k (if d then N c t q o' else N c o' q t)"
  by (auto simp: cfg_def)

lemma cfg_plug: "cfg s [] (plug k t) = cfg s k t"
  by (induction k t rule: plug.induct) (auto simp: cfg_up)

lemma cfg_set_red:
  assumes "cfg s k (N c l x r)"
  shows "cfg (set_red x c' s) k (N c' l x r)"
proof -
  have "same_on (set (inord l)) s (set_red x c' s)" "same_on (set (inord r)) s (set_red x c' s)"
    "same_on (set (kptrs k)) s (set_red x c' s)"
    using assms by (auto simp: cfg_def same_on_def)
  then show ?thesis using assms by (auto simp: cfg_def tree_at_frame ctx_at_frame)
qed

lemma cfg_left_rotate:
  assumes "cfg s k (N c a x (N d b y e))"
  shows "cfg (rbtree_left_rotate x s) k (N d (N c a x b) y e) \<and>
    rb_parent (rbtree_left_rotate x s) (rb_nil s) = rb_parent s (rb_nil s) \<and> rb_nil (rbtree_left_rotate x s) = rb_nil s"
proof -
  let ?n = "rb_nil s" and ?s' = "rbtree_left_rotate x s"
  have A: "tree_at s (hp ?n k) (N c a x (N d b y e))" and C: "ctx_at s x k"
    and D: "distinct (inord (N c a x (N d b y e)) @ kptrs k)" and nl: "\<not> rb_red s ?n"
    using assms by (auto simp: cfg_def)
  have notin: "?n \<notin> set (kptrs k)" using ctx_at_nil [OF C] .
  have hpx: "hp ?n k \<noteq> x" "hp ?n k \<noteq> y" "hp ?n k \<notin> set (inord a)" "hp ?n k \<notin> set (inord b)" "hp ?n k \<notin> set (inord e)"
    using A D hp_in [of k ?n] tree_at_nil [OF A] by (cases "k = []"; auto)+
  let ?s1 = "set_parent y (hp ?n k) s"
  have C1: "ctx_at ?s1 x k"
    using C D by (subst ctx_at_frame [of k s]) (auto simp: same_on_def)
  have rep: "(if hp ?n k \<noteq> ?n then if rb_left ?s1 (hp ?n k) = x then set_left (hp ?n k) y ?s1 else set_right (hp ?n k) y ?s1
      else ?s1\<lparr>rb_root := y\<rparr>) = set_child k y ?s1"
    using replace_child [OF C1, of y] A D by (simp cong: if_cong)
  define s3 where "s3 = set_right x (rt ?n b) (set_parent x y (set_left y x (set_child k y ?s1)))"
  have s': "?s' = (if b = Lf then s3 else set_parent (rt ?n b) x s3)"
    using A rep rt_nil_iff [of s y b] by (auto simp: rbtree_left_rotate_def Let_def s3_def)
  have n': "rb_nil ?s' = ?n" by (simp add: s' s3_def)
  have rb: "b \<noteq> Lf \<Longrightarrow> rt ?n b \<in> set (inord b)" by (rule rt_in)
  have oth: "rb_left (set_child k y ?s1) z = rb_left s z" "rb_right (set_child k y ?s1) z = rb_right s z"
    if "z \<in> set (inord a) \<or> z \<in> set (inord b) \<or> z \<in> set (inord e) \<or> z = x \<or> z = y" for z
  proof -
    have "z \<noteq> hp ?n k" using that hpx by auto
    then show "rb_left (set_child k y ?s1) z = rb_left s z" "rb_right (set_child k y ?s1) z = rb_right s z" by simp_all
  qed
  have fa: "same_on (set (inord a)) s ?s'" and fe: "same_on (set (inord e)) s ?s'"
    using D rb by (auto simp: same_on_def s' s3_def oth)
  have fb: "tree_at ?s' x b"
  proof (rule tree_at_reparent [of s y b])
    show "tree_at s y b" "distinct (inord b)" "rb_nil ?s' = ?n" using A D n' by simp_all
    fix z assume z: "z \<in> set (inord b)"
    then have zne: "z \<noteq> x" "z \<noteq> y" "b \<noteq> Lf" using D by auto
    then show "rb_red ?s' z = rb_red s z \<and> rb_left ?s' z = rb_left s z \<and> rb_right ?s' z = rb_right s z"
      "rb_parent ?s' z = (if z = rt ?n b then x else rb_parent s z)"
      using z by (simp_all add: s' s3_def oth)
  qed
  have C2: "ctx_at (set_child k y ?s1) y k" using ctx_at_set_child [OF C1] D by auto
  have fk: "same_on (set (kptrs k)) (set_child k y ?s1) ?s'"
    using D rb by (auto simp: same_on_def s' s3_def)
  have "rb_root ?s' = rb_root (set_child k y ?s1)" by (simp add: s' s3_def)
  then have C': "ctx_at ?s' y k" using C2 ctx_at_frame [OF fk] by simp
  have "rb_red ?s' = rb_red s" by (simp add: s' s3_def)
  moreover have "rb_parent ?s' y = hp ?n k" "rb_parent ?s' x = y" "rb_left ?s' y = x" "rb_right ?s' y = rt ?n e"
    "rb_left ?s' x = rt ?n a" "rb_right ?s' x = rt ?n b"
    using A D rb by (auto simp: s' s3_def oth)
  ultimately have "cfg ?s' k (N d (N c a x b) y e)"
    using A D C' fa fb fe nl n' by (auto simp: cfg_def tree_at_frame)
  moreover have "rb_parent ?s' ?n = rb_parent s ?n" using A rb tree_at_nil [OF A] by (auto simp: s' s3_def)
  ultimately show ?thesis using n' by simp
qed

section \<open>Mirror images\<close>

text \<open>The right-hand halves of the code are the left-hand halves with the two child fields exchanged.\<close>

definition mirror :: "rbtree \<Rightarrow> rbtree" where
  "mirror s = s\<lparr>rb_left := rb_right s, rb_right := rb_left s\<rparr>"

fun mt :: "ct \<Rightarrow> ct" where
  "mt Lf = Lf"
| "mt (N c l x r) = N c (mt r) x (mt l)"

fun mk :: "crumb list \<Rightarrow> crumb list" where
  "mk [] = []"
| "mk ((d, c, q, t) # k) = (\<not> d, c, q, mt t) # mk k"

lemma mirror_simps [simp]:
  "rb_nil (mirror s) = rb_nil s" "rb_root (mirror s) = rb_root s" "rb_red (mirror s) = rb_red s"
  "rb_parent (mirror s) = rb_parent s" "rb_left (mirror s) = rb_right s" "rb_right (mirror s) = rb_left s"
  "mirror (mirror s) = s" "mirror (set_red x c s) = set_red x c (mirror s)" "mirror (set_parent x y s) = set_parent x y (mirror s)"
  "mirror (set_left x y s) = set_right x y (mirror s)" "mirror (set_right x y s) = set_left x y (mirror s)"
  by (simp_all add: mirror_def set_red_def set_parent_def set_left_def set_right_def)

lemma mt_simps [simp]: "mt (mt t) = t" "rt n (mt t) = rt n t" "inord (mt t) = rev (inord t)" "mt t = Lf \<longleftrightarrow> t = Lf"
  by (induction t) auto

lemma mk_simps [simp]: "mk (mk k) = k" "hp n (mk k) = hp n k" "set (kptrs (mk k)) = set (kptrs k)"
    "length (mk k) = length k"
  by (induction k rule: kptrs.induct) auto

lemma distinct_kptrs_mk [simp]: "distinct (kptrs (mk k)) = distinct (kptrs k)"
  by (induction k rule: kptrs.induct) auto

lemma tree_at_mirror [simp]: "tree_at (mirror s) par (mt t) = tree_at s par t"
  by (induction t arbitrary: par) auto

lemma ctx_at_mirror [simp]: "ctx_at (mirror s) h (mk k) = ctx_at s h k"
  by (induction k arbitrary: h rule: kptrs.induct) auto

lemma cfg_mirror: "cfg (mirror s) (mk k) (mt t) = cfg s k t"
  by (auto simp: cfg_def)

lemma cfg_mirror': "cfg (mirror s) k t = cfg s (mk k) (mt t)"
  using cfg_mirror [of s "mk k" "mt t"] by simp

lemma right_rotate_mirror:
  assumes "cfg s k (N c l x r)"
  shows "rbtree_right_rotate x s = mirror (rbtree_left_rotate x (mirror s))"
proof -
  let ?p = "hp (rb_nil s) k"
  have p: "rb_parent s x = ?p" and C: "ctx_at s x k" and D: "x \<notin> set (kptrs k)" "x \<noteq> rb_nil s"
    using assms by (auto simp: cfg_def)
  have side: "?p \<noteq> rb_nil s \<Longrightarrow> (rb_left s ?p = x) = (rb_right s ?p \<noteq> x)"
  proof (cases k rule: kptrs.cases)
    case (2 d c' q t k')
    have "rt (rb_nil s) t \<noteq> x" using D 2 rt_in [of t] by (cases "t = Lf") auto
    then show ?thesis using C 2 by auto
  qed simp
  show ?thesis
    using side by (auto simp: rbtree_right_rotate_def rbtree_left_rotate_def Let_def p)
qed

lemma left_rotate_mirror:
  assumes "cfg s k (N c l x r)"
  shows "rbtree_left_rotate x s = mirror (rbtree_right_rotate x (mirror s))"
  using right_rotate_mirror [of "mirror s" "mk k" c "mt r" x "mt l"] assms cfg_mirror [of s k "N c l x r"] by simp

lemma cfg_right_rotate:
  assumes "cfg s k (N c (N d a y b) x e)"
  shows "cfg (rbtree_right_rotate x s) k (N d a y (N c b x e)) \<and>
    rb_parent (rbtree_right_rotate x s) (rb_nil s) = rb_parent s (rb_nil s) \<and> rb_nil (rbtree_right_rotate x s) = rb_nil s"
  using cfg_left_rotate [of "mirror s" "mk k" c "mt e" x d "mt b" y "mt a"] assms right_rotate_mirror [OF assms]
    cfg_mirror [of s k "N c (N d a y b) x e"]
  by (simp add: cfg_mirror')

section \<open>Insertion on trees\<close>

lemma cfg_node:
  assumes "cfg s k (N c l x r)"
  shows "rb_parent s x = hp (rb_nil s) k" "rb_red s x = c" "rb_left s x = rt (rb_nil s) l"
    "rb_right s x = rt (rb_nil s) r" "x \<noteq> rb_nil s"
  using assms by (auto simp: cfg_def)

lemma cfg_crumb:
  assumes "cfg s ((d, c, q, o') # k) t"
  shows "rb_parent s q = hp (rb_nil s) k" "rb_red s q = c" "rb_left s q = rt (rb_nil s) (if d then t else o')"
    "rb_right s q = rt (rb_nil s) (if d then o' else t)" "q \<noteq> rb_nil s"
  using assms by (auto simp: cfg_def)

lemma ctx_root: "ctx_at s h k \<Longrightarrow> k \<noteq> [] \<Longrightarrow> rb_root s \<in> set (kptrs k)"
proof (induction k arbitrary: h rule: kptrs.induct)
  case (2 d c q t k)
  then show ?case by (cases "k = []") auto
qed simp

lemma cfg_root: "cfg s k (N c l x r) \<Longrightarrow> (x = rb_root s) = (k = [])"
  using ctx_root [of s x k] by (cases "k = []") (auto simp: cfg_def)

lemma cfg_red: "cfg s k t \<Longrightarrow> rb_red s (rt (rb_nil s) t) = (case t of Lf \<Rightarrow> False | N c _ _ _ \<Rightarrow> c)"
  by (cases t) (auto simp: cfg_def)

lemma cfg_sib_red: "cfg s ((d, c, q, o') # k) t \<Longrightarrow>
    rb_red s (rt (rb_nil s) o') = (case o' of Lf \<Rightarrow> False | N c _ _ _ \<Rightarrow> c)"
  by (cases o') (auto simp: cfg_def)

lemma cfg_sib_ne: "cfg s ((d, c, q, o') # k) (N c' l x r) \<Longrightarrow> rt (rb_nil s) o' \<noteq> x"
  using rt_in [of o' "rb_nil s"] by (cases "o' = Lf") (auto simp: cfg_def)

text \<open>The rebalancing as a function on trees.  A red node is never the root's parent.\<close>

fun ifix :: "crumb list \<Rightarrow> ct \<Rightarrow> nat \<Rightarrow> ct \<Rightarrow> ct" where
  "ifix [] a z b = N False a z b"
| "ifix ((d, False, p, o1) # k) a z b = plug ((d, False, p, o1) # k) (N True a z b)"
| "ifix [(d, True, p, o1)] a z b = Lf"
| "ifix ((d1, True, p, o1) # (d2, c, g, u) # k) a z b =
     (case u of
        N True ul w ur \<Rightarrow>
          (let pt = (if d1 then N False (N True a z b) p o1 else N False o1 p (N True a z b));
               ut = N False ul w ur
           in if d2 then ifix k pt g ut else ifix k ut g pt)
      | _ \<Rightarrow>
          plug k
            (if d2 then
               if d1 then N False (N True a z b) p (N True o1 g u) else N False (N True o1 p a) z (N True b g u)
             else
               if d1 then N False (N True u g a) z (N True b p o1) else N False (N True u g o1) p (N True a z b)))"

lemma set_red_root_pair:
  assumes "cfg s k (N d l p (N c a g b))"
  shows "cfg (set_red p False (set_red g True s)) k (N False l p (N True a g b))"
  using assms cfg_set_red [of s "(False, d, p, l) # k" c a g b True]
    cfg_set_red [of "set_red g True s" k d l p "N True a g b" False] by (simp add: cfg_up)

lemma set_red_root_pair':
  assumes "cfg s k (N d (N c a g b) p r)"
  shows "cfg (set_red p False (set_red g True s)) k (N False (N True a g b) p r)"
  using assms cfg_set_red [of s "(True, d, p, r) # k" c a g b True]
    cfg_set_red [of "set_red g True s" k d "N True a g b" p r False] by (simp add: cfg_up)

lemma insert_fix_left_outer:
  assumes "cfg s k (N c (N True (N True a z b) p o1) g u)"
  shows "cfg (insert_fix_left z p g s) k (N False (N True a z b) p (N True o1 g u))"
proof -
  have "cfg s ((True, True, p, o1) # (True, c, g, u) # k) (N True a z b)" using assms by (simp add: cfg_up)
  then have ne: "z \<noteq> rb_right s p" using cfg_crumb(4) cfg_sib_ne by fastforce
  show ?thesis
    using set_red_root_pair [OF cfg_right_rotate [OF assms, THEN conjunct1]] ne by (simp add: insert_fix_left_def)
qed

lemma insert_fix_left_inner:
  assumes "cfg s k (N c (N True o1 p (N True a z b)) g u)"
  shows "cfg (insert_fix_left z p g s) k (N False (N True o1 p a) z (N True b g u))"
proof -
  have c1: "cfg s ((True, c, g, u) # k) (N True o1 p (N True a z b))" using assms by (simp add: cfg_up)
  then have eq: "rb_right s p = z" using cfg_node(4) by fastforce
  let ?s = "rbtree_left_rotate p s"
  have c2: "cfg ?s ((True, c, g, u) # k) (N True (N True o1 p a) z b)" using cfg_left_rotate [OF c1] by simp
  then have par: "rb_parent ?s p = z"
    using cfg_node(1) [of ?s "(True, True, z, b) # (True, c, g, u) # k" True o1 p a] by (simp add: cfg_up)
  have "cfg ?s k (N c (N True (N True o1 p a) z b) g u)" using c2 by (simp add: cfg_up)
  then show ?thesis
    using set_red_root_pair [OF cfg_right_rotate [THEN conjunct1]] eq par by (simp add: insert_fix_left_def Let_def)
qed

lemma insert_fix_right_outer:
  assumes "cfg s k (N c u g (N True o1 p (N True a z b)))"
  shows "cfg (insert_fix_right z p g s) k (N False (N True u g o1) p (N True a z b))"
proof -
  have "cfg s ((False, True, p, o1) # (False, c, g, u) # k) (N True a z b)" using assms by (simp add: cfg_up)
  then have ne: "z \<noteq> rb_left s p" using cfg_crumb(3) cfg_sib_ne by fastforce
  show ?thesis
    using set_red_root_pair' [OF cfg_left_rotate [OF assms, THEN conjunct1]] ne by (simp add: insert_fix_right_def)
qed

lemma insert_fix_right_inner:
  assumes "cfg s k (N c u g (N True (N True a z b) p o1))"
  shows "cfg (insert_fix_right z p g s) k (N False (N True u g a) z (N True b p o1))"
proof -
  have c1: "cfg s ((False, c, g, u) # k) (N True (N True a z b) p o1)" using assms by (simp add: cfg_up)
  then have eq: "rb_left s p = z" using cfg_node(3) by fastforce
  let ?s = "rbtree_right_rotate p s"
  have c2: "cfg ?s ((False, c, g, u) # k) (N True a z (N True b p o1))" using cfg_right_rotate [OF c1] by simp
  then have par: "rb_parent ?s p = z"
    using cfg_node(1) [of ?s "(False, True, z, a) # (False, c, g, u) # k" True b p o1] by (simp add: cfg_up)
  have "cfg ?s k (N c u g (N True a z (N True b p o1)))" using c2 by (simp add: cfg_up)
  then show ?thesis
    using set_red_root_pair' [OF cfg_left_rotate [THEN conjunct1]] eq par by (simp add: insert_fix_right_def Let_def)
qed

text \<open>A node below a black one ends the loop.\<close>

lemma insert_fixup_done:
  assumes "cfg s ((d, False, q, o') # k) (N c l x r)"
  shows "rbtree_insert_fixup x s = Some s"
  using cfg_node(1) [OF assms] cfg_crumb(2) [OF assms] cfg_root [OF assms]
  by (subst rbtree_insert_fixup.simps) simp

definition root_black :: "crumb list \<Rightarrow> bool" where
  "root_black k = (k \<noteq> [] \<longrightarrow> \<not> fst (snd (last k)))"

lemma recolour:
  assumes "cfg s ((d1, c1, p, o1) # (d2, c, g, N cu ul w ur) # k) t"
  defines "pt \<equiv> (if d1 then N False t p o1 else N False o1 p t)"
  shows "cfg (set_red p False (set_red w False (set_red g True s))) k
    (if d2 then N True pt g (N False ul w ur) else N True (N False ul w ur) g pt)"
proof -
  let ?p = "if d1 then N c1 t p o1 else N c1 o1 p t"
  let ?s1 = "set_red g True s"
  have 1: "cfg ?s1 k (if d2 then N True ?p g (N cu ul w ur) else N True (N cu ul w ur) g ?p)"
    using assms(1) by (cases d2) (simp_all add: cfg_up cfg_set_red)
  have 2: "cfg (set_red w False ?s1) ((\<not> d2, True, g, ?p) # k) (N False ul w ur)"
    using 1 by (intro cfg_set_red [of _ _ cu]) (auto simp: cfg_up)
  have "cfg (set_red w False ?s1) ((d2, True, g, N False ul w ur) # k) ?p"
    using 2 by (cases d2) (simp_all add: cfg_up)
  then have "cfg (set_red p False (set_red w False ?s1)) ((d2, True, g, N False ul w ur) # k) pt"
    unfolding pt_def by (cases d1) (simp_all add: cfg_set_red)
  then show ?thesis by (cases d2) (simp_all add: cfg_up)
qed

lemma insert_fixup_ifix:
  "cfg s k (N True a z b) \<Longrightarrow> root_black k \<Longrightarrow>
    \<exists>s'. rbtree_insert_fixup z s = Some s' \<and> cfg s' [] (ifix k a z b) \<and> rb_nil s' = rb_nil s"
proof (induction k a z b arbitrary: s rule: ifix.induct)
  case (1 a z b)
  then show ?case
    using cfg_set_red [of s "[]" True a z b False] cfg_root [OF "1.prems"(1)] by (subst rbtree_insert_fixup.simps) simp
next
  case (2 d p o1 k a z b)
  then show ?case using insert_fixup_done [OF "2.prems"(1)] by (simp add: cfg_plug cfg_up)
next
  case (3 d p o1 a z b)
  then show ?case by (simp add: root_black_def)
next
  case (4 d1 p o1 d2 c g u k a z b)
  let ?n = "rb_nil s" and ?p = "if d1 then N True (N True a z b) p o1 else N True o1 p (N True a z b)"
  note C = "4.prems"(1)
  have Cp: "cfg s ((d2, c, g, u) # k) ?p" using C by (cases d1) (simp_all add: cfg_up)
  have fields: "rb_parent s z = p" "rb_red s p" "rb_parent s p = g" "z \<noteq> rb_root s"
    "rb_left s g = (if d2 then p else rt ?n u)" "rb_right s g = (if d2 then rt ?n u else p)"
    "rt ?n u \<noteq> p" "rb_red s (rt ?n u) = (case u of Lf \<Rightarrow> False | N cu _ _ _ \<Rightarrow> cu)"
    using cfg_node [OF C] cfg_crumb [OF C] cfg_root [OF C] cfg_crumb [OF Cp] cfg_sib_red [OF Cp]
      cfg_sib_ne [of s d2 c g u k] Cp by (auto split: if_splits)
  have side: "(z = rb_right s p) = (\<not> d1)" "(z = rb_left s p) = d1"
    using cfg_crumb(3,4) [OF C] cfg_sib_ne [OF C] by auto
  show ?case
  proof (cases "\<exists>ul w ur. u = N True ul w ur")
    case True
    then obtain ul w ur where u: "u = N True ul w ur" by blast
    let ?s = "set_red p False (set_red w False (set_red g True s))"
    have step: "rbtree_insert_fixup z s = rbtree_insert_fixup g ?s"
      using fields u by (subst rbtree_insert_fixup.simps) (auto simp: Let_def)
    have rbk: "root_black k" using "4.prems"(2) by (auto simp: root_black_def split: if_splits)
    let ?pt = "if d1 then N False (N True a z b) p o1 else N False o1 p (N True a z b)" and ?ut = "N False ul w ur"
    have ih: "\<exists>s'. rbtree_insert_fixup g ?s = Some s' \<and>
        cfg s' [] (if d2 then ifix k ?pt g ?ut else ifix k ?ut g ?pt) \<and> rb_nil s' = rb_nil ?s"
    proof (cases d2)
      case True
      then have "cfg ?s k (N True ?pt g ?ut)" using recolour [OF C [unfolded u]] by simp
      from "4.IH"(1) [OF u _ _ _ True this rbk] True show ?thesis by simp
    next
      case False
      then have "cfg ?s k (N True ?ut g ?pt)" using recolour [OF C [unfolded u]] by simp
      from "4.IH"(2) [OF u _ _ _ False this rbk] False show ?thesis by simp
    qed
    then show ?thesis unfolding step using u by (simp add: Let_def)
  next
    case False
    let ?T = "if d2 then if d1 then N False (N True a z b) p (N True o1 g u) else N False (N True o1 p a) z (N True b g u)
      else if d1 then N False (N True u g a) z (N True b p o1) else N False (N True u g o1) p (N True a z b)"
    let ?s = "if d2 then insert_fix_left z p g s else insert_fix_right z p g s"
    let ?z = "if d1 = d2 then z else p"
    have nored: "\<not> rb_red s (rt ?n u)" using fields(8) False by (auto split: ct.splits)
    have step: "rbtree_insert_fixup z s = rbtree_insert_fixup ?z ?s"
      using fields nored side by (subst rbtree_insert_fixup.simps) (auto simp: Let_def)
    have cT: "cfg ?s k ?T"
      using C insert_fix_left_outer insert_fix_left_inner insert_fix_right_outer insert_fix_right_inner
      by (cases d1; cases d2) (simp_all add: cfg_up)
    have "rbtree_insert_fixup ?z ?s = Some ?s"
      using cT
      by (cases d1; cases d2)
        (auto intro: insert_fixup_done [where d = True] insert_fixup_done [where d = False] simp: cfg_up)
    moreover have "ifix ((d1, True, p, o1) # (d2, c, g, u) # k) a z b = plug k ?T"
      using False by (cases u) (auto split: bool.splits)
    ultimately show ?thesis unfolding step using cT by (simp add: cfg_plug)
  qed
qed

section \<open>Colours and black heights\<close>

fun blk :: "ct \<Rightarrow> bool" where
  "blk Lf = True"
| "blk (N c l x r) = (\<not> c)"

fun bh :: "ct \<Rightarrow> nat" where
  "bh Lf = 0"
| "bh (N c l x r) = bh l + (if c then 0 else 1)"

text \<open>No red node has a red child, and all paths down have the same number of black nodes.\<close>

fun rbi :: "ct \<Rightarrow> bool" where
  "rbi Lf = True"
| "rbi (N c l x r) = (rbi l \<and> rbi r \<and> bh l = bh r \<and> (c \<longrightarrow> blk l \<and> blk r))"

definition rbt_ok :: "ct \<Rightarrow> bool" where "rbt_ok t = (rbi t \<and> blk t)"

text \<open>A context that makes a red-black tree of a subtree of black height \<open>n\<close>.\<close>

definition hdblk :: "crumb list \<Rightarrow> bool" where
  "hdblk k = (case k of [] \<Rightarrow> False | (d, c, q, t) # _ \<Rightarrow> \<not> c)"

fun okk :: "crumb list \<Rightarrow> nat \<Rightarrow> bool" where
  "okk [] n = True"
| "okk ((d, c, q, t) # k) n = (rbi t \<and> bh t = n \<and> (c \<longrightarrow> blk t \<and> hdblk k) \<and> okk k (n + (if c then 0 else 1)))"

lemma rbt_ok_plug: "rbi t \<Longrightarrow> okk k (bh t) \<Longrightarrow> blk t \<or> hdblk k \<Longrightarrow> rbt_ok (plug k t)"
proof (induction k t rule: plug.induct)
  case (2 d c q o' k t)
  then show ?case by (cases c; cases d) (auto simp: hdblk_def)
qed (auto simp: rbt_ok_def hdblk_def)

lemma plug_okk: "rbt_ok (plug k t) \<Longrightarrow> rbi t \<and> okk k (bh t) \<and> (blk t \<or> hdblk k)"
proof (induction k t rule: plug.induct)
  case (2 d c q o' k t)
  then show ?case by (cases c; cases d) (auto simp: hdblk_def)
qed (auto simp: rbt_ok_def)

lemma okk_root_black: "okk k n \<Longrightarrow> root_black k"
proof (induction k n rule: okk.induct)
  case (2 d c q t k n)
  then show ?case by (cases "k = []") (auto simp: root_black_def hdblk_def)
qed (simp add: root_black_def)

text \<open>The nodes before and after the hole of a context.\<close>

fun kl :: "crumb list \<Rightarrow> nat list" where
  "kl [] = []"
| "kl ((d, c, q, t) # k) = kl k @ (if d then [] else inord t @ [q])"

fun kr :: "crumb list \<Rightarrow> nat list" where
  "kr [] = []"
| "kr ((d, c, q, t) # k) = (if d then q # inord t else []) @ kr k"

lemma inord_plug: "inord (plug k t) = kl k @ inord t @ kr k"
  by (induction k t rule: plug.induct) auto

lemma inord_ifix: "root_black k \<Longrightarrow> inord (ifix k a z b) = inord (plug k (N True a z b))"
proof (induction k a z b rule: ifix.induct)
  case (4 d1 p o1 d2 c g u k a z b)
  have rbk: "root_black k" using "4.prems" by (auto simp: root_black_def split: if_splits)
  show ?case
  proof (cases "\<exists>ul w ur. u = N True ul w ur")
    case True
    then show ?thesis using "4.IH" rbk by (auto simp: Let_def inord_plug)
  next
    case False
    then show ?thesis by (cases u) (auto simp: inord_plug split: bool.splits)
  qed
qed (auto simp: root_black_def)

lemma ifix_ok:
  "okk k n \<Longrightarrow> rbi a \<Longrightarrow> rbi b \<Longrightarrow> bh a = n \<Longrightarrow> bh b = n \<Longrightarrow> blk a \<Longrightarrow> blk b \<Longrightarrow> rbt_ok (ifix k a z b)"
proof (induction k a z b arbitrary: n rule: ifix.induct)
  case (1 a z b)
  then show ?case by (simp add: rbt_ok_def)
next
  case (2 d p o1 k a z b)
  then show ?case using rbt_ok_plug [of "N True a z b" "(d, False, p, o1) # k"] by (simp add: hdblk_def)
next
  case (3 d p o1 a z b)
  then show ?case by (simp add: hdblk_def)
next
  case (4 d1 p o1 d2 c g u k a z b)
  have c: "\<not> c" using "4.prems"(1) by (simp add: hdblk_def)
  show ?case
  proof (cases "\<exists>ul w ur. u = N True ul w ur")
    case True
    then show ?thesis using "4.IH" [of _ _ _ _ _ _ "Suc n"] "4.prems" c by (auto simp: Let_def)
  next
    case False
    then have u: "blk u" by (cases u) auto
    let ?T = "if d2 then if d1 then N False (N True a z b) p (N True o1 g u) else N False (N True o1 p a) z (N True b g u)
      else if d1 then N False (N True u g a) z (N True b p o1) else N False (N True u g o1) p (N True a z b)"
    have "ifix ((d1, True, p, o1) # (d2, c, g, u) # k) a z b = plug k ?T"
      using False by (cases u) (auto split: bool.splits)
    moreover have "rbi ?T" "bh ?T = Suc n" "blk ?T" using "4.prems" u by auto
    ultimately show ?thesis using rbt_ok_plug [of ?T k] "4.prems"(1) c by simp
  qed
qed

section \<open>Where insertion puts a node\<close>

fun desc :: "(nat \<Rightarrow> nat \<Rightarrow> int) \<Rightarrow> nat \<Rightarrow> crumb list \<Rightarrow> ct \<Rightarrow> crumb list" where
  "desc cmp z k Lf = k"
| "desc cmp z k (N c l x r) =
     (if cmp z x < 0 then desc cmp z ((True, c, x, r) # k) l else desc cmp z ((False, c, x, l) # k) r)"

lemma insert_pos_desc:
  "cfg s k t \<Longrightarrow> rb_insert_pos cmp s z (rt (rb_nil s) t) (hp (rb_nil s) k) = Some (hp (rb_nil s) (desc cmp z k t)) \<and>
     cfg s (desc cmp z k t) Lf \<and> plug (desc cmp z k t) Lf = plug k t"
proof (induction cmp z k t rule: desc.induct)
  case (1 cmp z k)
  then show ?case by (subst rb_insert_pos.simps) simp
next
  case (2 cmp z k c l x r)
  note n = cfg_node [OF "2.prems"]
  show ?case
  proof (cases "cmp z x < 0")
    case True
    have "cfg s ((True, c, x, r) # k) l" using "2.prems" by (simp add: cfg_up)
    then show ?thesis using "2.IH"(1) [OF True] True n by (subst rb_insert_pos.simps) simp
  next
    case False
    have "cfg s ((False, c, x, l) # k) r" using "2.prems" by (simp add: cfg_up)
    then show ?thesis using "2.IH"(2) [OF False] False n by (subst rb_insert_pos.simps) simp
  qed
qed

lemma desc_side:
  "t \<noteq> Lf \<or> (k \<noteq> [] \<and> fst (hd k) = (cmp z (hp n k) < 0)) \<Longrightarrow>
     desc cmp z k t \<noteq> [] \<and> fst (hd (desc cmp z k t)) = (cmp z (hp n (desc cmp z k t)) < 0)"
  by (induction cmp z k t rule: desc.induct) auto

lemma desc_order:
  assumes "sorted (map key (kl k @ inord t @ kr k))"
    and "\<And>x. x \<in> set (inord t) \<Longrightarrow> (cmp z x < 0) = (key z < (key x :: 'k :: linorder))"
    and "\<forall>x\<in>set (kl k). key x \<le> key z" "\<forall>x\<in>set (kr k). key z < key x"
  shows "(\<forall>x\<in>set (kl (desc cmp z k t)). key x \<le> key z) \<and> (\<forall>x\<in>set (kr (desc cmp z k t)). key z < key x)"
  using assms
proof (induction cmp z k t rule: desc.induct)
  case (2 cmp z k c l x r)
  show ?case
  proof (cases "cmp z x < 0")
    case True
    then have z: "key z < key x" using "2.prems"(2) by simp
    have "\<forall>y\<in>set (inord r). key x \<le> key y" using "2.prems"(1) by (auto simp: sorted_append)
    then have "\<forall>y\<in>set (kr ((True, c, x, r) # k)). key z < key y" using z "2.prems"(4) by auto
    then show ?thesis using "2.IH"(1) [OF True] True "2.prems" by simp
  next
    case False
    then have z: "key x \<le> key z" using "2.prems"(2) by auto
    have "\<forall>y\<in>set (inord l). key y \<le> key x" using "2.prems"(1) by (auto simp: sorted_append)
    then have "\<forall>y\<in>set (kl ((False, c, x, l) # k)). key y \<le> key z" using z "2.prems"(3) by fastforce
    then show ?thesis using "2.IH"(2) [OF False] False "2.prems" by simp
  qed
qed simp

definition insert_link :: "crumb list \<Rightarrow> nat \<Rightarrow> rbtree \<Rightarrow> rbtree" where
  "insert_link k z s = set_red z True (set_left z (rb_nil s) (set_right z (rb_nil s)
     (set_parent z (hp (rb_nil s) k) (set_child k z s))))"

lemma cfg_insert_link:
  assumes C: "cfg s k Lf" and z: "z \<noteq> rb_nil s" "z \<notin> set (kptrs k)"
  shows "cfg (insert_link k z s) k (N True Lf z Lf)"
proof -
  have "ctx_at (set_child k z s) z k" using C by (auto simp: cfg_def intro: ctx_at_set_child)
  moreover have "same_on (set (kptrs k)) (set_child k z s) (insert_link k z s)"
    using z by (auto simp: same_on_def insert_link_def)
  moreover have "rb_root (insert_link k z s) = rb_root (set_child k z s)" by (simp add: insert_link_def)
  ultimately have "ctx_at (insert_link k z s) z k" by (simp add: ctx_at_frame)
  then show ?thesis using C z by (auto simp: cfg_def insert_link_def)
qed

lemma set_kptrs: "set (kptrs k) = set (kl k) \<union> set (kr k)"
  by (induction k rule: kptrs.induct) auto

text \<open>The store represents a red-black tree with these nodes in order.\<close>

definition rb_rep :: "rbtree \<Rightarrow> nat list \<Rightarrow> bool" where
  "rb_rep s xs = (\<exists>t. cfg s [] t \<and> rbt_ok t \<and> inord t = xs)"

lemma rbtree_insert_rep:
  assumes rep: "rb_rep s xs" and z: "z \<noteq> rb_nil s" "z \<notin> set xs"
    and srt: "sorted (map key xs)" and cmp: "\<And>x. x \<in> set xs \<Longrightarrow> (cmp z x < 0) = (key z < (key x :: 'k :: linorder))"
  shows "\<exists>s'. rbtree_insert cmp z s = Some s' \<and> rb_nil s' = rb_nil s \<and>
    rb_rep s' (takeWhile (\<lambda>x. key x \<le> key z) xs @ z # dropWhile (\<lambda>x. key x \<le> key z) xs)"
proof -
  obtain t where t: "cfg s [] t" "rbt_ok t" "inord t = xs" using rep by (auto simp: rb_rep_def)
  define k where "k = desc cmp z [] t"
  have pos: "rb_insert_pos cmp s z (rb_root s) (rb_nil s) = Some (hp (rb_nil s) k)"
    and ck: "cfg s k Lf" and pl: "plug k Lf = t"
    using insert_pos_desc [OF t(1), of cmp z] t(1) by (auto simp: k_def cfg_def)
  have xs: "xs = kl k @ kr k" using inord_plug [of k Lf] pl t(3) by simp
  have ord: "\<forall>x\<in>set (kl k). key x \<le> key z" "\<forall>x\<in>set (kr k). key z < key x"
    using desc_order [of key "[]" t cmp z] srt cmp t(3) by (auto simp: k_def)
  have zk: "z \<notin> set (kptrs k)" using z xs by (simp add: set_kptrs)
  have nilk: "(hp (rb_nil s) k = rb_nil s) = (k = [])"
    using ck ctx_at_nil [of s "rb_nil s" k] hp_in [of k "rb_nil s"] by (cases "k = []") (auto simp: cfg_def)
  have side: "k \<noteq> [] \<Longrightarrow> fst (hd k) = (cmp z (hp (rb_nil s) k) < 0)"
    using desc_side [of t "[]"] by (cases "t = Lf") (auto simp: k_def)
  have link: "rbtree_insert cmp z s = rbtree_insert_fixup z (insert_link k z s)"
    using nilk side by (cases k rule: kptrs.cases) (auto simp: rbtree_insert_def pos insert_link_def set_child_def)
  have okk: "okk k 0" "blk Lf" using plug_okk [of k Lf] pl t(2) by auto
  obtain s' where s': "rbtree_insert_fixup z (insert_link k z s) = Some s'" "cfg s' [] (ifix k Lf z Lf)"
    "rb_nil s' = rb_nil (insert_link k z s)"
    using insert_fixup_ifix [OF cfg_insert_link [OF ck z(1) zk] okk_root_black [OF okk(1)]] by blast
  have "inord (ifix k Lf z Lf) = kl k @ z # kr k"
    using inord_ifix [OF okk_root_black [OF okk(1)]] by (simp add: inord_plug)
  moreover have "rbt_ok (ifix k Lf z Lf)" using ifix_ok [OF okk(1)] by simp
  moreover have "takeWhile (\<lambda>x. key x \<le> key z) xs = kl k" "dropWhile (\<lambda>x. key x \<le> key z) xs = kr k"
    using ord unfolding xs by (auto simp: takeWhile_append dropWhile_append takeWhile_eq_Nil_iff not_le
        intro!: hd_in_set dropWhile_eq_self_iff [THEN iffD2])
  ultimately show ?thesis using s' link by (auto simp: rb_rep_def insert_link_def)
qed

section \<open>Deletion on trees\<close>

fun paint :: "ct \<Rightarrow> ct" where
  "paint Lf = Lf"
| "paint (N c l x r) = N False l x r"

text \<open>
  The round for a black sibling with the deficient subtree \<open>t\<close> on the left: whether the loop is done, and the
  new subtree in the place of the parent.
\<close>

fun dbal :: "ct \<Rightarrow> bool \<Rightarrow> nat \<Rightarrow> ct \<Rightarrow> bool \<times> ct" where
  "dbal t c p Lf = (True, Lf)"
| "dbal t c p (N d sl w sr) =
     (if \<not> blk sl \<and> blk sr then
        (case sl of N _ a v b \<Rightarrow> (True, N c (N False t p a) v (N False b w sr)) | Lf \<Rightarrow> (True, Lf))
      else if \<not> blk sr then (True, N c (N False t p sl) w (paint sr))
      else (c, N False t p (N True sl w sr)))"

definition dbal2 :: "bool \<Rightarrow> ct \<Rightarrow> bool \<Rightarrow> nat \<Rightarrow> ct \<Rightarrow> bool \<times> ct" where
  "dbal2 d t c p s = (if d then dbal t c p s else map_prod id mt (dbal (mt t) c p (mt s)))"

fun dfix :: "crumb list \<Rightarrow> ct \<Rightarrow> ct" where
  "dfix [] t = paint t"
| "dfix ((d, c, p, s) # k) t =
     (if \<not> blk t then plug ((d, c, p, s) # k) (paint t)
      else case s of
        N True sl w sr \<Rightarrow>
          plug k (if d then N False (snd (dbal2 d t True p sl)) w sr else N False sl w (snd (dbal2 d t True p sr)))
      | _ \<Rightarrow> (let (f, u) = dbal2 d t c p s in if f then plug k u else dfix k u))"

text \<open>The configuration of the loop: a missing node remembers its parent in the sentinel.\<close>

definition cfgx :: "rbtree \<Rightarrow> crumb list \<Rightarrow> ct \<Rightarrow> bool" where
  "cfgx s k t = (cfg s k t \<and> (t = Lf \<longrightarrow> rb_parent s (rb_nil s) = hp (rb_nil s) k))"

lemma cfgx_parent: "cfgx s k t \<Longrightarrow> rb_parent s (rt (rb_nil s) t) = hp (rb_nil s) k"
  by (cases t) (auto simp: cfgx_def cfg_def)

lemma cfgx_root:
  assumes "cfgx s k t"
  shows "(rt (rb_nil s) t = rb_root s) = (k = [])"
proof (cases "k = []")
  case False
  have C: "ctx_at s (rt (rb_nil s) t) k" using assms by (simp add: cfgx_def cfg_def)
  have "rt (rb_nil s) t \<notin> set (kptrs k)"
    using assms ctx_at_nil [OF C] rt_in [of t] by (cases "t = Lf") (auto simp: cfgx_def cfg_def)
  then show ?thesis using ctx_root [OF C False] False by auto
qed (use assms in \<open>auto simp: cfgx_def cfg_def\<close>)

lemma cfg_red_blk: "cfg s k t \<Longrightarrow> rb_red s (rt (rb_nil s) t) = (\<not> blk t)"
  by (cases t) (auto simp: cfg_def)

lemma cfg_paint: "cfg s k t \<Longrightarrow> cfg (set_red (rt (rb_nil s) t) False s) k (paint t)"
proof (cases t)
  case Lf
  assume "cfg s k t"
  moreover have "set_red (rb_nil s) False s = s" if "\<not> rb_red s (rb_nil s)"
    using that by (simp add: set_red_def fun_upd_idem)
  ultimately show ?thesis using Lf by (simp add: cfg_def)
qed (auto intro: cfg_set_red)

lemma rotate_and_swap:
  assumes "cfg s k (N c t p (N False a v (N True e1 y e2)))"
  shows "cfg (set_red y False (swap_colors p v (rbtree_left_rotate p s))) k (N c (N False t p a) v (N False e1 y e2))"
proof -
  let ?s = "rbtree_left_rotate p s"
  have 1: "cfg ?s k (N False (N c t p a) v (N True e1 y e2))" using cfg_left_rotate [OF assms] by simp
  then have red: "rb_red ?s v = False" "rb_red ?s p = c"
    using cfg_node(2) [OF 1] cfg_node(2) [of ?s "(True, False, v, N True e1 y e2) # k" c t p a] by (simp_all add: cfg_up)
  have "cfg (set_red p False ?s) k (N False (N False t p a) v (N True e1 y e2))"
    using 1 cfg_set_red [of ?s "(True, False, v, N True e1 y e2) # k" c t p a False] by (simp add: cfg_up)
  then have "cfg (swap_colors p v ?s) k (N c (N False t p a) v (N True e1 y e2))"
    using cfg_set_red red by (simp add: swap_colors_def Let_def)
  then show ?thesis
    using cfg_set_red [of _ "(False, c, v, N False t p a) # k" True e1 y e2 False] by (simp add: cfg_up)
qed

lemma sibling_fields:
  assumes "cfg s k (N c t p (N d sl w sr))"
  shows "rb_right s p = w" "rb_right s w = rt (rb_nil s) sr" "rb_left s w = rt (rb_nil s) sl" "rb_red s w = d" "rb_red s p = c"
    "rb_red s (rt (rb_nil s) sl) = (\<not> blk sl)" "rb_red s (rt (rb_nil s) sr) = (\<not> blk sr)"
proof -
  have w: "cfg s ((False, c, p, t) # k) (N d sl w sr)" using assms by (simp add: cfg_up)
  have l: "cfg s ((True, d, w, sr) # (False, c, p, t) # k) sl" and r: "cfg s ((False, d, w, sl) # (False, c, p, t) # k) sr"
    using assms by (simp_all add: cfg_up)
  show "rb_right s p = w" "rb_right s w = rt (rb_nil s) sr" "rb_left s w = rt (rb_nil s) sl" "rb_red s w = d" "rb_red s p = c"
    using cfg_node [OF w] cfg_node [OF assms] by simp_all
  show "rb_red s (rt (rb_nil s) sl) = (\<not> blk sl)" "rb_red s (rt (rb_nil s) sr) = (\<not> blk sr)"
    using cfg_red_blk [OF l] cfg_red_blk [OF r] by simp_all
qed

lemma delete_black_left_cfg:
  assumes C: "cfg s k (N c t p (N False sl w sr))"
  shows "\<exists>s'. delete_black_left x p s = (if fst (dbal t c p (N False sl w sr)) then None else Some p, s') \<and>
    cfg s' k (snd (dbal t c p (N False sl w sr))) \<and> rb_nil s' = rb_nil s"
proof -
  note f = sibling_fields [OF C]
  consider (inner) "\<not> blk sl" "blk sr" | (outer) "\<not> blk sr" | (black) "blk sl" "blk sr" by auto
  then show ?thesis
  proof cases
    case inner
    then obtain a v b where sl: "sl = N True a v b" by (cases sl) auto
    let ?s = "set_red v False (set_red w True (rbtree_right_rotate w s))"
    have "cfg s ((False, c, p, t) # k) (N False (N True a v b) w sr)" using C sl by (simp add: cfg_up)
    then have "cfg ?s ((False, c, p, t) # k) (N False a v (N True b w sr))"
      using set_red_root_pair [OF cfg_right_rotate [THEN conjunct1]] by blast
    then have C1: "cfg ?s k (N c t p (N False a v (N True b w sr)))" by (simp add: cfg_up)
    note f1 = sibling_fields [OF C1]
    have "delete_black_left x p s = (None, set_red w False (swap_colors p v (rbtree_left_rotate p ?s)))"
      using f f1 inner sl by (auto simp: delete_black_left_def Let_def split: if_splits)
    then show ?thesis using rotate_and_swap [OF C1] inner sl by (simp add: swap_colors_def Let_def)
  next
    case outer
    then obtain e1 y e2 where sr: "sr = N True e1 y e2" by (cases sr) auto
    have "delete_black_left x p s = (None, set_red y False (swap_colors p w (rbtree_left_rotate p s)))"
      using f outer sr by (simp add: delete_black_left_def Let_def)
    then show ?thesis using rotate_and_swap [of s k c t p sl w e1 y e2] C outer sr by (simp add: swap_colors_def Let_def)
  next
    case black
    have run: "delete_black_left x p s =
        (if c then (None, set_red p False (set_red w True s)) else (Some p, set_red w True s))"
      using f black by (simp add: delete_black_left_def Let_def)
    show ?thesis
    proof (cases c)
      case True
      then show ?thesis using run black set_red_root_pair [OF C] by simp
    next
      case False
      have "cfg (set_red w True s) k (N c t p (N True sl w sr))"
        using C cfg_set_red [of s "(False, c, p, t) # k" False sl w sr True] by (simp add: cfg_up)
      then show ?thesis using run black False by simp
    qed
  qed
qed

text \<open>The round on the other side, on the mirror image.\<close>

lemma rotate_and_swap':
  assumes "cfg s k (N c (N False (N True e1 y e2) v a) p t)"
  shows "cfg (set_red y False (swap_colors p v (rbtree_right_rotate p s))) k (N c (N False e1 y e2) v (N False a p t))"
proof -
  have "cfg (mirror s) (mk k) (N c (mt t) p (N False (mt a) v (N True (mt e2) y (mt e1))))"
    using assms by (simp add: cfg_mirror')
  from rotate_and_swap [OF this] show ?thesis
    by (subst cfg_mirror [symmetric]) (simp add: right_rotate_mirror [OF assms] swap_colors_def Let_def)
qed

lemma sibling_fields':
  assumes "cfg s k (N c (N d sl w sr) p t)"
  shows "rb_left s p = w" "rb_right s w = rt (rb_nil s) sr" "rb_left s w = rt (rb_nil s) sl" "rb_red s w = d" "rb_red s p = c"
    "rb_red s (rt (rb_nil s) sl) = (\<not> blk sl)" "rb_red s (rt (rb_nil s) sr) = (\<not> blk sr)" "w \<noteq> p"
proof -
  have "cfg (mirror s) (mk k) (N c (mt t) p (N d (mt sr) w (mt sl)))" using assms by (simp add: cfg_mirror')
  moreover have "blk (mt u) = blk u" for u by (cases u) auto
  moreover have "w \<noteq> p" using assms by (auto simp: cfg_def)
  ultimately show "rb_left s p = w" "rb_right s w = rt (rb_nil s) sr" "rb_left s w = rt (rb_nil s) sl" "rb_red s w = d"
    "rb_red s p = c" "rb_red s (rt (rb_nil s) sl) = (\<not> blk sl)" "rb_red s (rt (rb_nil s) sr) = (\<not> blk sr)" "w \<noteq> p"
    using sibling_fields [of "mirror s" "mk k" c "mt t" p d "mt sr" w "mt sl"] by simp_all
qed

lemma blk_mt [simp]: "blk (mt t) = blk t"
  by (cases t) auto

lemma set_red_commute: "x \<noteq> y \<Longrightarrow> set_red x c (set_red y d s) = set_red y d (set_red x c s)"
  by (simp add: set_red_def fun_upd_twist)

lemma delete_black_right_cfg:
  assumes C: "cfg s k (N c (N False sl w sr) p t)"
  shows "\<exists>s'. delete_black_right x p s = (if fst (dbal2 False t c p (N False sl w sr)) then None else Some p, s') \<and>
    cfg s' k (snd (dbal2 False t c p (N False sl w sr))) \<and> rb_nil s' = rb_nil s"
proof -
  note f = sibling_fields' [OF C]
  consider (inner) "\<not> blk sr" "blk sl" | (outer) "\<not> blk sl" | (black) "blk sl" "blk sr" by auto
  then show ?thesis
  proof cases
    case inner
    then obtain a v b where sr: "sr = N True a v b" by (cases sr) auto
    let ?s = "set_red v False (set_red w True (rbtree_left_rotate w s))"
    have "cfg s ((True, c, p, t) # k) (N False sl w (N True a v b))" using C sr by (simp add: cfg_up)
    then have "cfg ?s ((True, c, p, t) # k) (N False (N True sl w a) v b)"
      using set_red_root_pair' [OF cfg_left_rotate [THEN conjunct1]] by blast
    then have C1: "cfg ?s k (N c (N False (N True sl w a) v b) p t)" by (simp add: cfg_up)
    note f1 = sibling_fields' [OF C1]
    have "delete_black_right x p s = (None, set_red w False (swap_colors p v (rbtree_right_rotate p ?s)))"
      using f f1 inner sr by (auto simp: delete_black_right_def Let_def split: if_splits)
    then show ?thesis using rotate_and_swap' [OF C1] inner sr by (simp add: swap_colors_def Let_def dbal2_def)
  next
    case outer
    then obtain e1 y e2 where sl: "sl = N True e1 y e2" by (cases sl) auto
    have "delete_black_right x p s = (None, set_red y False (swap_colors p w (rbtree_right_rotate p s)))"
      using f outer sl by (simp add: delete_black_right_def Let_def)
    then show ?thesis using rotate_and_swap' [of s k c e1 y e2 w sr p t] C outer sl
      by (simp add: swap_colors_def Let_def dbal2_def)
  next
    case black
    have run: "delete_black_right x p s =
        (if c then (None, set_red p False (set_red w True s)) else (Some p, set_red w True s))"
      using f black by (simp add: delete_black_right_def Let_def set_red_commute)
    show ?thesis
    proof (cases c)
      case True
      then show ?thesis using run black set_red_root_pair' [OF C] by (simp add: dbal2_def)
    next
      case False
      have "cfg (set_red w True s) k (N c (N True sl w sr) p t)"
        using C cfg_set_red [of s "(True, c, p, t) # k" False sl w sr True] by (simp add: cfg_up)
      then show ?thesis using run black False by (simp add: dbal2_def)
    qed
  qed
qed

text \<open>Each round of the loop, on the configuration it starts from.\<close>

lemma delete_fixup_enter:
  assumes C: "cfgx s ((d, c, p, N e sl w sr) # k) t" and b: "blk t"
  shows "rb_parent s (rt (rb_nil s) t) = p" "rt (rb_nil s) t \<noteq> rb_root s" "\<not> rb_red s (rt (rb_nil s) t)"
    "(rt (rb_nil s) t = rb_left s p) = d" "(if d then rb_right s p else rb_left s p) = w" "rb_red s w = e"
proof -
  have C': "cfg s ((d, c, p, N e sl w sr) # k) t" using C by (simp add: cfgx_def)
  show "rb_parent s (rt (rb_nil s) t) = p" using cfgx_parent [OF C] by simp
  show "rt (rb_nil s) t \<noteq> rb_root s" using cfgx_root [OF C] by simp
  show "\<not> rb_red s (rt (rb_nil s) t)" using cfg_red_blk [OF C'] b by simp
  have w: "w \<noteq> rb_nil s" "rb_red s w = e" using C' by (auto simp: cfg_def)
  show "rb_red s w = e" by (fact w(2))
  have "w \<noteq> rt (rb_nil s) t" using w(1) cfg_sib_ne [of s d c p "N e sl w sr"] C' by (cases t) auto
  then show "(rt (rb_nil s) t = rb_left s p) = d" using cfg_crumb [OF C'] by auto
  show "(if d then rb_right s p else rb_left s p) = w" using cfg_crumb [OF C'] by auto
qed

lemma delete_fixup_black:
  assumes C: "cfgx s ((d, c, p, N False sl w sr) # k) t" and b: "blk t"
  shows "\<exists>s'. rbtree_delete_fixup (rt (rb_nil s) t) s =
      (if fst (dbal2 d t c p (N False sl w sr)) then Some s' else rbtree_delete_fixup p s') \<and>
    cfg s' k (snd (dbal2 d t c p (N False sl w sr))) \<and> rb_nil s' = rb_nil s"
proof (cases d)
  case True
  have "cfg s k (N c t p (N False sl w sr))" using C True by (simp add: cfgx_def cfg_up)
  from delete_black_left_cfg [OF this, of "rt (rb_nil s) t"] show ?thesis
    using delete_fixup_enter [OF C b] True
    by (subst rbtree_delete_fixup.simps) (auto simp: dbal2_def)
next
  case False
  have "cfg s k (N c (N False sl w sr) p t)" using C False by (simp add: cfgx_def cfg_up)
  from delete_black_right_cfg [OF this, of "rt (rb_nil s) t"] show ?thesis
    using delete_fixup_enter [OF C b] False
    by (subst rbtree_delete_fixup.simps) auto
qed

lemma delete_fixup_red:
  assumes C: "cfgx s ((d, c, p, N True sl w sr) # k) t" and b: "blk t"
  shows "\<exists>s'. rbtree_delete_fixup (rt (rb_nil s) t) s = rbtree_delete_fixup (rt (rb_nil s) t) s' \<and> rb_nil s' = rb_nil s \<and>
    cfgx s' ((d, True, p, if d then sl else sr) # (d, False, w, if d then sr else sl) # k) t"
proof (cases d)
  case True
  let ?s = "rbtree_left_rotate p s"
  have "cfg s k (N c t p (N True sl w sr))" using C True by (simp add: cfgx_def cfg_up)
  note r = cfg_left_rotate [OF this]
  have "cfg (set_red w False (set_red p True ?s)) k (N False (N True t p sl) w sr)"
    using set_red_root_pair' r by blast
  then have "cfgx (set_red w False (set_red p True ?s)) ((d, True, p, sl) # (d, False, w, sr) # k) t"
    using r C True by (auto simp: cfgx_def cfg_up)
  moreover have "rbtree_delete_fixup (rt (rb_nil s) t) s =
      rbtree_delete_fixup (rt (rb_nil s) t) (set_red w False (set_red p True ?s))"
    using delete_fixup_enter [OF C b] True by (subst rbtree_delete_fixup.simps) auto
  ultimately show ?thesis using True by (intro exI [of _ "set_red w False (set_red p True ?s)"]) simp
next
  case False
  let ?s = "rbtree_right_rotate p s"
  have "cfg s k (N c (N True sl w sr) p t)" using C False by (simp add: cfgx_def cfg_up)
  note r = cfg_right_rotate [OF this]
  have "cfg (set_red w False (set_red p True ?s)) k (N False sl w (N True sr p t))"
    using set_red_root_pair r by blast
  then have "cfgx (set_red w False (set_red p True ?s)) ((d, True, p, sr) # (d, False, w, sl) # k) t"
    using r C False by (auto simp: cfgx_def cfg_up)
  moreover have "rbtree_delete_fixup (rt (rb_nil s) t) s =
      rbtree_delete_fixup (rt (rb_nil s) t) (set_red w False (set_red p True ?s))"
    using delete_fixup_enter [OF C b] False by (subst rbtree_delete_fixup.simps) auto
  ultimately show ?thesis using False by (intro exI [of _ "set_red w False (set_red p True ?s)"]) simp
qed

text \<open>The round on trees keeps the nodes and, when it is the last one, restores the black height.\<close>

lemma rbi_mt [simp]: "rbi t \<Longrightarrow> rbi (mt t)" "rbi t \<Longrightarrow> bh (mt t) = bh t"
  by (induction t) auto

lemma dbal_ok:
  assumes "rbi t" "rbi (N False sl w sr)" "bh sl = bh t"
  shows "rbi (snd (dbal t c p (N False sl w sr))) \<and>
    inord (snd (dbal t c p (N False sl w sr))) = inord t @ p # inord (N False sl w sr) \<and>
    bh (snd (dbal t c p (N False sl w sr))) =
      (if fst (dbal t c p (N False sl w sr)) \<and> \<not> c then Suc (Suc (bh t)) else Suc (bh t)) \<and>
    (blk (snd (dbal t c p (N False sl w sr))) \<or> c) \<and> (c \<longrightarrow> fst (dbal t c p (N False sl w sr))) \<and>
    (\<not> fst (dbal t c p (N False sl w sr)) \<longrightarrow> rt n (snd (dbal t c p (N False sl w sr))) = p)"
  using assms by (cases sl; cases sr) (auto split: if_splits)

lemma dbal2_ok:
  assumes "rbi t" "rbi (N False sl w sr)" "bh sl = bh t"
  shows "rbi (snd (dbal2 d t c p (N False sl w sr))) \<and>
    inord (snd (dbal2 d t c p (N False sl w sr))) = inord (plug [(d, c, p, N False sl w sr)] t) \<and>
    bh (snd (dbal2 d t c p (N False sl w sr))) =
      (if fst (dbal2 d t c p (N False sl w sr)) \<and> \<not> c then Suc (Suc (bh t)) else Suc (bh t)) \<and>
    (blk (snd (dbal2 d t c p (N False sl w sr))) \<or> c) \<and> (c \<longrightarrow> fst (dbal2 d t c p (N False sl w sr))) \<and>
    (\<not> fst (dbal2 d t c p (N False sl w sr)) \<longrightarrow> rt n (snd (dbal2 d t c p (N False sl w sr))) = p)"
proof (cases d)
  case True
  then show ?thesis using dbal_ok [OF assms] by (simp add: dbal2_def)
next
  case False
  then show ?thesis using dbal_ok [of "mt t" "mt sr" w "mt sl" c p n] assms
    by (cases c) (simp_all add: dbal2_def del: dbal.simps)
qed

lemma dbal2_done: "fst (dbal2 d t True p (N False sl w sr))"
  by (simp add: dbal2_def split: ct.splits)

lemma okk_sibling:
  assumes "okk ((d, c, p, o') # k) (Suc n)"
  obtains e sl w sr where "o' = N e sl w sr" "rbi o'" "bh sl = (if e then Suc n else n)" "bh sr = bh sl"
    "e \<longrightarrow> \<not> c \<and> blk sl \<and> blk sr"
  using assms by (cases o') (auto split: if_splits)

lemma dfix_ok:
  "rbi t \<Longrightarrow> okk k (Suc (bh t)) \<Longrightarrow> rbt_ok (dfix k t) \<and> inord (dfix k t) = inord (plug k t)"
proof (induction k arbitrary: t rule: kptrs.induct)
  case 1
  then show ?case by (cases t) (auto simp: rbt_ok_def)
next
  case (2 d c p s k t)
  show ?case
  proof (cases "blk t")
    case False
    then have "rbi (paint t)" "bh (paint t) = Suc (bh t)" "inord (paint t) = inord t" "blk (paint t)"
      using "2.prems"(1) by (cases t; auto)+
    then show ?thesis
      using False rbt_ok_plug [of "paint t" "(d, c, p, s) # k"] "2.prems"(2) inord_plug [of "(d, c, p, s) # k"]
      by (simp del: okk.simps plug.simps)
  next
    case True
    obtain e sl w sr where s: "s = N e sl w sr" and i: "rbi s" "bh sl = (if e then Suc (bh t) else bh t)" "bh sr = bh sl"
      and e: "e \<longrightarrow> \<not> c \<and> blk sl \<and> blk sr" using okk_sibling [OF "2.prems"(2)] by blast
    show ?thesis
    proof (cases e)
      case True
      obtain al v ar where near: "(if d then sl else sr) = N False al v ar" "rbi (N False al v ar)" "bh al = bh t"
        using i s e True by (cases "if d then sl else sr") (auto split: if_splits)
      note b = dbal2_ok [OF "2.prems"(1) near(2,3), where d = d and c = True and p = p]
      have "rbt_ok (plug k (if d then N False (snd (dbal2 d t True p sl)) w sr else N False sl w (snd (dbal2 d t True p sr))))"
        using b near i s e True "2.prems"(2) by (intro rbt_ok_plug) (auto split: if_splits)
      then show ?thesis using True s \<open>blk t\<close> b near by (auto simp: inord_plug split: if_splits)
    next
      case False
      let ?b = "dbal2 d t c p s"
      have b: "rbi (snd ?b)" "inord (snd ?b) = inord (plug [(d, c, p, s)] t)"
        "bh (snd ?b) = (if fst ?b \<and> \<not> c then Suc (Suc (bh t)) else Suc (bh t))" "blk (snd ?b) \<or> c" "c \<longrightarrow> fst ?b"
        using dbal2_ok [OF "2.prems"(1), of sl w sr d c p] i s False by auto
      have d: "dfix ((d, c, p, s) # k) t = (if fst ?b then plug k (snd ?b) else dfix k (snd ?b))"
        using s False \<open>blk t\<close> by (simp add: case_prod_beta)
      show ?thesis
      proof (cases "fst ?b")
        case True
        then have "rbt_ok (plug k (snd ?b))" using b "2.prems"(2) by (intro rbt_ok_plug) (auto simp: hdblk_def)
        then show ?thesis using True d b(2) by (simp add: inord_plug)
      next
        case F: False
        have "rbt_ok (dfix k (snd ?b)) \<and> inord (dfix k (snd ?b)) = inord (plug k (snd ?b))"
          using "2.IH" [OF b(1)] F b "2.prems"(2) by (cases c) simp_all
        then show ?thesis using F d b(2) by (simp add: inord_plug)
      qed
    qed
  qed
qed

lemma delete_fixup_dfix:
  "cfgx s k t \<Longrightarrow> okk k (Suc (bh t)) \<Longrightarrow> rbi t \<Longrightarrow>
    \<exists>s'. rbtree_delete_fixup (rt (rb_nil s) t) s = Some s' \<and> cfg s' [] (dfix k t) \<and> rb_nil s' = rb_nil s"
proof (induction k arbitrary: s t rule: kptrs.induct)
  case 1
  then show ?case using cfgx_root [of s "[]" t] cfg_paint [of s "[]" t]
    by (subst rbtree_delete_fixup.simps) (auto simp: cfgx_def)
next
  case (2 d c p o' k)
  show ?case
  proof (cases "blk t")
    case False
    have C: "cfg s ((d, c, p, o') # k) t" using "2.prems"(1) by (simp add: cfgx_def)
    have "cfg (set_red (rt (rb_nil s) t) False s) [] (plug ((d, c, p, o') # k) (paint t))"
      using cfg_paint [OF C] by (simp only: cfg_plug)
    then show ?thesis using cfg_red_blk [OF C] False by (subst rbtree_delete_fixup.simps) auto
  next
    case True
    obtain e sl w sr where o: "o' = N e sl w sr" and i: "rbi o'" "bh sl = (if e then Suc (bh t) else bh t)" "bh sr = bh sl"
      and e: "e \<longrightarrow> \<not> c \<and> blk sl \<and> blk sr" using okk_sibling [OF "2.prems"(2)] by blast
    show ?thesis
    proof (cases e)
      case e: True
      obtain al v ar where near: "(if d then sl else sr) = N False al v ar" "rbi (N False al v ar)" "bh al = bh t"
        using i o \<open>e \<longrightarrow> _\<close> e by (cases "if d then sl else sr") (auto split: if_splits)
      have C: "cfgx s ((d, c, p, N True sl w sr) # k) t" using "2.prems"(1) o e by simp
      obtain s1 where s1: "rbtree_delete_fixup (rt (rb_nil s) t) s = rbtree_delete_fixup (rt (rb_nil s) t) s1"
        "rb_nil s1 = rb_nil s" "cfgx s1 ((d, True, p, N False al v ar) # (d, False, w, if d then sr else sl) # k) t"
        using delete_fixup_red [OF C True] unfolding near(1) by blast
      obtain s2 where s2: "rbtree_delete_fixup (rt (rb_nil s1) t) s1 = Some s2" "rb_nil s2 = rb_nil s1"
        "cfg s2 ((d, False, w, if d then sr else sl) # k) (snd (dbal2 d t True p (N False al v ar)))"
        using delete_fixup_black [OF s1(3) True] unfolding if_P [OF dbal2_done] by blast
      moreover have "dfix ((d, c, p, o') # k) t =
          plug ((d, False, w, if d then sr else sl) # k) (snd (dbal2 d t True p (N False al v ar)))"
        using near(1) True o e by (cases d) simp_all
      ultimately show ?thesis unfolding s1(1) using s2 s1(2) by (simp add: cfg_plug del: dfix.simps plug.simps)
    next
      case e: False
      let ?b = "dbal2 d t c p o'"
      have o': "o' = N False sl w sr" using o e by simp
      have C: "cfgx s ((d, c, p, N False sl w sr) # k) t" using "2.prems"(1) o' by simp
      have b: "rbi (snd ?b)" "bh (snd ?b) = Suc (bh t)" "\<not> c" "rt (rb_nil s) (snd ?b) = p" if "\<not> fst ?b"
        using dbal2_ok [OF "2.prems"(3), of sl w sr d c p "rb_nil s"] i o e that by auto
      have d: "dfix ((d, c, p, o') # k) t = (if fst ?b then plug k (snd ?b) else dfix k (snd ?b))"
        using o e True by (simp add: case_prod_beta)
      obtain s1 where s1: "rbtree_delete_fixup (rt (rb_nil s) t) s = (if fst ?b then Some s1 else rbtree_delete_fixup p s1)"
        "cfg s1 k (snd ?b)" "rb_nil s1 = rb_nil s"
        using delete_fixup_black [OF C True] unfolding o' by blast
      show ?thesis
      proof (cases "fst ?b")
        case True
        then show ?thesis using s1 d by (simp add: cfg_plug)
      next
        case F: False
        have "p \<noteq> rb_nil s1" using cfg_crumb(5) [of s d c p o' k t] "2.prems"(1) s1(3) by (simp add: cfgx_def)
        then have "snd ?b \<noteq> Lf" using b(4) [OF F] s1(3) by auto
        then have "cfgx s1 k (snd ?b)" using s1(2) by (simp add: cfgx_def)
        from "2.IH" [OF this _ b(1) [OF F]] show ?thesis using b [OF F] "2.prems"(2) s1 d F by simp
      qed
    qed
  qed
qed

text \<open>Unlinking a node.\<close>

lemma transplant_eq:
  assumes "ctx_at s u k" "u \<noteq> rb_nil s" "u \<notin> set (kptrs k)" "rb_parent s u = hp (rb_nil s) k"
  shows "transplant u v s = set_parent v (hp (rb_nil s) k) (set_child k v s)"
proof -
  have "(if hp (rb_nil s) k = rb_nil s then s\<lparr>rb_root := v\<rparr>
      else if u = rb_left s (hp (rb_nil s) k) then set_left (hp (rb_nil s) k) v s else set_right (hp (rb_nil s) k) v s)
      = set_child k v s"
    using replace_child [OF assms(1-3), of v] by (auto split: if_splits)
  then have "transplant u v s = (let s1 = set_child k v s in set_parent v (rb_parent s1 u) s1)"
    unfolding transplant_def assms(4) by (simp only:)
  then show ?thesis using assms(4) by simp
qed

lemma transplant_cfgx:
  assumes C: "cfg s k (N c l z r)" and sub: "l = Lf \<and> t = r \<or> r = Lf \<and> t = l"
  shows "cfgx (transplant z (rt (rb_nil s) t) s) k t"
proof -
  let ?n = "rb_nil s" and ?v = "rt (rb_nil s) t"
  let ?s' = "set_parent ?v (hp ?n k) (set_child k ?v s)"
  have K: "ctx_at s z k" and D: "distinct (inord t @ kptrs k)" "z \<notin> set (kptrs k)" "z \<noteq> ?n" and T: "tree_at s z t"
    and nl: "\<not> rb_red s ?n" and P: "rb_parent s z = hp ?n k" using C sub by (auto simp: cfg_def)
  have eq: "transplant z ?v s = ?s'" using transplant_eq [OF K D(3,2) P] .
  have hpt: "hp ?n k \<notin> set (inord t)"
    using D(1) hp_in [of k ?n] tree_at_nil [OF T] by (cases "k = []") auto
  have "tree_at ?s' (hp ?n k) t"
  proof (rule tree_at_reparent [OF T])
    show "distinct (inord t)" "rb_nil ?s' = ?n" using D by simp_all
    fix x assume x: "x \<in> set (inord t)"
    then have "x \<noteq> hp ?n k" using hpt by auto
    then show "rb_red ?s' x = rb_red s x \<and> rb_left ?s' x = rb_left s x \<and> rb_right ?s' x = rb_right s x"
      "rb_parent ?s' x = (if x = rt ?n t then hp ?n k else rb_parent s x)" by simp_all
  qed
  moreover have "ctx_at ?s' ?v k"
  proof -
    have "?v \<notin> set (kptrs k)" using D(1) rt_in [of t] ctx_at_nil [OF K] by (cases "t = Lf") auto
    then have "same_on (set (kptrs k)) (set_child k ?v s) ?s'" by (auto simp: same_on_def)
    then show ?thesis using ctx_at_set_child [OF K] D(1) by (subst ctx_at_frame) auto
  qed
  ultimately show "cfgx (transplant z ?v s) k t"
    using eq D nl by (auto simp: cfgx_def cfg_def)
qed

text \<open>
  The successor takes the place of a node with two children: its left subtree and colour are handed over, the right
  subtree \<open>r\<close> already hangs below \<open>y\<close>.
\<close>

definition take_place :: "nat \<Rightarrow> nat \<Rightarrow> rbtree \<Rightarrow> rbtree" where
  "take_place z y t1 =
     (let t2 = transplant z y t1; t3 = set_left y (rb_left t2 z) t2; t4 = set_parent (rb_left t3 y) y t3
      in set_red y (rb_red t4 z) t4)"

lemma transplant_nil [simp]: "rb_nil (transplant u v s) = rb_nil s"
  by (simp add: transplant_def Let_def)

lemma take_place_cfg:
  assumes C: "ctx_at s z k" and Z: "z \<noteq> rb_nil s" "rb_parent s z = hp (rb_nil s) k" "rb_left s z = rt (rb_nil s) l" "rb_red s z = c"
    and L: "tree_at s z l" "l \<noteq> Lf" and R: "tree_at s y r" "rb_right s y = rt (rb_nil s) r" and y: "y \<noteq> rb_nil s"
    and D: "distinct (y # z # inord l @ inord r @ kptrs k)" and nl: "\<not> rb_red s (rb_nil s)"
  shows "cfg (take_place z y s) k (N c l y r) \<and> rb_parent (take_place z y s) (rb_nil s) = rb_parent s (rb_nil s) \<and>
    rb_nil (take_place z y s) = rb_nil s"
proof -
  let ?n = "rb_nil s" and ?l = "rt (rb_nil s) l" and ?s' = "take_place z y s"
  let ?c = "set_child k y s"
  have hpx: "hp ?n k \<noteq> z" "hp ?n k \<noteq> y" "hp ?n k \<notin> set (inord l)" "hp ?n k \<notin> set (inord r)"
    using D Z(1) y hp_in [of k ?n] tree_at_nil [OF L(1)] tree_at_nil [OF R(1)] by (cases "k = []"; auto)+
  have rl: "?l \<in> set (inord l)" using rt_in L(2) .
  have zl: "z \<noteq> ?l" "y \<noteq> ?l" "z \<noteq> y" "?l \<noteq> ?n" using D rl tree_at_nil [OF L(1)] by auto
  have s': "?s' = set_red y c (set_parent ?l y (set_left y ?l (set_parent y (hp ?n k) ?c)))"
    using transplant_eq [OF C Z(1) _ Z(2), of y] D Z zl hpx by (simp add: take_place_def Let_def)
  have oth: "rb_left ?c x = rb_left s x" "rb_right ?c x = rb_right s x"
    if "x \<in> set (inord l) \<or> x \<in> set (inord r) \<or> x = z \<or> x = y" for x
  proof -
    have "x \<noteq> hp ?n k" using that hpx by auto
    then show "rb_left ?c x = rb_left s x" "rb_right ?c x = rb_right s x" by simp_all
  qed
  have "same_on (set (inord r)) s ?s'" using D rl by (auto simp: same_on_def s' oth)
  then have tr: "tree_at ?s' y r" using R(1) tree_at_frame by simp
  have tl: "tree_at ?s' y l"
  proof (rule tree_at_reparent [OF L(1)])
    show "distinct (inord l)" "rb_nil ?s' = ?n" using D by (simp_all add: s')
    fix x assume x: "x \<in> set (inord l)"
    then have "x \<noteq> y" using D by auto
    then show "rb_red ?s' x = rb_red s x \<and> rb_left ?s' x = rb_left s x \<and> rb_right ?s' x = rb_right s x"
      "rb_parent ?s' x = (if x = ?l then y else rb_parent s x)" using x by (simp_all add: s' oth)
  qed
  have "same_on (set (kptrs k)) ?c ?s'" using D rl by (auto simp: same_on_def s')
  moreover have "rb_root ?s' = rb_root ?c" by (simp add: s')
  ultimately have "ctx_at ?s' y k" using ctx_at_set_child [OF C] D ctx_at_frame by auto
  moreover have "rb_parent ?s' y = hp ?n k" "rb_red ?s' y = c" "rb_left ?s' y = ?l" "rb_right ?s' y = rt ?n r" "rb_nil ?s' = ?n"
    using zl R(2) oth(2) [of y] by (auto simp: s')
  moreover have "\<not> rb_red ?s' ?n" "rb_parent ?s' ?n = rb_parent s ?n" using nl y zl by (simp_all add: s')
  ultimately show ?thesis using tl tr D y by (auto simp: cfg_def)
qed

text \<open>The leftmost node of a subtree, at the end of a path that only goes left.\<close>

lemma plug_append: "plug (k @ k') t = plug k' (plug k t)"
  by (induction k t rule: plug.induct) auto

lemma kptrs_append [simp]: "kptrs (k @ k') = kptrs k @ kptrs k'"
  by (induction k rule: kptrs.induct) auto

lemma cfg_append: "cfg s (k @ k') t = cfg s k' (plug k t)"
  by (induction k t rule: plug.induct) (auto simp: cfg_up)

lemma leftmost_split:
  "tree_at s par r \<Longrightarrow> r \<noteq> Lf \<Longrightarrow>
    \<exists>kk cy y yr. r = plug kk (N cy Lf y yr) \<and> list_all fst kk \<and> rb_leftmost s (rt (rb_nil s) r) = Some y"
proof (induction r arbitrary: par)
  case (N c l x r)
  show ?case
  proof (cases "l = Lf")
    case True
    then show ?thesis using N.prems
      by (intro exI [of _ "[]"]) (simp add: rb_leftmost.simps)
  next
    case False
    obtain kk cy y yr where k: "l = plug kk (N cy Lf y yr)" "list_all fst kk" "rb_leftmost s (rt (rb_nil s) l) = Some y"
      using N.IH(1) [of x] False N.prems by auto
    have "rb_leftmost s x = Some y"
      using k(3) N.prems(1) rt_nil_iff [of s x l] False by (subst rb_leftmost.simps) simp
    then show ?thesis using k by (intro exI [of _ "kk @ [(True, c, x, r)]"]) (auto simp: plug_append)
  qed
qed simp

lemma okk_rename: "okk (kk @ (d, c, q, o') # k) n = okk (kk @ (d, c, q', o') # k) n"
proof (induction kk arbitrary: n rule: kptrs.induct)
  case (2 d1 c1 q1 t1 kk)
  then show ?case by (cases kk) (auto simp: hdblk_def)
qed simp

lemma kl_left: "list_all fst kk \<Longrightarrow> kl (kk @ k) = kl k \<and> kr (kk @ k) = kr kk @ kr k"
  by (induction kk rule: kptrs.induct) auto

lemma delete_finish:
  assumes "cfgx s k t" "okk k (bh t + (if red then 0 else 1))" "rbi t" "red \<longrightarrow> blk t"
  shows "\<exists>s'. (if \<not> red then rbtree_delete_fixup (rt (rb_nil s) t) s else Some s) = Some s' \<and> rb_nil s' = rb_nil s \<and>
    rb_rep s' (kl k @ inord t @ kr k)"
proof (cases red)
  case True
  then have "cfg s [] (plug k t)" "rbt_ok (plug k t)"
    using assms rbt_ok_plug [of t k] by (simp_all add: cfg_plug cfgx_def)
  then show ?thesis using True by (auto simp: rb_rep_def inord_plug)
next
  case False
  obtain s' where "rbtree_delete_fixup (rt (rb_nil s) t) s = Some s'" "cfg s' [] (dfix k t)" "rb_nil s' = rb_nil s"
    using delete_fixup_dfix [OF assms(1) _ assms(3)] assms(2) False by auto
  then show ?thesis using dfix_ok [OF assms(3), of k] assms(2) False by (auto simp: rb_rep_def inord_plug)
qed

lemma delete_one_child:
  assumes C: "cfg s k (N c l z r)" and ok: "rbt_ok (plug k (N c l z r))" and sub: "l = Lf \<or> r = Lf"
  shows "\<exists>s'. rbtree_delete z s = Some s' \<and> rb_nil s' = rb_nil s \<and> rb_rep s' (kl k @ inord l @ inord r @ kr k)"
proof -
  define t where "t = (if l = Lf then r else l)"
  let ?s = "transplant z (rt (rb_nil s) t) s"
  have f: "rb_left s z = rt (rb_nil s) l" "rb_right s z = rt (rb_nil s) r" "rb_red s z = c" using cfg_node [OF C] by simp_all
  have ln: "(rt (rb_nil s) l = rb_nil s) = (l = Lf)" "(rt (rb_nil s) r = rb_nil s) = (r = Lf)"
    using C rt_nil_iff by (auto simp: cfg_def)
  have run: "rbtree_delete z s = (if \<not> c then rbtree_delete_fixup (rt (rb_nil ?s) t) ?s else Some ?s)"
    using f ln sub by (auto simp: rbtree_delete_def t_def Let_def)
  have "cfgx ?s k t" using transplant_cfgx [OF C] sub by (auto simp: t_def)
  moreover have "okk k (bh t + (if c then 0 else 1))" "rbi t" "c \<longrightarrow> blk t"
    using plug_okk [OF ok] sub by (auto simp: t_def)
  moreover have "inord t = inord l @ inord r" using sub by (auto simp: t_def)
  ultimately show ?thesis using delete_finish [of ?s k t c] run by auto
qed

text \<open>The successor is the right child itself, or is first unlinked from the right subtree.\<close>

lemma hand_over_child:
  assumes C: "cfg s k (N c l z (N cy Lf y yr))" and l: "l \<noteq> Lf"
  shows "cfgx (take_place z y (set_parent (rt (rb_nil s) yr) y s)) ((False, c, y, l) # k) yr"
proof -
  let ?n = "rb_nil s" and ?s = "set_parent (rt (rb_nil s) yr) y s"
  have A: "tree_at s (hp ?n k) (N c l z (N cy Lf y yr))" and K: "ctx_at s z k"
    and D: "distinct (inord (N c l z (N cy Lf y yr)) @ kptrs k)" and nl: "\<not> rb_red s ?n"
    using C by (auto simp: cfg_def)
  have v: "rt ?n yr \<notin> set (inord l)" "rt ?n yr \<notin> set (kptrs k)" "rt ?n yr \<noteq> z" "rt ?n yr \<noteq> y"
    using D A rt_in [of yr ?n] tree_at_nil [of s z l] ctx_at_nil [OF K] by (cases "yr = Lf"; auto)+
  have same: "same_on (set (inord l)) s ?s" "same_on (set (kptrs k)) s ?s" using v by (auto simp: same_on_def)
  have "tree_at ?s y yr"
  proof (rule tree_at_reparent [of s y yr])
    show "tree_at s y yr" "distinct (inord yr)" using A D by simp_all
  qed simp_all
  moreover have "ctx_at ?s z k" "tree_at ?s z l" using A K same by (simp_all add: ctx_at_frame tree_at_frame)
  ultimately have "cfg (take_place z y ?s) k (N c l y yr) \<and> rb_parent (take_place z y ?s) ?n = rb_parent ?s ?n \<and>
      rb_nil (take_place z y ?s) = ?n"
    using take_place_cfg [of ?s z k l c y yr] A D l v nl by simp
  then show ?thesis by (auto simp: cfgx_def cfg_up)
qed

lemma hand_over_deep:
  assumes C: "cfg s (kk @ (False, c, z, l) # k) (N cy Lf y yr)" and l: "l \<noteq> Lf" and kk: "kk \<noteq> []"
  defines "t' \<equiv> transplant y (rt (rb_nil s) yr) s"
  defines "t1 \<equiv> set_parent (rb_right t' z) y (set_right y (rb_right t' z) t')"
  shows "cfgx (take_place z y t1) (kk @ (False, c, y, l) # k) yr"
proof -
  let ?n = "rb_nil s" and ?r = "plug kk yr"
  have Cx: "cfgx t' (kk @ (False, c, z, l) # k) yr" using transplant_cfgx [OF C] by (simp add: t'_def)
  have n: "rb_nil t' = ?n" by (simp add: t'_def)
  have Cr: "cfg t' k (N c l z ?r)" using Cx by (simp add: cfgx_def cfg_append cfg_up)
  have r: "?r \<noteq> Lf" using kk by (cases kk rule: rev_cases) (auto simp: plug_append split: if_splits)
  have A: "tree_at t' (hp ?n k) (N c l z ?r)" and K: "ctx_at t' z k" and D: "distinct (inord (N c l z ?r) @ kptrs k)"
    and nl: "\<not> rb_red t' ?n" using Cr n by (auto simp: cfg_def)
  have y: "y \<noteq> ?n" "y \<notin> set (inord (N c l z ?r) @ kptrs k)"
    using C by (auto simp: cfg_def inord_plug set_kptrs dest: ctx_at_nil)
  have rr: "rb_right t' z = rt ?n ?r" "rt ?n ?r \<in> set (inord ?r)" using A n rt_in [OF r] by auto
  have t1: "t1 = set_parent (rt ?n ?r) y (set_right y (rt ?n ?r) t')" by (simp add: t1_def rr)
  have same: "same_on (set (inord l)) t' t1" "same_on (set (kptrs k)) t' t1" using D y rr(2) by (auto simp: t1 same_on_def)
  have v: "rt ?n ?r \<noteq> z" "rt ?n ?r \<noteq> ?n" "z \<noteq> ?n" using D rr(2) A n tree_at_nil [of t' z ?r] by auto
  have nt: "rb_nil t1 = ?n" by (simp add: t1 n)
  have "tree_at t1 y ?r"
  proof (rule tree_at_reparent [of t' z ?r])
    show "tree_at t' z ?r" "distinct (inord ?r)" using A D by simp_all
    fix x assume "x \<in> set (inord ?r)"
    then show "rb_red t1 x = rb_red t' x \<and> rb_left t1 x = rb_left t' x \<and> rb_right t1 x = rb_right t' x"
      using y by (auto simp: t1)
  qed (simp_all add: t1 n)
  moreover have "ctx_at t1 z k" "tree_at t1 z l" using A K same by (simp_all add: ctx_at_frame tree_at_frame t1)
  moreover have "rb_parent t1 z = hp ?n k" "rb_left t1 z = rt ?n l" "rb_red t1 z = c" "rb_right t1 y = rt ?n ?r"
      "rb_parent t1 ?n = rb_parent t' ?n" "\<not> rb_red t1 ?n"
    using A n v nl by (auto simp: t1)
  ultimately have T: "cfg (take_place z y t1) k (N c l y ?r) \<and> rb_parent (take_place z y t1) ?n = rb_parent t' ?n \<and>
      rb_nil (take_place z y t1) = ?n"
    using take_place_cfg [of t1 z k l c y ?r] D l y v(3) nt by simp
  moreover have "hp ?n (kk @ (False, c, y, l) # k) = hp ?n (kk @ (False, c, z, l) # k)"
    using kk by (cases kk rule: kptrs.cases) auto
  ultimately show ?thesis using Cx n by (auto simp: cfgx_def cfg_append cfg_up)
qed

lemma delete_two_children:
  assumes C: "cfg s k (N c l z r)" and ok: "rbt_ok (plug k (N c l z r))" and l: "l \<noteq> Lf" and r: "r \<noteq> Lf"
  shows "\<exists>s'. rbtree_delete z s = Some s' \<and> rb_nil s' = rb_nil s \<and> rb_rep s' (kl k @ inord l @ inord r @ kr k)"
proof -
  let ?n = "rb_nil s"
  have T: "tree_at s z r" "tree_at s z l" using C by (auto simp: cfg_def)
  obtain kk cy y yr where y: "r = plug kk (N cy Lf y yr)" "list_all fst kk" "rb_leftmost s (rt ?n r) = Some y"
    using leftmost_split [OF T(1) r] by blast
  let ?K = "kk @ (False, c, z, l) # k" and ?K' = "kk @ (False, c, y, l) # k"
  have CK: "cfg s ?K (N cy Lf y yr)" using C y(1) by (simp add: cfg_append cfg_up)
  define t1 where "t1 = (if rb_parent s y = z then set_parent (rt ?n yr) y s
    else let t' = transplant y (rt ?n yr) s; t'' = set_right y (rb_right t' z) t' in set_parent (rb_right t'' y) y t'')"
  have f: "rb_left s z = rt ?n l" "rb_right s z = rt ?n r" "rb_right s y = rt ?n yr" "rb_red s y = cy"
    "rb_parent s y = hp ?n ?K"
    using cfg_node [OF C] cfg_node [OF CK] by simp_all
  have ne: "rt ?n l \<noteq> ?n" "rt ?n r \<noteq> ?n" using T rt_nil_iff l r by auto
  have succ: "rbtree_successor s z = Some y" using y(3) f ne by (simp add: rbtree_successor_def)
  have pz: "(rb_parent s y = z) = (kk = [])"
    using f(5) CK hp_in [of kk ?n] by (cases kk rule: kptrs.cases) (auto simp: cfg_def)
  have nt: "rb_nil t1 = ?n" by (simp add: t1_def Let_def)
  have nt': "rb_nil (take_place z y t1) = ?n" by (simp add: take_place_def Let_def nt)
  have run: "rbtree_delete z s = (if \<not> cy then rbtree_delete_fixup (rt (rb_nil (take_place z y t1)) yr) (take_place z y t1)
      else Some (take_place z y t1))"
    unfolding nt' using f ne succ by (simp add: rbtree_delete_def take_place_def t1_def Let_def)
  have "cfgx (take_place z y t1) ?K' yr"
  proof (cases "kk = []")
    case True
    then show ?thesis using hand_over_child [of s k c l z cy y yr] C y(1) l pz by (simp add: t1_def)
  next
    case False
    then show ?thesis using hand_over_deep [OF CK l False] pz by (simp add: t1_def Let_def)
  qed
  moreover have "rbt_ok (plug ?K (N cy Lf y yr))" using ok y(1) by (simp add: plug_append)
  then have "okk ?K' (bh yr + (if cy then 0 else 1))" "rbi yr" "cy \<longrightarrow> blk yr"
    using plug_okk [of ?K "N cy Lf y yr"] okk_rename [of kk False c z l k _ y] by (auto simp del: okk.simps split: if_splits)
  moreover have "kl ?K' @ inord yr @ kr ?K' = kl k @ inord l @ inord r @ kr k"
    using kl_left [OF y(2)] y(2) kl_left [OF y(2), of "[]"] by (simp add: y(1) inord_plug)
  ultimately show ?thesis using delete_finish [of "take_place z y t1" ?K' yr cy] unfolding run nt' by metis
qed

lemma focus: "z \<in> set (inord t) \<Longrightarrow> \<exists>k c l r. t = plug k (N c l z r)"
proof (induction t)
  case (N c l x r)
  consider "x = z" | "z \<in> set (inord l)" | "z \<in> set (inord r)" using N.prems by auto
  then show ?case
  proof cases
    case 1
    then show ?thesis by (intro exI [of _ "[]"]) simp
  next
    case 2
    then obtain k c' l' r' where "l = plug k (N c' l' z r')" using N.IH(1) by blast
    then show ?thesis by (intro exI [of _ "k @ [(True, c, x, r)]"]) (auto simp: plug_append)
  next
    case 3
    then obtain k c' l' r' where "r = plug k (N c' l' z r')" using N.IH(2) by blast
    then show ?thesis by (intro exI [of _ "k @ [(False, c, x, l)]"]) (auto simp: plug_append)
  qed
qed simp

lemma rb_rep_focus:
  assumes "rb_rep s xs" "z \<in> set xs"
  obtains k c l r where "cfg s k (N c l z r)" "rbt_ok (plug k (N c l z r))" "xs = kl k @ inord l @ z # inord r @ kr k"
proof -
  obtain t where t: "cfg s [] t" "rbt_ok t" "inord t = xs" using assms(1) by (auto simp: rb_rep_def)
  obtain k c l r where "t = plug k (N c l z r)" using focus assms(2) t(3) by blast
  then show thesis using t that by (simp add: cfg_plug inord_plug)
qed

lemma rb_rep_distinct: "rb_rep s xs \<Longrightarrow> distinct xs \<and> rb_nil s \<notin> set xs"
  by (auto simp: rb_rep_def cfg_def dest: tree_at_nil)

lemma rbtree_delete_rep:
  assumes rep: "rb_rep s xs" and z: "z \<in> set xs"
  shows "\<exists>s'. rbtree_delete z s = Some s' \<and> rb_nil s' = rb_nil s \<and> rb_rep s' (remove1 z xs)"
proof -
  obtain k c l r where f: "cfg s k (N c l z r)" "rbt_ok (plug k (N c l z r))" "xs = kl k @ inord l @ z # inord r @ kr k"
    using rb_rep_focus [OF rep z] .
  have "remove1 z xs = kl k @ inord l @ inord r @ kr k"
    using f(3) rb_rep_distinct [OF rep] by (auto simp: remove1_append)
  then show ?thesis
    using delete_one_child [OF f(1,2)] delete_two_children [OF f(1,2)] by (cases "l = Lf \<or> r = Lf") auto
qed

text \<open>The neighbours of a node in the order.\<close>

lemma rightmost_last: "tree_at s par t \<Longrightarrow> t \<noteq> Lf \<Longrightarrow> rb_rightmost s (rt (rb_nil s) t) = Some (last (inord t))"
proof (induction t arbitrary: par)
  case (N c l x r)
  then show ?case using rt_nil_iff [of s x r] by (subst rb_rightmost.simps) (cases r; auto)
qed simp

lemma leftmost_hd: "tree_at s par t \<Longrightarrow> t \<noteq> Lf \<Longrightarrow> rb_leftmost s (rt (rb_nil s) t) = Some (hd (inord t))"
proof (induction t arbitrary: par)
  case (N c l x r)
  then show ?case using rt_nil_iff [of s x l] by (subst rb_leftmost.simps) (cases l; auto simp: hd_append)
qed simp

lemma up_right_last:
  "ctx_at s h k \<Longrightarrow> h \<noteq> rb_nil s \<Longrightarrow> h \<notin> set (kptrs k) \<Longrightarrow> distinct (kptrs k) \<Longrightarrow> rb_parent s h = hp (rb_nil s) k \<Longrightarrow>
    rb_up_right s h = Some (if kl k = [] then rb_nil s else last (kl k))"
proof (induction k arbitrary: h rule: kptrs.induct)
  case (2 d c q t k)
  have "rt (rb_nil s) t \<noteq> h" using "2.prems" rt_in [of t] by (cases "t = Lf") auto
  then show ?case using "2.IH" [of q] "2.prems" by (subst rb_up_right.simps) auto
qed (simp add: rb_up_right.simps)

lemma up_left_hd:
  "ctx_at s h k \<Longrightarrow> h \<noteq> rb_nil s \<Longrightarrow> h \<notin> set (kptrs k) \<Longrightarrow> distinct (kptrs k) \<Longrightarrow> rb_parent s h = hp (rb_nil s) k \<Longrightarrow>
    rb_up_left s h = Some (if kr k = [] then rb_nil s else hd (kr k))"
proof (induction k arbitrary: h rule: kptrs.induct)
  case (2 d c q t k)
  have "rt (rb_nil s) t \<noteq> h" using "2.prems" rt_in [of t] by (cases "t = Lf") auto
  then show ?case using "2.IH" [of q] "2.prems" by (subst rb_up_left.simps) auto
qed (simp add: rb_up_left.simps)

lemma predecessor_eq:
  "rbtree_predecessor s z = (if rb_left s z \<noteq> rb_nil s then rb_rightmost s (rb_left s z) else rb_up_right s z)"
proof -
  have "rb_up_right s z = (if rb_parent s z \<noteq> rb_nil s then
      if z = rb_right s (rb_parent s z) then Some (rb_parent s z) else rb_up_right s z else Some (rb_nil s))"
    using rb_up_right.simps [of s z] by presburger
  then show ?thesis unfolding rbtree_predecessor_def by presburger
qed

lemma rbtree_neighbours:
  assumes rep: "rb_rep s (xs @ z # ys)"
  shows "rbtree_predecessor s z = Some (if xs = [] then rb_nil s else last xs)"
    "rbtree_successor s z = Some (if ys = [] then rb_nil s else hd ys)"
proof -
  obtain k c l r where C: "cfg s k (N c l z r)" and eq: "xs @ z # ys = kl k @ inord l @ z # inord r @ kr k"
    using rb_rep_focus [OF rep, of z] by (metis in_set_conv_decomp)
  have "z \<notin> set xs" "z \<notin> set ys" using rb_rep_distinct [OF rep] by auto
  then have xs: "xs = kl k @ inord l" "ys = inord r @ kr k"
    using eq append_Cons_eq_iff [of z xs ys "kl k @ inord l" "inord r @ kr k"] by auto
  have f: "ctx_at s z k" "z \<noteq> rb_nil s" "z \<notin> set (kptrs k)" "distinct (kptrs k)" "rb_parent s z = hp (rb_nil s) k"
    "tree_at s z l" "tree_at s z r" "rb_left s z = rt (rb_nil s) l" "rb_right s z = rt (rb_nil s) r"
    using C by (auto simp: cfg_def)
  have k: "(hp (rb_nil s) k = rb_nil s) = (k = [])"
    using hp_in [of k "rb_nil s"] ctx_at_nil [OF f(1)] by (cases "k = []") auto
  show "rbtree_predecessor s z = Some (if xs = [] then rb_nil s else last xs)"
    using rt_nil_iff [OF f(6)] rightmost_last [OF f(6)] up_right_last [OF f(1-5)] f(8) xs(1)
    by (cases l) (simp_all add: predecessor_eq)
  show "rbtree_successor s z = Some (if ys = [] then rb_nil s else hd ys)"
    using rt_nil_iff [OF f(7)] leftmost_hd [OF f(7)] up_left_hd [OF f(1-5)] f(5,9) k xs(2)
    by (cases r) (auto simp: rbtree_successor_def hd_append)
qed

section \<open>The interface of an ordered index\<close>

text \<open>
  What a client of the tree relies on: \<open>rep s xs\<close> says that the index \<open>s\<close> holds the nodes \<open>xs\<close> in this order.  The order
  is that of a 32-bit key; the comparison function only has to agree with it on the nodes in use.
\<close>

fun insert_each :: "('n \<Rightarrow> 's \<Rightarrow> 's option) \<Rightarrow> 'n list \<Rightarrow> 's \<Rightarrow> 's option" where
  "insert_each ins [] s = Some s"
| "insert_each ins (z # zs) s = do { s' \<leftarrow> ins z s; insert_each ins zs s' }"

locale ordered_index =
  fixes rep :: "'s \<Rightarrow> 'n list \<Rightarrow> bool"
    and nil :: "'s \<Rightarrow> 'n"
    and ins :: "('n \<Rightarrow> 'n \<Rightarrow> int) \<Rightarrow> 'n \<Rightarrow> 's \<Rightarrow> 's option"
    and del :: "'n \<Rightarrow> 's \<Rightarrow> 's option"
    and pred :: "'s \<Rightarrow> 'n \<Rightarrow> 'n option"
  assumes distinct_rep: "rep s xs \<Longrightarrow> distinct xs \<and> nil s \<notin> set xs"
    and ins_rep: "rep s xs \<Longrightarrow> z \<noteq> nil s \<Longrightarrow> z \<notin> set xs \<Longrightarrow> sorted (map (key :: 'n \<Rightarrow> u32) xs) \<Longrightarrow>
      \<forall>x\<in>set xs. (cmp z x < 0) = (key z < key x) \<Longrightarrow>
      \<exists>s'. ins cmp z s = Some s' \<and> nil s' = nil s \<and>
        rep s' (takeWhile (\<lambda>x. key x \<le> key z) xs @ z # dropWhile (\<lambda>x. key x \<le> key z) xs)"
    and del_rep: "rep s xs \<Longrightarrow> z \<in> set xs \<Longrightarrow> \<exists>s'. del z s = Some s' \<and> nil s' = nil s \<and> rep s' (remove1 z xs)"
    and pred_rep: "rep s (xs @ z # ys) \<Longrightarrow> pred s z = Some (if xs = [] then nil s else last xs)"
begin

text \<open>Inserting nodes in key order appends them.\<close>

lemma insert_each_sorted:
  "rep s xs \<Longrightarrow> distinct (xs @ zs) \<Longrightarrow> nil s \<notin> set zs \<Longrightarrow> sorted (map (key :: 'n \<Rightarrow> u32) (xs @ zs)) \<Longrightarrow>
    \<forall>z x. (cmp z x < 0) = (key z < key x) \<Longrightarrow>
    \<exists>s'. insert_each (ins cmp) zs s = Some s' \<and> nil s' = nil s \<and> rep s' (xs @ zs)"
proof (induction zs arbitrary: s xs)
  case (Cons z zs)
  have le: "\<forall>x\<in>set xs. key x \<le> key z" using Cons.prems(4) by (auto simp: sorted_append)
  obtain s1 where s1: "ins cmp z s = Some s1" "nil s1 = nil s"
    "rep s1 (takeWhile (\<lambda>x. key x \<le> key z) xs @ z # dropWhile (\<lambda>x. key x \<le> key z) xs)"
    using ins_rep [OF Cons.prems(1), of z key cmp] Cons.prems by (auto simp: sorted_append)
  have tw: "takeWhile (\<lambda>x. key x \<le> key z) xs = xs" "dropWhile (\<lambda>x. key x \<le> key z) xs = []"
    using le by (simp_all add: takeWhile_eq_all_conv dropWhile_eq_Nil_conv)
  have "rep s1 (xs @ [z])" using s1(3) unfolding tw .
  from Cons.IH [OF this] Cons.prems s1 show ?case by auto
qed simp

text \<open>After an insertion the predecessor is the last node whose key is at most the new one's.\<close>

lemma pred_after_ins:
  assumes "rep s (takeWhile P xs @ z # dropWhile P xs)"
  shows "pred s z = Some (if takeWhile P xs = [] then nil s else last (takeWhile P xs))"
  using pred_rep [OF assms] .

end

interpretation rbt: ordered_index rb_rep rb_nil rbtree_insert rbtree_delete rbtree_predecessor
proof
  fix s xs z ys and cmp :: "nat \<Rightarrow> nat \<Rightarrow> int" and key :: "nat \<Rightarrow> u32"
  show "rb_rep s xs \<Longrightarrow> distinct xs \<and> rb_nil s \<notin> set xs" by (rule rb_rep_distinct)
  show "rb_rep s xs \<Longrightarrow> z \<in> set xs \<Longrightarrow> \<exists>s'. rbtree_delete z s = Some s' \<and> rb_nil s' = rb_nil s \<and> rb_rep s' (remove1 z xs)"
    by (rule rbtree_delete_rep)
  show "rb_rep s (xs @ z # ys) \<Longrightarrow> rbtree_predecessor s z = Some (if xs = [] then rb_nil s else last xs)"
    by (rule rbtree_neighbours)
  assume "rb_rep s xs" "z \<noteq> rb_nil s" "z \<notin> set xs" "sorted (map key xs)" "\<forall>x\<in>set xs. (cmp z x < 0) = (key z < key x)"
  then show "\<exists>s'. rbtree_insert cmp z s = Some s' \<and> rb_nil s' = rb_nil s \<and>
      rb_rep s' (takeWhile (\<lambda>x. key x \<le> key z) xs @ z # dropWhile (\<lambda>x. key x \<le> key z) xs)"
    using rbtree_insert_rep [of s xs z key cmp] by blast
qed

section \<open>Correctness\<close>

text \<open>C9: Inserting a new node into a red-black tree whose nodes are in key order returns, and the result is a
  red-black tree (no red node with a red child, equal black heights, black root) with the same nodes and the new one
  after every node whose key is at most its own.\<close>

theorem rbtree_insert_ok:
  assumes "rb_rep s xs" "z \<noteq> rb_nil s" "z \<notin> set xs" "sorted (map key xs)"
    and "\<And>x. x \<in> set xs \<Longrightarrow> (cmp z x < 0) = (key z < (key x :: int))"
  shows "\<exists>s'. rbtree_insert cmp z s = Some s' \<and> rb_nil s' = rb_nil s \<and>
    rb_rep s' (takeWhile (\<lambda>x. key x \<le> key z) xs @ z # dropWhile (\<lambda>x. key x \<le> key z) xs)"
  using rbtree_insert_rep [of s xs z key cmp] assms by blast

text \<open>C8: Deleting a node of a red-black tree returns, and the result is a red-black tree with exactly the other nodes
  in the same order: the unlinking, the successor taking the node's place and the recolouring loop keep the order, the
  colours and the black heights.\<close>

theorem rbtree_delete_ok:
  assumes "rb_rep s xs" "z \<in> set xs"
  shows "\<exists>s'. rbtree_delete z s = Some s' \<and> rb_nil s' = rb_nil s \<and> rb_rep s' (remove1 z xs)"
  using rbtree_delete_rep [OF assms] .

text \<open>A tree of three nodes at the addresses 10, 20 and 30, ordered by address; the sentinel is 0.\<close>

definition example_tree :: rbtree where
  "example_tree = \<lparr>rb_root = 20, rb_nil = 0, rb_red = (\<lambda>x. x = 10 \<or> x = 30),
     rb_parent = (\<lambda>x. if x = 10 \<or> x = 30 then 20 else 0),
     rb_left = (\<lambda>x. if x = 20 then 10 else 0), rb_right = (\<lambda>x. if x = 20 then 30 else 0)\<rparr>"

lemma example_tree_rep: "rb_rep example_tree [10, 20, 30]"
  unfolding rb_rep_def
  by (intro exI [of _ "N False (N True Lf 10 Lf) 20 (N True Lf 30 Lf)"])
    (simp add: cfg_def example_tree_def rbt_ok_def)

theorem rbtree_insert_ok_witness:
  "\<exists>s'. rbtree_insert (\<lambda>a b. int a - int b) 25 example_tree = Some s' \<and> rb_nil s' = 0 \<and> rb_rep s' [10, 20, 25, 30]"
  using rbtree_insert_ok [OF example_tree_rep, of 25 int "\<lambda>a b. int a - int b"] by (simp add: example_tree_def)

theorem rbtree_delete_ok_witness:
  "\<exists>s'. rbtree_delete 20 example_tree = Some s' \<and> rb_nil s' = 0 \<and> rb_rep s' [10, 30]"
  using rbtree_delete_ok [OF example_tree_rep, of 20] by (simp add: example_tree_def)

end
