(* ===== verification/Paging.thy ===== *)
theory Paging
  imports Buddy_pmm Fsbase
begin

text \<open>
  Page tables and the swap framework: \<^verbatim>\<open>get_pte\<close>, \<^verbatim>\<open>page_insert\<close> and \<^verbatim>\<open>page_remove_pte\<close> of
  \<^verbatim>\<open>src/kernel/mm/pmm.c\<close>, swap entries and the active and inactive lists of \<^verbatim>\<open>src/kernel/mm/swap.c\<close>, and the
  transfers of \<^verbatim>\<open>src/kernel/fs/swap/swapfs.c\<close>, over the buddy manager the kernel installs.

  A physical page is its index in the page array; the contents of the page frames are words, so page directories and
  page tables are frames like any other and a pointer to an entry is a frame and an index.  The swap device is a block per
  swap offset and a set of blocks it fails on.  The translation cache is not modelled, so \<^verbatim>\<open>tlb_invalidate\<close> does nothing.
  When an allocation fails and the swap daemon is running the caller sleeps in \<^verbatim>\<open>try_free_pages\<close>; the sequential
  model ends there.
\<close>

section \<open>Words and flags\<close>

definition PAGE_SIZE :: u32 where "PAGE_SIZE = 4096"
definition PT_SIZE :: u32 where "PT_SIZE = PAGE_SIZE * 1024"

definition PTE_P :: u32 where "PTE_P = 0x001"
definition PTE_W :: u32 where "PTE_W = 0x002"
definition PTE_U :: u32 where "PTE_U = 0x004"
definition PTE_A :: u32 where "PTE_A = 0x020"
definition PTE_D :: u32 where "PTE_D = 0x040"
definition PTE_SWAP :: u32 where "PTE_SWAP = PTE_A OR PTE_D"
definition PTE_USER :: u32 where "PTE_USER = PTE_U OR PTE_W OR PTE_P"

definition has :: "u32 \<Rightarrow> u32 \<Rightarrow> bool" where
  "has w m = (w AND m \<noteq> 0)"

definition PDX :: "u32 \<Rightarrow> nat" where "PDX va = unat (drop_bit 22 va AND 0x3ff)"
definition PTX :: "u32 \<Rightarrow> nat" where "PTX va = unat (drop_bit 12 va AND 0x3ff)"
definition PPN :: "u32 \<Rightarrow> nat" where "PPN pa = unat (drop_bit 12 pa)"
definition PTE_ADDR :: "u32 \<Rightarrow> u32" where "PTE_ADDR pte = pte AND NOT 0xfff"

definition page2pa :: "nat \<Rightarrow> u32" where "page2pa p = push_bit 12 (of_nat p)"

definition PageDirty :: "page \<Rightarrow> bool" where "PageDirty p = test_bit_w PG_dirty (pg_flags p)"
definition SetPageDirty :: "page \<Rightarrow> page" where "SetPageDirty p = p\<lparr>pg_flags := set_bit_w PG_dirty (pg_flags p)\<rparr>"
definition ClearPageDirty :: "page \<Rightarrow> page" where "ClearPageDirty p = p\<lparr>pg_flags := clear_bit_w PG_dirty (pg_flags p)\<rparr>"
definition PageSwap :: "page \<Rightarrow> bool" where "PageSwap p = test_bit_w PG_swap (pg_flags p)"
definition SetPageSwap :: "page \<Rightarrow> page" where "SetPageSwap p = p\<lparr>pg_flags := set_bit_w PG_swap (pg_flags p)\<rparr>"
definition ClearPageSwap :: "page \<Rightarrow> page" where "ClearPageSwap p = p\<lparr>pg_flags := clear_bit_w PG_swap (pg_flags p)\<rparr>"
definition PageActive :: "page \<Rightarrow> bool" where "PageActive p = test_bit_w PG_active (pg_flags p)"
definition SetPageActive :: "page \<Rightarrow> page" where "SetPageActive p = p\<lparr>pg_flags := set_bit_w PG_active (pg_flags p)\<rparr>"
definition ClearPageActive :: "page \<Rightarrow> page" where "ClearPageActive p = p\<lparr>pg_flags := clear_bit_w PG_active (pg_flags p)\<rparr>"

section \<open>The state\<close>

type_synonym ptep = "nat \<times> nat"

record mem =
  pm :: buddy
  frames :: "nat \<Rightarrow> nat \<Rightarrow> u32"
  max_swap_offset :: nat
  mem_map :: "nat \<Rightarrow> u16"
  swap_next :: nat
  hash_list :: "nat \<Rightarrow> nat list"
  active_list :: "nat list"
  nr_active_pages :: nat
  inactive_list :: "nat list"
  nr_inactive_pages :: nat
  swap_in_sem :: nat
  swap_dev :: "nat \<Rightarrow> nat \<Rightarrow> u32"
  swap_fault :: "nat \<Rightarrow> bool"
  kswapd_ready :: bool

definition pg :: "mem \<Rightarrow> nat \<Rightarrow> page" where
  "pg s p = bd_pages (pm s) p"

definition upd_pg :: "nat \<Rightarrow> (page \<Rightarrow> page) \<Rightarrow> mem \<Rightarrow> mem" where
  "upd_pg p f s = s\<lparr>pm := bd_upd p f (pm s)\<rparr>"

definition rd :: "mem \<Rightarrow> ptep \<Rightarrow> u32" where
  "rd s x = frames s (fst x) (snd x)"

definition wr :: "ptep \<Rightarrow> u32 \<Rightarrow> mem \<Rightarrow> mem" where
  "wr x v s = s\<lparr>frames := (frames s)(fst x := (frames s (fst x))(snd x := v))\<rparr>"

definition set_frame :: "nat \<Rightarrow> (nat \<Rightarrow> u32) \<Rightarrow> mem \<Rightarrow> mem" where
  "set_frame f c s = s\<lparr>frames := (frames s)(f := c)\<rparr>"

definition set_map :: "nat \<Rightarrow> u16 \<Rightarrow> mem \<Rightarrow> mem" where
  "set_map off v s = s\<lparr>mem_map := (mem_map s)(off := v)\<rparr>"

section \<open>Pages\<close>

definition try_free_pages :: "nat \<Rightarrow> mem \<Rightarrow> bool option" where
  "try_free_pages n s = (if \<not> kswapd_ready s then Some False else if n \<ge> 2 ^ 7 then Some False else None)"

definition alloc_pages :: "nat \<Rightarrow> mem \<Rightarrow> (nat option \<times> mem) option" where
  "alloc_pages n s = do {
     (page, b) \<leftarrow> buddy_alloc_pages n (pm s);
     case page of
       Some p \<Rightarrow> Some (Some p, s\<lparr>pm := b\<rparr>)
     | None \<Rightarrow> do {
         _ \<leftarrow> try_free_pages n (s\<lparr>pm := b\<rparr>);
         Some (None, s\<lparr>pm := b\<rparr>)
       }
   }"

abbreviation alloc_page :: "mem \<Rightarrow> (nat option \<times> mem) option" where
  "alloc_page \<equiv> alloc_pages 1"

definition free_pages :: "nat \<Rightarrow> nat \<Rightarrow> mem \<Rightarrow> mem option" where
  "free_pages base n s = do {
     b \<leftarrow> buddy_free_pages base n (pm s);
     Some (s\<lparr>pm := b\<rparr>)
   }"

abbreviation free_page :: "nat \<Rightarrow> mem \<Rightarrow> mem option" where
  "free_page p \<equiv> free_pages p 1"

definition pa2page :: "u32 \<Rightarrow> mem \<Rightarrow> nat option" where
  "pa2page pa s = do { kassert (PPN pa < bd_npage (pm s)); Some (PPN pa) }"

definition pte2page :: "u32 \<Rightarrow> mem \<Rightarrow> nat option" where
  "pte2page pte s = do { kassert (has pte PTE_P); pa2page (PTE_ADDR pte) s }"

text \<open>The kernel address of a page frame, as the frame.\<close>

definition KVADDR :: "u32 \<Rightarrow> mem \<Rightarrow> nat option" where
  "KVADDR pa s = do {
     kassert (PPN pa < bd_npage (pm s));
     kassert (pa < 0x38000000);
     Some (PPN pa)
   }"

definition page_ref_incr :: "nat \<Rightarrow> mem \<Rightarrow> mem" where
  "page_ref_incr p = upd_pg p (\<lambda>q. snd (page_ref_inc q))"

definition page_ref_decr :: "nat \<Rightarrow> mem \<Rightarrow> mem" where
  "page_ref_decr p = upd_pg p (\<lambda>q. snd (page_ref_dec q))"

section \<open>Page tables\<close>

definition get_pte :: "nat \<Rightarrow> u32 \<Rightarrow> bool \<Rightarrow> mem \<Rightarrow> (ptep option \<times> mem) option" where
  "get_pte pgdir va create s = do {
     (ok, s) \<leftarrow>
       (if has (frames s pgdir (PDX va)) PTE_P then Some (True, s)
        else if \<not> create then Some (False, s)
        else do {
          (r, s1) \<leftarrow> alloc_page s;
          case r of
            None \<Rightarrow> Some (False, s1)
          | Some page \<Rightarrow> do {
              let s2 = upd_pg page (set_page_ref 1) s1;
              f \<leftarrow> KVADDR (page2pa page) s2;
              Some (True, wr (pgdir, PDX va) (page2pa page OR PTE_U OR PTE_W OR PTE_P) (set_frame f (\<lambda>_. 0) s2))
            }
        });
     if \<not> ok then Some (None, s)
     else do {
       f \<leftarrow> KVADDR (PTE_ADDR (frames s pgdir (PDX va))) s;
       Some (Some (f, PTX va), s)
     }
   }"

definition get_page :: "nat \<Rightarrow> u32 \<Rightarrow> mem \<Rightarrow> (nat option \<times> ptep option \<times> mem) option" where
  "get_page pgdir va s = do {
     (ptep, s1) \<leftarrow> get_pte pgdir va False s;
     case ptep of
       None \<Rightarrow> Some (None, None, s1)
     | Some x \<Rightarrow>
         if has (rd s1 x) PTE_P then do { p \<leftarrow> pa2page (rd s1 x) s1; Some (Some p, ptep, s1) }
         else Some (None, ptep, s1)
   }"

section \<open>Swap lists and the hash\<close>

definition SWAP_UNUSED :: u16 where "SWAP_UNUSED = 0xFFFF"
definition MAX_SWAP_REF :: u16 where "MAX_SWAP_REF = 0xFFFE"
definition HASH_SHIFT :: nat where "HASH_SHIFT = 10"

definition entry_hashfn :: "u32 \<Rightarrow> nat" where
  "entry_hashfn x = unat (hash32 x HASH_SHIFT)"

definition swap_offset :: "u32 \<Rightarrow> mem \<Rightarrow> nat option" where
  "swap_offset entry s =
     (let off = unat (drop_bit 8 entry) in do { kassert (0 < off \<and> off < max_swap_offset s); Some off })"

definition swap_active_list_add :: "nat \<Rightarrow> mem \<Rightarrow> mem option" where
  "swap_active_list_add page s = do {
     kassert (PageSwap (pg s page));
     let s1 = upd_pg page SetPageActive s;
     Some (s1\<lparr>nr_active_pages := nr_active_pages s1 + 1, active_list := active_list s1 @ [page]\<rparr>)
   }"

definition swap_inactive_list_add :: "nat \<Rightarrow> mem \<Rightarrow> mem option" where
  "swap_inactive_list_add page s = do {
     kassert (PageSwap (pg s page));
     let s1 = upd_pg page ClearPageActive s;
     Some (s1\<lparr>nr_inactive_pages := nr_inactive_pages s1 + 1, inactive_list := inactive_list s1 @ [page]\<rparr>)
   }"

definition swap_list_del :: "nat \<Rightarrow> mem \<Rightarrow> mem option" where
  "swap_list_del page s = do {
     kassert (PageSwap (pg s page));
     Some (if PageActive (pg s page)
           then s\<lparr>nr_active_pages := nr_active_pages s - 1, active_list := remove1 page (active_list s)\<rparr>
           else s\<lparr>nr_inactive_pages := nr_inactive_pages s - 1, inactive_list := remove1 page (inactive_list s)\<rparr>)
   }"

definition swap_hash_find :: "u32 \<Rightarrow> mem \<Rightarrow> nat option" where
  "swap_hash_find entry s = find (\<lambda>p. pg_index (pg s p) = entry) (hash_list s (entry_hashfn entry))"

definition swap_page_del :: "nat \<Rightarrow> mem \<Rightarrow> mem option" where
  "swap_page_del page s = do {
     kassert (PageSwap (pg s page));
     let s1 = upd_pg page ClearPageSwap s;
     let h = entry_hashfn (pg_index (pg s1 page));
     Some (s1\<lparr>hash_list := (hash_list s1)(h := remove1 page (hash_list s1 h))\<rparr>)
   }"

definition swap_free_page :: "nat \<Rightarrow> mem \<Rightarrow> mem option" where
  "swap_free_page page s = do {
     kassert (PageSwap (pg s page) \<and> pg_ref (pg s page) = 0);
     s1 \<leftarrow> swap_page_del page s;
     free_page page s1
   }"

section \<open>Swap entries\<close>

text \<open>The search of \<^verbatim>\<open>try_alloc_swap_entry\<close>: the last unused offset seen, the first unreferenced one, and where the
  next search starts.\<close>

partial_function (option) swap_scan :: "(nat \<Rightarrow> u16) \<Rightarrow> nat \<Rightarrow> nat \<Rightarrow> nat \<Rightarrow> nat \<Rightarrow> (nat \<times> nat \<times> nat) option" where
  "swap_scan m mx end' zero next =
     (let empty = (if m next = SWAP_UNUSED then next else 0);
          zero' = (if m next \<noteq> SWAP_UNUSED \<and> m next = 0 \<and> zero = 0 then next else zero);
          next' = (if next + 1 = mx then 1 else next + 1)
      in if empty = 0 \<and> next' \<noteq> end' then swap_scan m mx end' zero' next' else Some (empty, zero', next'))"

definition try_alloc_swap_entry :: "mem \<Rightarrow> (u32 \<times> mem) option" where
  "try_alloc_swap_entry s = do {
     (empty, zero, next) \<leftarrow> swap_scan (mem_map s) (max_swap_offset s) (swap_next s) 0 (swap_next s);
     let s1 = s\<lparr>swap_next := next\<rparr>;
     if empty \<noteq> 0 then Some (push_bit 8 (of_nat empty), s1)
     else if zero \<noteq> 0 then do {
       let entry = push_bit 8 (of_nat zero);
       page \<leftarrow> swap_hash_find entry s1;
       kassert (PageSwap (pg s1 page));
       s2 \<leftarrow> swap_list_del page s1;
       s3 \<leftarrow> (if pg_ref (pg s2 page) = 0 then swap_free_page page s2 else swap_page_del page s2);
       Some (entry, set_map zero SWAP_UNUSED s3)
     }
     else Some (0, s1)
   }"

definition swap_page_add :: "nat \<Rightarrow> u32 \<Rightarrow> mem \<Rightarrow> (bool \<times> mem) option" where
  "swap_page_add page entry s = do {
     kassert (\<not> PageSwap (pg s page));
     (entry, s1) \<leftarrow>
       (if entry = 0 then do {
          (e, s') \<leftarrow> try_alloc_swap_entry s;
          if e = 0 then Some (0, s')
          else do {
            off \<leftarrow> swap_offset e s';
            kassert (mem_map s' off = SWAP_UNUSED);
            Some (e, upd_pg page SetPageDirty (set_map off 0 s'))
          }
        }
        else Some (entry, s));
     if entry = 0 then Some (False, s1)
     else
       let s2 = upd_pg page (\<lambda>q. q\<lparr>pg_index := entry\<rparr>) (upd_pg page SetPageSwap s1);
           h = entry_hashfn entry
       in Some (True, s2\<lparr>hash_list := (hash_list s2)(h := page # hash_list s2 h)\<rparr>)
   }"

definition swap_remove_entry :: "u32 \<Rightarrow> mem \<Rightarrow> mem option" where
  "swap_remove_entry entry s = do {
     off \<leftarrow> swap_offset entry s;
     kassert (mem_map s off > 0);
     let s1 = set_map off (mem_map s off - 1) s;
     if mem_map s1 off = 0 then
       (case swap_hash_find entry s1 of
          None \<Rightarrow> Some (set_map off SWAP_UNUSED s1)
        | Some page \<Rightarrow>
            if pg_ref (pg s1 page) \<noteq> 0 then Some s1
            else do {
              s2 \<leftarrow> swap_list_del page s1;
              s3 \<leftarrow> swap_free_page page s2;
              Some (set_map off SWAP_UNUSED s3)
            })
     else Some s1
   }"

definition swap_page_count :: "nat \<Rightarrow> mem \<Rightarrow> nat option" where
  "swap_page_count page s =
     (if \<not> PageSwap (pg s page) then Some 0
      else do { off \<leftarrow> swap_offset (pg_index (pg s page)) s; Some (unat (mem_map s off)) })"

definition swap_decrease :: "u32 \<Rightarrow> mem \<Rightarrow> mem option" where
  "swap_decrease entry s = do {
     off \<leftarrow> swap_offset entry s;
     kassert (mem_map s off > 0 \<and> mem_map s off \<le> MAX_SWAP_REF);
     Some (set_map off (mem_map s off - 1) s)
   }"

definition swap_duplicate :: "u32 \<Rightarrow> mem \<Rightarrow> mem option" where
  "swap_duplicate entry s = do {
     off \<leftarrow> swap_offset entry s;
     kassert (mem_map s off < MAX_SWAP_REF);
     Some (set_map off (mem_map s off + 1) s)
   }"

section \<open>Initialisation\<close>

definition MAX_SWAP_OFFSET_LIMIT :: nat where "MAX_SWAP_OFFSET_LIMIT = 2 ^ 24"

definition swap_init :: "nat \<Rightarrow> mem \<Rightarrow> mem option" where
  "swap_init max_size s = do {
     kassert (1024 \<le> max_size \<and> max_size < MAX_SWAP_OFFSET_LIMIT);
     Some (s\<lparr>max_swap_offset := max_size,
             active_list := [], nr_active_pages := 0, inactive_list := [], nr_inactive_pages := 0,
             mem_map := (\<lambda>off. if off < max_size then SWAP_UNUSED else mem_map s off),
             hash_list := (\<lambda>i. if i < 2 ^ HASH_SHIFT then [] else hash_list s i),
             swap_in_sem := 1\<rparr>)
   }"

section \<open>Transfers\<close>

definition swapfs_read :: "u32 \<Rightarrow> nat \<Rightarrow> mem \<Rightarrow> (bool \<times> mem) option" where
  "swapfs_read entry page s = do {
     off \<leftarrow> swap_offset entry s;
     f \<leftarrow> KVADDR (page2pa page) s;
     Some (if swap_fault s off then (False, s) else (True, set_frame f (swap_dev s off) s))
   }"

definition swapfs_write :: "u32 \<Rightarrow> nat \<Rightarrow> mem \<Rightarrow> (bool \<times> mem) option" where
  "swapfs_write entry page s = do {
     off \<leftarrow> swap_offset entry s;
     f \<leftarrow> KVADDR (page2pa page) s;
     Some (if swap_fault s off then (False, s) else (True, s\<lparr>swap_dev := (swap_dev s)(off := frames s f)\<rparr>))
   }"

definition down_swap_in :: "mem \<Rightarrow> mem option" where
  "down_swap_in s = do { kassert (swap_in_sem s > 0); Some (s\<lparr>swap_in_sem := swap_in_sem s - 1\<rparr>) }"

definition up_swap_in :: "mem \<Rightarrow> mem" where
  "up_swap_in s = s\<lparr>swap_in_sem := swap_in_sem s + 1\<rparr>"

definition swap_in_page :: "u32 \<Rightarrow> mem \<Rightarrow> ((kerr + nat) \<times> mem) option" where
  "swap_in_page entry s = do {
     _ \<leftarrow> swap_offset entry s;
     case swap_hash_find entry s of
       Some page \<Rightarrow> Some (Inr page, s)
     | None \<Rightarrow> do {
         (new_page, s1) \<leftarrow> alloc_page s;
         s2 \<leftarrow> down_swap_in s1;
         case swap_hash_find entry s2 of
           Some page \<Rightarrow> do {
             s3 \<leftarrow> (case new_page of None \<Rightarrow> Some s2 | Some p \<Rightarrow> free_page p s2);
             Some (Inr page, up_swap_in s3)
           }
         | None \<Rightarrow>
             (case new_page of
                None \<Rightarrow> Some (Inl E_NO_MEM, up_swap_in s2)
              | Some page \<Rightarrow> do {
                  (ok, s3) \<leftarrow> swapfs_read entry page s2;
                  if \<not> ok then do {
                    s4 \<leftarrow> free_page page s3;
                    Some (Inl E_SWAP_FAULT, up_swap_in s4)
                  }
                  else do {
                    (_, s4) \<leftarrow> swap_page_add page entry s3;
                    s5 \<leftarrow> swap_active_list_add page s4;
                    Some (Inr page, up_swap_in s5)
                  }
                })
       }
   }"

definition swap_copy_entry :: "u32 \<Rightarrow> mem \<Rightarrow> ((kerr + u32) \<times> mem) option" where
  "swap_copy_entry entry s = do {
     s1 \<leftarrow> swap_duplicate entry s;
     (new_page, s2) \<leftarrow> alloc_page s1;
     (ret, s3) \<leftarrow>
       (case new_page of
          None \<Rightarrow> Some (Inl E_NO_MEM, s2)
        | Some np \<Rightarrow> do {
            (r, s') \<leftarrow> swap_in_page entry s2;
            case r of
              Inl e \<Rightarrow> do { s'' \<leftarrow> free_page np s'; Some (Inl e, s'') }
            | Inr page \<Rightarrow> do {
                (ok, s'') \<leftarrow> swap_page_add np 0 s';
                if \<not> ok then do { s4 \<leftarrow> free_page np s''; Some (Inl E_NO_MEM, s4) }
                else do {
                  s4 \<leftarrow> swap_active_list_add np s'';
                  fn \<leftarrow> KVADDR (page2pa np) s4;
                  fp \<leftarrow> KVADDR (page2pa page) s4;
                  Some (Inr (pg_index (pg s4 np)), set_frame fn (frames s4 fp) s4)
                }
              }
          });
     s4 \<leftarrow> swap_remove_entry entry s3;
     Some (ret, s4)
   }"

section \<open>Reclaiming pages\<close>

definition try_free_swap_entry :: "u32 \<Rightarrow> mem \<Rightarrow> (bool \<times> mem) option" where
  "try_free_swap_entry entry s = do {
     off \<leftarrow> swap_offset entry s;
     Some (if mem_map s off = 0 then (True, set_map off SWAP_UNUSED s) else (False, s))
   }"

text \<open>What \<^verbatim>\<open>page_launder\<close> does with one page it took off the inactive list: true when the page was freed.\<close>

definition launder_page :: "nat \<Rightarrow> mem \<Rightarrow> (bool \<times> mem) option" where
  "launder_page page s =
     (if pg_ref (pg s page) \<noteq> 0 then do { s1 \<leftarrow> swap_active_list_add page s; Some (False, s1) }
      else do {
        let entry = pg_index (pg s page);
        (freed, s1) \<leftarrow> try_free_swap_entry entry s;
        if \<not> freed \<and> PageDirty (pg s1 page) then do {
          s2 \<leftarrow> swap_duplicate entry (upd_pg page ClearPageDirty s1);
          (ok, s3) \<leftarrow> swapfs_write entry page s2;
          let s4 = (if ok then s3 else upd_pg page SetPageDirty s3);
          off \<leftarrow> swap_offset entry s4;
          let s5 = set_map off (mem_map s4 off - 1) s4;
          if pg_ref (pg s5 page) \<noteq> 0 then do { s6 \<leftarrow> swap_active_list_add page s5; Some (False, s6) }
          else if PageDirty (pg s5 page) then do { s6 \<leftarrow> swap_inactive_list_add page s5; Some (False, s6) }
          else do {
            (_, s6) \<leftarrow> try_free_swap_entry entry s5;
            s7 \<leftarrow> swap_free_page page s6;
            Some (True, s7)
          }
        }
        else do {
          s2 \<leftarrow> swap_free_page page s1;
          Some (True, s2)
        }
      })"

fun launder_loop :: "nat \<Rightarrow> nat option \<Rightarrow> nat \<Rightarrow> mem \<Rightarrow> (nat \<times> mem) option" where
  "launder_loop 0 entry count s = Some (count, s)"
| "launder_loop (Suc n) None count s = Some (count, s)"
| "launder_loop (Suc n) (Some page) count s = do {
     let entry' = next_of (inactive_list s) page;
     kassert (PageSwap (pg s page) \<and> \<not> PageActive (pg s page));
     s1 \<leftarrow> swap_list_del page s;
     (freed, s2) \<leftarrow> launder_page page s1;
     launder_loop n entry' (if freed then count + 1 else count) s2
   }"

definition page_launder :: "mem \<Rightarrow> (nat \<times> mem) option" where
  "page_launder s = launder_loop (nr_inactive_pages s) (list_first (inactive_list s)) 0 s"

fun refill_loop :: "nat \<Rightarrow> nat option \<Rightarrow> mem \<Rightarrow> mem option" where
  "refill_loop 0 entry s = Some s"
| "refill_loop (Suc n) None s = Some s"
| "refill_loop (Suc n) (Some page) s = do {
     let entry' = next_of (active_list s) page;
     kassert (PageSwap (pg s page) \<and> PageActive (pg s page));
     s' \<leftarrow> (if pg_ref (pg s page) = 0 then do { s1 \<leftarrow> swap_list_del page s; swap_inactive_list_add page s1 } else Some s);
     refill_loop n entry' s'
   }"

definition refill_inactive_scan :: "mem \<Rightarrow> mem option" where
  "refill_inactive_scan s = refill_loop (nr_active_pages s) (list_first (active_list s)) s"

section \<open>Mapping pages\<close>

definition page_remove_pte :: "ptep \<Rightarrow> mem \<Rightarrow> mem option" where
  "page_remove_pte ptep s =
     (if has (rd s ptep) PTE_P then do {
        page \<leftarrow> pte2page (rd s ptep) s;
        s1 \<leftarrow> (if \<not> PageSwap (pg s page) then
                 (let s' = page_ref_decr page s in if pg_ref (pg s' page) = 0 then free_page page s' else Some s')
               else Some (page_ref_decr page (if has (rd s ptep) PTE_D then upd_pg page SetPageDirty s else s)));
        Some (wr ptep 0 s1)
      }
      else if rd s ptep \<noteq> 0 then do {
        s1 \<leftarrow> swap_remove_entry (rd s ptep) s;
        Some (wr ptep 0 s1)
      }
      else Some s)"

definition page_remove :: "nat \<Rightarrow> u32 \<Rightarrow> mem \<Rightarrow> mem option" where
  "page_remove pgdir va s = do {
     (ptep, s1) \<leftarrow> get_pte pgdir va False s;
     case ptep of None \<Rightarrow> Some s1 | Some x \<Rightarrow> page_remove_pte x s1
   }"

definition page_insert :: "nat \<Rightarrow> nat \<Rightarrow> u32 \<Rightarrow> u32 \<Rightarrow> mem \<Rightarrow> ((kerr + unit) \<times> mem) option" where
  "page_insert pgdir page va perm s = do {
     (ptep, s1) \<leftarrow> get_pte pgdir va True s;
     case ptep of
       None \<Rightarrow> Some (Inl E_NO_MEM, s1)
     | Some x \<Rightarrow> do {
         let s2 = page_ref_incr page s1;
         s3 \<leftarrow> (if has (rd s2 x) PTE_P then do {
                  p \<leftarrow> pte2page (rd s2 x) s2;
                  if p = page then Some (page_ref_decr page s2) else page_remove_pte x s2
                }
                else Some s2);
         Some (Inr (), wr x (page2pa page OR PTE_P OR perm) s3)
       }
   }"

definition page_dir_alloc_page :: "nat \<Rightarrow> u32 \<Rightarrow> u32 \<Rightarrow> mem \<Rightarrow> (nat option \<times> mem) option" where
  "page_dir_alloc_page pgdir va perm s = do {
     (r, s1) \<leftarrow> alloc_page s;
     case r of
       None \<Rightarrow> Some (None, s1)
     | Some page \<Rightarrow> do {
         (ret, s2) \<leftarrow> page_insert pgdir page va perm s1;
         case ret of
           Inr _ \<Rightarrow> Some (Some page, s2)
         | Inl _ \<Rightarrow> do { s3 \<leftarrow> free_page page s2; Some (None, s3) }
       }
   }"

section \<open>Ranges of addresses\<close>

definition USER_TOP :: u32 where "USER_TOP = 0xB0000000"
definition USER_BASE :: u32 where "USER_BASE = 0x00200000"
definition KERNEL_TOP :: u32 where "KERNEL_TOP = KERNEL_BASE + 0x38000000"

definition USER_ACCESS :: "u32 \<Rightarrow> u32 \<Rightarrow> bool" where
  "USER_ACCESS start end' = (USER_BASE \<le> start \<and> start < end' \<and> end' \<le> USER_TOP)"

definition KERNEL_ACCESS :: "u32 \<Rightarrow> u32 \<Rightarrow> bool" where
  "KERNEL_ACCESS start end' = (KERNEL_BASE \<le> start \<and> start < end' \<and> end' \<le> KERNEL_TOP)"

definition range_check :: "u32 \<Rightarrow> u32 \<Rightarrow> unit option" where
  "range_check start end' = do {
     kassert (start mod PAGE_SIZE = 0 \<and> end' mod PAGE_SIZE = 0);
     kassert (USER_ACCESS start end')
   }"

definition unmap_step :: "nat \<Rightarrow> u32 \<Rightarrow> mem \<Rightarrow> (u32 \<times> mem) option" where
  "unmap_step pgdir start s = do {
     (ptep, s1) \<leftarrow> get_pte pgdir start False s;
     case ptep of
       None \<Rightarrow> Some (ROUNDDOWN (start + PT_SIZE) PT_SIZE, s1)
     | Some x \<Rightarrow> do {
         s2 \<leftarrow> (if rd s1 x \<noteq> 0 then page_remove_pte x s1 else Some s1);
         Some (start + PAGE_SIZE, s2)
       }
   }"

partial_function (option) unmap_loop :: "nat \<Rightarrow> u32 \<Rightarrow> u32 \<Rightarrow> mem \<Rightarrow> mem option" where
  "unmap_loop pgdir start end' s = do {
     (start', s') \<leftarrow> unmap_step pgdir start s;
     if start' \<noteq> 0 \<and> start' < end' then unmap_loop pgdir start' end' s' else Some s'
   }"

definition unmap_range :: "nat \<Rightarrow> u32 \<Rightarrow> u32 \<Rightarrow> mem \<Rightarrow> mem option" where
  "unmap_range pgdir start end' s = do {
     range_check start end';
     unmap_loop pgdir start end' s
   }"

definition exit_step :: "nat \<Rightarrow> u32 \<Rightarrow> mem \<Rightarrow> mem option" where
  "exit_step pgdir start s =
     (if has (frames s pgdir (PDX start)) PTE_P then do {
        p \<leftarrow> pte2page (frames s pgdir (PDX start)) s;
        s1 \<leftarrow> free_page p s;
        Some (wr (pgdir, PDX start) 0 s1)
      }
      else Some s)"

partial_function (option) exit_loop :: "nat \<Rightarrow> u32 \<Rightarrow> u32 \<Rightarrow> mem \<Rightarrow> mem option" where
  "exit_loop pgdir start end' s = do {
     s' \<leftarrow> exit_step pgdir start s;
     let start' = start + PT_SIZE;
     if start' \<noteq> 0 \<and> start' < end' then exit_loop pgdir start' end' s' else Some s'
   }"

definition exit_range :: "nat \<Rightarrow> u32 \<Rightarrow> u32 \<Rightarrow> mem \<Rightarrow> mem option" where
  "exit_range pgdir start end' s = do {
     range_check start end';
     exit_loop pgdir (ROUNDDOWN start PT_SIZE) end' s
   }"

text \<open>Copying one page table entry of \<open>from\<close> to \<open>to\<close>; \<open>x\<close> is the entry of \<open>from\<close>, and not zero.\<close>

definition copy_pte :: "nat \<Rightarrow> nat \<Rightarrow> u32 \<Rightarrow> bool \<Rightarrow> ptep \<Rightarrow> mem \<Rightarrow> ((kerr + unit) \<times> mem) option" where
  "copy_pte to from start share x s = do {
     (new_ptep, s1) \<leftarrow> get_pte to start True s;
     case new_ptep of
       None \<Rightarrow> Some (Inl E_NO_MEM, s1)
     | Some y \<Rightarrow> do {
         kassert (rd s1 x \<noteq> 0 \<and> rd s1 y = 0);
         if has (rd s1 x) PTE_P then do {
           page \<leftarrow> pte2page (rd s1 x) s1;
           let perm = rd s1 x AND PTE_USER;
           (perm, s2) \<leftarrow>
             (if \<not> share \<and> has (rd s1 x) PTE_W then do {
                let perm' = perm AND NOT PTE_W;
                (_, s') \<leftarrow> page_insert from page start (perm' OR (rd s1 x AND PTE_SWAP)) s1;
                Some (perm', s')
              }
              else Some (perm, s1));
           (ret, s3) \<leftarrow> page_insert to page start perm s2;
           kassert (ret = Inr ());
           Some (Inr (), s3)
         }
         else do {
           s2 \<leftarrow> swap_duplicate (rd s1 x) s1;
           Some (Inr (), wr y (rd s1 x) s2)
         }
       }
   }"

definition copy_step :: "nat \<Rightarrow> nat \<Rightarrow> u32 \<Rightarrow> bool \<Rightarrow> mem \<Rightarrow> ((kerr + u32) \<times> mem) option" where
  "copy_step to from start share s = do {
     (ptep, s1) \<leftarrow> get_pte from start False s;
     case ptep of
       None \<Rightarrow> Some (Inr (ROUNDDOWN (start + PT_SIZE) PT_SIZE), s1)
     | Some x \<Rightarrow>
         if rd s1 x \<noteq> 0 then do {
           (r, s2) \<leftarrow> copy_pte to from start share x s1;
           Some (case r of Inl e \<Rightarrow> Inl e | Inr _ \<Rightarrow> Inr (start + PAGE_SIZE), s2)
         }
         else Some (Inr (start + PAGE_SIZE), s1)
   }"

partial_function (option) copy_loop ::
    "nat \<Rightarrow> nat \<Rightarrow> u32 \<Rightarrow> u32 \<Rightarrow> bool \<Rightarrow> mem \<Rightarrow> ((kerr + unit) \<times> mem) option" where
  "copy_loop to from start end' share s = do {
     (r, s') \<leftarrow> copy_step to from start share s;
     case r of
       Inl e \<Rightarrow> Some (Inl e, s')
     | Inr start' \<Rightarrow>
         if start' \<noteq> 0 \<and> start' < end' then copy_loop to from start' end' share s' else Some (Inr (), s')
   }"

definition copy_range :: "nat \<Rightarrow> nat \<Rightarrow> u32 \<Rightarrow> u32 \<Rightarrow> bool \<Rightarrow> mem \<Rightarrow> ((kerr + unit) \<times> mem) option" where
  "copy_range to from start end' share s = do {
     range_check start end';
     copy_loop to from start end' share s
   }"

end
