(* ===== verification/Refs.thy ===== *)
theory Refs
  imports Paging
begin

text \<open>
  The invariant of the paging and swap state: reference counts are the numbers of page table entries that map a page, swap
  counts the numbers of entries that name a swap offset, and the operations of \<open>Paging\<close> keep both exact.
\<close>

section \<open>Words\<close>

lemma PPN_addr [simp]: "PPN (PTE_ADDR w) = PPN w"
proof -
  have "PTE_ADDR w = w AND NOT (mask 12)" by (simp add: PTE_ADDR_def mask_eq_exp_minus_1)
  then have "drop_bit 12 (PTE_ADDR w) = drop_bit 12 w"
    by (intro bit_word_eqI) (auto simp: bit_simps simp del: mask_numeral dest: bit_imp_le_length)
  then show ?thesis by (simp add: PPN_def)
qed

lemma drop_push_small:
  assumes "p < 2 ^ (32 - k)" "k \<le> 32"
  shows "drop_bit k (push_bit k (of_nat p :: u32)) = of_nat p" "unat (of_nat p :: u32) = p"
proof -
  have "n < 32 - k" if "bit p n" for n
  proof (rule ccontr)
    assume "\<not> n < 32 - k"
    then have "p < 2 ^ n" using assms(1) power_increasing [of "32 - k" n "2 :: nat"] by linarith
    with that show False by (simp add: bit_iff_odd)
  qed
  then have "k + n < 32" if "bit p n" for n using that assms(2) by fastforce
  then show "drop_bit k (push_bit k (of_nat p :: u32)) = of_nat p"
    by (intro bit_word_eqI) (auto simp: bit_simps)
  have "p < 2 ^ 32" using assms(1) power_increasing [of "32 - k" 32 "2 :: nat"] by simp
  then show "unat (of_nat p :: u32) = p" by (simp add: unsigned_of_nat take_bit_eq_mod)
qed

lemma PPN_page2pa: "p < 2 ^ 20 \<Longrightarrow> f < 4096 \<Longrightarrow> PPN (page2pa p OR f) = p"
proof -
  assume p: "p < 2 ^ 20" and f: "f < 4096"
  have "drop_bit 12 f = 0" using f by (simp add: drop_bit_eq_div word_less_nat_alt div_word_less)
  then show ?thesis using drop_push_small [of p 12] p by (simp add: PPN_def page2pa_def)
qed

lemma has_P_or [simp]: "has (a OR PTE_P OR b) PTE_P" "has (a OR b OR c OR PTE_P) PTE_P" "has (a OR PTE_P) PTE_P"
proof -
  have h: "has w PTE_P = bit w 0" for w
  proof -
    have "w AND 1 = of_bool (bit w 0)" by (simp add: and_one_eq odd_iff_mod_2_eq_one bit_0)
    then show ?thesis by (simp add: has_def PTE_P_def)
  qed
  show "has (a OR PTE_P OR b) PTE_P" "has (a OR b OR c OR PTE_P) PTE_P" "has (a OR PTE_P) PTE_P"
    unfolding h by (simp_all add: PTE_P_def bit_simps)
qed

lemma has_0 [simp]: "\<not> has 0 m"
  by (simp add: has_def)

definition ent :: "nat \<Rightarrow> u32" where
  "ent off = push_bit 8 (of_nat off)"

lemma ent_drop: "off < 2 ^ 24 \<Longrightarrow> unat (drop_bit 8 (ent off)) = off"
  using drop_push_small [of off 8] by (simp add: ent_def)

lemma ent_not_P [simp]: "\<not> has (ent off) PTE_P"
proof -
  have "ent off AND 1 = of_bool (bit (ent off) 0)" by (simp add: and_one_eq odd_iff_mod_2_eq_one bit_0)
  then show ?thesis by (simp add: has_def PTE_P_def ent_def bit_simps)
qed

lemma ent_inj: "a < 2 ^ 24 \<Longrightarrow> b < 2 ^ 24 \<Longrightarrow> (ent a = ent b) = (a = b)"
  using ent_drop by metis

lemma ent_nonzero: "0 < off \<Longrightarrow> off < 2 ^ 24 \<Longrightarrow> ent off \<noteq> 0"
  using ent_drop [of off] by auto

section \<open>What the buddy manager does to page descriptors\<close>

definition like :: "page \<Rightarrow> page \<Rightarrow> bool" where
  "like p q = (pg_ref q = pg_ref p \<and> pg_index q = pg_index p \<and>
     (\<forall>i. i \<noteq> PG_property \<longrightarrow> test_bit_w i (pg_flags q) = test_bit_w i (pg_flags p)))"

definition keeps :: "nat set \<Rightarrow> buddy \<Rightarrow> buddy \<Rightarrow> bool" where
  "keeps A b b' = (same_map b b' \<and> (\<forall>q. q \<notin> A \<longrightarrow> like (bd_pages b q) (bd_pages b' q)))"

lemma like_refl [simp]: "like p p"
  by (simp add: like_def)

lemma like_trans: "like p q \<Longrightarrow> like q r \<Longrightarrow> like p r"
  by (simp add: like_def)

lemma like_flags: "like p q \<Longrightarrow> PageSwap q = PageSwap p \<and> PageActive q = PageActive p \<and> pg_ref q = pg_ref p \<and> pg_index q = pg_index p"
  by (simp add: like_def PageSwap_def PageActive_def PG_defs)

lemma like_property [simp]:
  "like p (SetPageProperty p)" "like p (ClearPageProperty p)" "like p (SetPageProperty (p\<lparr>pg_property := k\<rparr>))"
  by (simp_all add: like_def SetPageProperty_def ClearPageProperty_def)

lemma keeps_refl [simp]: "keeps A b b"
  by (simp add: keeps_def)

lemma keeps_trans: "keeps A b b' \<Longrightarrow> keeps A b' b'' \<Longrightarrow> keeps A b b''"
  unfolding keeps_def using same_map_trans like_trans by blast

lemma keeps_ops [simp]: "keeps {} b (add_block p k b)" "keeps {} b (del_block p k b)"
  by (auto simp: keeps_def add_block_def del_block_def Let_def bd_upd_def same_map_def)

lemma keeps_split: "keeps {} b (buddy_split order page k b)"
proof (induction k arbitrary: b)
  case (Suc k)
  show ?case using keeps_trans [OF keeps_ops(1) Suc.IH] by simp
qed simp

lemma keeps_merge: "keeps {} b (snd (snd (buddy_merge zone order idx b)))"
proof (induction zone order idx b rule: buddy_merge.induct)
  case (1 zone order idx b)
  show ?case
  proof (cases "order < MAX_ORDER \<and> page_is_buddy (idx2page zone (idx XOR 2 ^ order) b) order zone b")
    case True
    then have "keeps {} (del_block (idx2page zone (idx XOR 2 ^ order) b) order b)
        (snd (snd (buddy_merge zone (order + 1) (idx AND (idx XOR 2 ^ order))
           (del_block (idx2page zone (idx XOR 2 ^ order) b) order b))))"
      using "1.IH" [OF _ refl refl] by simp
    then have "keeps {} b (snd (snd (buddy_merge zone (order + 1) (idx AND (idx XOR 2 ^ order))
           (del_block (idx2page zone (idx XOR 2 ^ order) b) order b))))"
      by (rule keeps_trans [OF keeps_ops(2)])
    then show ?thesis using True by (subst buddy_merge.simps) (simp add: Let_def)
  next
    case False
    then show ?thesis by (subst buddy_merge.simps) (auto simp: Let_def)
  qed
qed

definition blank :: "page \<Rightarrow> bool" where
  "blank p = (pg_ref p = 0 \<and> \<not> PageSwap p)"

lemma buddy_req_one: "buddy_req 1"
  by (simp add: buddy_req_def)

lemma buddy_free_one:
  assumes inv: "buddy_inv b" and us: "buddy_usable b p 1" and fr: "p \<notin> buddy_free_set b"
  shows "\<exists>b'. buddy_free_pages p 1 b = Some b' \<and> buddy_inv b' \<and> buddy_free_set b' = insert p (buddy_free_set b) \<and>
    keeps {p} b b' \<and> blank (bd_pages b' p)"
proof -
  obtain b' where b': "buddy_free_pages p 1 b = Some b'" "buddy_inv b'" "buddy_free_set b' = buddy_free_set b \<union> {p..<p + 1}"
    using bd.free_block [OF inv buddy_req_one us] fr by auto
  let ?c = "bd_upd p (\<lambda>pg. set_page_ref 0 (pg\<lparr>pg_flags := 0\<rparr>)) b"
  let ?m = "buddy_merge (pg_zone (bd_pages ?c p)) 0 (page2idx p b) ?c"
  have "\<not> PageReserved (bd_pages b p)" using us by (simp add: buddy_usable_def region_def)
  then have c: "keeps {p} b ?c" "blank (bd_pages ?c p)"
    by (simp_all add: keeps_def same_map_def blank_def PageSwap_def set_page_ref_def PageReserved_def)
  have run: "b' = add_block (idx2page (pg_zone (bd_pages ?c p)) (fst (snd ?m)) (snd (snd ?m))) (fst ?m) (snd (snd ?m))"
    using b'(1) by (simp add: buddy_free_pages_def buddy_free_pages_sub_def Let_def case_prod_beta)
  have k: "keeps {} ?c b'" unfolding run using keeps_trans [OF keeps_merge keeps_ops(1)] by blast
  have "keeps {p} b b'" using c(1) k unfolding keeps_def using same_map_trans like_trans by blast
  moreover have "like (bd_pages ?c p) (bd_pages b' p)" using k unfolding keeps_def by blast
  then have "blank (bd_pages b' p)" using c(2) like_flags by (simp add: blank_def)
  ultimately show ?thesis using b' by auto
qed

lemma buddy_alloc_one:
  assumes inv: "buddy_inv b"
  shows "\<exists>r b'. buddy_alloc_pages 1 b = Some (r, b') \<and> buddy_inv b' \<and> keeps {} b b' \<and>
    (case r of None \<Rightarrow> b' = b
     | Some p \<Rightarrow> p \<in> buddy_free_set b \<and> buddy_free_set b' = buddy_free_set b - {p} \<and> buddy_usable b' p 1)"
proof -
  note req = buddy_req_one
  obtain r b' where a: "buddy_alloc_pages 1 b = Some (r, b')" using bd.alloc_returns [OF inv req] by blast
  have o: "get_order 1 = Some 0" unfolding get_order_def by (subst get_order_from.simps) simp
  show ?thesis
  proof (cases r)
    case None
    then show ?thesis using a inv bd.alloc_fails [OF inv req] by auto
  next
    case (Some p)
    obtain cur where cur: "buddy_find 0 b = Some cur" "p = hd (bd_list b cur)"
      "b' = bd_upd p ClearPageProperty (buddy_split 0 p cur
        (b\<lparr>bd_nr := (bd_nr b)(cur := bd_nr b cur - 1), bd_list := (bd_list b)(cur := remove1 p (bd_list b cur))\<rparr>))"
      using a Some o by (auto simp: buddy_alloc_pages_def buddy_alloc_pages_sub_def Let_def bind_Some_conv split: option.splits)
    let ?b1 = "b\<lparr>bd_nr := (bd_nr b)(cur := bd_nr b cur - 1), bd_list := (bd_list b)(cur := remove1 p (bd_list b cur))\<rparr>"
    have "keeps {} b ?b1" by (simp add: keeps_def same_map_def)
    moreover have "keeps {} ?b1 (buddy_split 0 p cur ?b1)" by (rule keeps_split)
    moreover have "keeps {} c (bd_upd p ClearPageProperty c)" for c by (simp add: keeps_def same_map_def)
    ultimately have "keeps {} b b'" unfolding cur(3) by (blast intro: keeps_trans)
    then show ?thesis
      using a Some bd.alloc_inv [OF inv req] bd.alloc_block [OF inv req, of p b'] by auto
  qed
qed

section \<open>Counting entries\<close>

lemma card_update:
  assumes "finite L" "x \<in> L" "\<And>y. y \<in> L \<Longrightarrow> y \<noteq> x \<Longrightarrow> P' y = P y"
  shows "int (card {y \<in> L. P' y}) = int (card {y \<in> L. P y}) - of_bool (P x) + of_bool (P' x)"
proof -
  let ?A = "{y \<in> L. P y \<and> y \<noteq> x}"
  have "{y \<in> L. P y} = (if P x then insert x ?A else ?A)" "{y \<in> L. P' y} = (if P' x then insert x ?A else ?A)"
    using assms(2,3) by auto
  moreover have "finite ?A" "x \<notin> ?A" using assms(1) by auto
  ultimately show ?thesis by simp
qed

definition maps :: "u32 \<Rightarrow> nat \<Rightarrow> bool" where
  "maps w p = (has w PTE_P \<and> PPN w = p)"

definition cnt :: "mem \<Rightarrow> ptep set \<Rightarrow> nat \<Rightarrow> nat" where
  "cnt s L p = card {x \<in> L. maps (rd s x) p}"

definition scnt :: "mem \<Rightarrow> ptep set \<Rightarrow> u32 \<Rightarrow> nat" where
  "scnt s L e = card {x \<in> L. rd s x = e}"

lemma rd_simps [simp]:
  "rd (wr x v s) y = (if y = x then v else rd s y)" "rd (upd_pg p f s) y = rd s y" "rd (set_map off w s) y = rd s y"
  "pg (wr x v s) = pg s" "pg (set_map off w s) = pg s" "pg (set_frame fr c s) = pg s"
  "pg (upd_pg p f s) = (pg s)(p := f (pg s p))"
  by (auto simp: rd_def wr_def upd_pg_def set_map_def set_frame_def pg_def prod_eq_iff)

lemma mem_simps [simp]:
  "pm (wr x v s) = pm s" "pm (set_map off w s) = pm s" "pm (set_frame fr c s) = pm s" "pm (upd_pg p f s) = bd_upd p f (pm s)"
  "frames (upd_pg p f s) = frames s" "frames (set_map off w s) = frames s"
  "mem_map (upd_pg p f s) = mem_map s" "mem_map (wr x v s) = mem_map s" "mem_map (set_frame fr c s) = mem_map s"
  "mem_map (set_map off w s) = (mem_map s)(off := w)"
  "max_swap_offset (upd_pg p f s) = max_swap_offset s" "max_swap_offset (wr x v s) = max_swap_offset s"
  "max_swap_offset (set_map off w s) = max_swap_offset s" "max_swap_offset (set_frame fr c s) = max_swap_offset s"
  "hash_list (upd_pg p f s) = hash_list s" "hash_list (wr x v s) = hash_list s" "hash_list (set_map off w s) = hash_list s"
  "hash_list (set_frame fr c s) = hash_list s"
  "active_list (upd_pg p f s) = active_list s" "active_list (wr x v s) = active_list s" "active_list (set_map off w s) = active_list s"
  "active_list (set_frame fr c s) = active_list s"
  "inactive_list (upd_pg p f s) = inactive_list s" "inactive_list (wr x v s) = inactive_list s"
  "inactive_list (set_map off w s) = inactive_list s" "inactive_list (set_frame fr c s) = inactive_list s"
  "nr_active_pages (upd_pg p f s) = nr_active_pages s" "nr_active_pages (wr x v s) = nr_active_pages s"
  "nr_active_pages (set_map off w s) = nr_active_pages s" "nr_active_pages (set_frame fr c s) = nr_active_pages s"
  "nr_inactive_pages (upd_pg p f s) = nr_inactive_pages s" "nr_inactive_pages (wr x v s) = nr_inactive_pages s"
  "nr_inactive_pages (set_map off w s) = nr_inactive_pages s" "nr_inactive_pages (set_frame fr c s) = nr_inactive_pages s"
  by (simp_all add: wr_def upd_pg_def set_map_def set_frame_def)

lemma cnt_wr:
  "finite L \<Longrightarrow> x \<in> L \<Longrightarrow> int (cnt (wr x v s) L p) = int (cnt s L p) - of_bool (maps (rd s x) p) + of_bool (maps v p)"
  unfolding cnt_def using card_update [of L x "\<lambda>y. maps (rd (wr x v s) y) p" "\<lambda>y. maps (rd s y) p"] by simp

lemma scnt_wr:
  "finite L \<Longrightarrow> x \<in> L \<Longrightarrow> int (scnt (wr x v s) L e) = int (scnt s L e) - of_bool (rd s x = e) + of_bool (v = e)"
  unfolding scnt_def using card_update [of L x "\<lambda>y. rd (wr x v s) y = e" "\<lambda>y. rd s y = e"] by simp

lemma cnt_cong: "(\<And>x. x \<in> L \<Longrightarrow> rd s' x = rd s x) \<Longrightarrow> cnt s' L p = cnt s L p \<and> scnt s' L e = scnt s L e"
  by (auto simp: cnt_def scnt_def intro!: arg_cong [where f = card])

section \<open>The invariant\<close>

text \<open>
  \<open>D\<close> are the page directories of the processes and \<open>E\<close> further entries that hold references, those of shared memory
  nodes.  A page is held when it belongs to the manager's memory and is not free.
\<close>

definition held :: "mem \<Rightarrow> nat \<Rightarrow> bool" where
  "held s p = (buddy_usable (pm s) p 1 \<and> p \<notin> buddy_free_set (pm s))"

definition USER_PDE :: nat where "USER_PDE = 704"

definition user_tab :: "mem \<Rightarrow> nat \<Rightarrow> nat \<Rightarrow> nat option" where
  "user_tab s d i = (if i < USER_PDE \<and> has (frames s d i) PTE_P then Some (PPN (frames s d i)) else None)"

definition tabs :: "mem \<Rightarrow> nat set \<Rightarrow> nat set" where
  "tabs s D = {f. \<exists>d\<in>D. \<exists>i. user_tab s d i = Some f}"

definition live :: "mem \<Rightarrow> nat set \<Rightarrow> ptep set \<Rightarrow> ptep set" where
  "live s D E = tabs s D \<times> {..<1024} \<union> E"

definition kpages :: "mem \<Rightarrow> nat set \<Rightarrow> ptep set \<Rightarrow> nat set" where
  "kpages s D E = tabs s D \<union> D \<union> fst ` E"

definition tab_inv :: "mem \<Rightarrow> nat set \<Rightarrow> ptep set \<Rightarrow> bool" where
  "tab_inv s D E = (buddy_inv (pm s) \<and> bd_npage (pm s) \<le> 0x38000 \<and> finite D \<and> finite E \<and>
     (\<forall>p\<in>kpages s D E. held s p) \<and> (tabs s D \<union> fst ` E) \<inter> D = {} \<and> tabs s D \<inter> fst ` E = {} \<and>
     (\<forall>d\<in>D. \<forall>d'\<in>D. \<forall>i i' f. user_tab s d i = Some f \<longrightarrow> user_tab s d' i' = Some f \<longrightarrow> d = d' \<and> i = i'))"

definition ref_inv :: "mem \<Rightarrow> ptep set \<Rightarrow> nat set \<Rightarrow> bool" where
  "ref_inv s L K = ((\<forall>x\<in>L. has (rd s x) PTE_P \<longrightarrow> held s (PPN (rd s x)) \<and> PPN (rd s x) \<notin> K) \<and>
     (\<forall>p. p \<notin> K \<longrightarrow> pg_ref (pg s p) = int (cnt s L p)))"

definition offset_ok :: "mem \<Rightarrow> nat \<Rightarrow> bool" where
  "offset_ok s off = (0 < off \<and> off < max_swap_offset s)"

definition list_inv :: "mem \<Rightarrow> bool" where
  "list_inv s = (distinct (active_list s @ inactive_list s) \<and>
     nr_active_pages s = length (active_list s) \<and> nr_inactive_pages s = length (inactive_list s) \<and>
     (\<forall>p. p \<in> set (active_list s) \<longleftrightarrow> PageSwap (pg s p) \<and> PageActive (pg s p)) \<and>
     (\<forall>p. p \<in> set (inactive_list s) \<longleftrightarrow> PageSwap (pg s p) \<and> \<not> PageActive (pg s p)) \<and>
     (\<forall>h. distinct (hash_list s h)) \<and>
     (\<forall>h p. p \<in> set (hash_list s h) \<longleftrightarrow> PageSwap (pg s p) \<and> entry_hashfn (pg_index (pg s p)) = h))"

definition swap_inv :: "mem \<Rightarrow> ptep set \<Rightarrow> nat set \<Rightarrow> bool" where
  "swap_inv s L K = (max_swap_offset s \<le> 2 ^ 24 \<and> list_inv s \<and>
     (\<forall>p. PageSwap (pg s p) \<longrightarrow> held s p \<and> p \<notin> K \<and>
        (\<exists>off. offset_ok s off \<and> pg_index (pg s p) = ent off \<and> mem_map s off \<noteq> SWAP_UNUSED)) \<and>
     (\<forall>p q. PageSwap (pg s p) \<longrightarrow> PageSwap (pg s q) \<longrightarrow> pg_index (pg s p) = pg_index (pg s q) \<longrightarrow> p = q) \<and>
     (\<forall>x\<in>L. \<not> has (rd s x) PTE_P \<longrightarrow> rd s x \<noteq> 0 \<longrightarrow> (\<exists>off. offset_ok s off \<and> rd s x = ent off)) \<and>
     (\<forall>off. offset_ok s off \<longrightarrow>
        scnt s L (ent off) = (if mem_map s off = SWAP_UNUSED then 0 else unat (mem_map s off))) \<and>
     (\<forall>off. offset_ok s off \<longrightarrow> mem_map s off = 0 \<longrightarrow> (\<exists>p. PageSwap (pg s p) \<and> pg_index (pg s p) = ent off)))"

definition mem_inv :: "mem \<Rightarrow> nat set \<Rightarrow> ptep set \<Rightarrow> bool" where
  "mem_inv s D E = (tab_inv s D E \<and> ref_inv s (live s D E) (kpages s D E) \<and> swap_inv s (live s D E) (kpages s D E))"

lemma held_page: "held s p \<Longrightarrow> p < bd_npage (pm s)"
  by (simp add: held_def buddy_usable_def region_def)

lemma finite_live:
  assumes "tab_inv s D E"
  shows "finite (live s D E)"
proof -
  have "tabs s D \<subseteq> {..<bd_npage (pm s)}" using assms held_page by (auto simp: tab_inv_def kpages_def)
  then have "finite (tabs s D)" using finite_subset by blast
  then show ?thesis using assms by (simp add: live_def tab_inv_def)
qed

lemma same_dirs:
  assumes "\<And>d. d \<in> D \<Longrightarrow> frames s' d = frames s d"
  shows "tabs s' D = tabs s D" "live s' D E = live s D E" "kpages s' D E = kpages s D E"
    "d \<in> D \<Longrightarrow> user_tab s' d i = user_tab s d i"
  using assms by (auto simp: tabs_def live_def kpages_def user_tab_def)

lemma tab_inv_frame:
  assumes "tab_inv s D E" "\<And>d. d \<in> D \<Longrightarrow> frames s' d = frames s d" "buddy_inv (pm s')" "bd_npage (pm s') = bd_npage (pm s)"
    "\<And>p. p \<in> kpages s D E \<Longrightarrow> held s' p"
  shows "tab_inv s' D E"
proof -
  have same: "tabs s' D = tabs s D" "kpages s' D E = kpages s D E" "\<And>d i. d \<in> D \<Longrightarrow> user_tab s' d i = user_tab s d i"
    using same_dirs [of D s' s] assms(2) by auto
  show ?thesis using assms(1,3-5) unfolding tab_inv_def same(1,2) by (simp add: same(3))
qed

lemma live_not_dir: "tab_inv s D E \<Longrightarrow> x \<in> live s D E \<Longrightarrow> fst x \<notin> D"
  by (auto simp: tab_inv_def live_def)

lemma ref_inv_unmap:
  assumes R: "ref_inv s L K" and L: "finite L" "x \<in> L" and m: "maps (rd s x) p"
    and rd: "\<And>y. y \<in> L \<Longrightarrow> rd s' y = (if y = x then 0 else rd s y)"
    and ref: "\<And>q. pg_ref (pg s' q) = pg_ref (pg s q) - of_bool (q = p)"
    and h: "\<And>q. held s q \<Longrightarrow> held s' q \<or> q = p \<and> pg_ref (pg s' p) = 0"
  shows "ref_inv s' L K"
proof -
  have c: "int (cnt s' L q) = int (cnt s L q) - of_bool (q = p)" for q
    using cnt_wr [OF L, of 0 s q] cnt_cong [of L s' "wr x 0 s" q] rd m by (auto simp: maps_def)
  have ref': "pg_ref (pg s' q) = int (cnt s' L q)" if "q \<notin> K" for q
    using R that ref [of q] c [of q] by (simp add: ref_inv_def)
  have "held s' (PPN (rd s' y)) \<and> PPN (rd s' y) \<notin> K" if y: "y \<in> L" "has (rd s' y) PTE_P" for y
  proof -
    have yx: "y \<noteq> x" "rd s' y = rd s y" using rd [OF y(1)] y(2) by (auto split: if_splits)
    then have hk: "held s (PPN (rd s y))" "PPN (rd s y) \<notin> K" using R y by (auto simp: ref_inv_def)
    have "y \<in> {x \<in> L. maps (rd s' x) (PPN (rd s' y))}" using y by (simp add: maps_def)
    then have "cnt s' L (PPN (rd s' y)) > 0"
      unfolding cnt_def using L(1) card_gt_0_iff by fastforce
    then show ?thesis using h [OF hk(1)] hk(2) ref' [OF hk(2)] yx(2) by auto
  qed
  then show ?thesis using ref' by (simp add: ref_inv_def)
qed

text \<open>Swap bookkeeping is not affected by changes of present or empty entries and of pages outside the swap lists.\<close>

definition same_swap :: "mem \<Rightarrow> mem \<Rightarrow> bool" where
  "same_swap s s' = (max_swap_offset s' = max_swap_offset s \<and> mem_map s' = mem_map s \<and> hash_list s' = hash_list s \<and>
     active_list s' = active_list s \<and> inactive_list s' = inactive_list s \<and>
     nr_active_pages s' = nr_active_pages s \<and> nr_inactive_pages s' = nr_inactive_pages s \<and>
     (\<forall>q. PageSwap (pg s' q) = PageSwap (pg s q)) \<and>
     (\<forall>q. PageSwap (pg s q) \<longrightarrow> PageActive (pg s' q) = PageActive (pg s q) \<and> pg_index (pg s' q) = pg_index (pg s q) \<and>
        (held s q \<longrightarrow> held s' q)))"

lemma list_inv_frame:
  assumes "list_inv s" "same_swap s s'"
  shows "list_inv s'"
proof -
  have l: "hash_list s' = hash_list s" "active_list s' = active_list s" "inactive_list s' = inactive_list s"
    "nr_active_pages s' = nr_active_pages s" "nr_inactive_pages s' = nr_inactive_pages s"
    using assms(2) by (simp_all add: same_swap_def)
  have "(PageSwap (pg s' q) \<and> PageActive (pg s' q)) = (PageSwap (pg s q) \<and> PageActive (pg s q))"
    "(PageSwap (pg s' q) \<and> \<not> PageActive (pg s' q)) = (PageSwap (pg s q) \<and> \<not> PageActive (pg s q))"
    "(PageSwap (pg s' q) \<and> entry_hashfn (pg_index (pg s' q)) = h) = (PageSwap (pg s q) \<and> entry_hashfn (pg_index (pg s q)) = h)" for q h
    using assms(2) by (auto simp: same_swap_def)
  then show ?thesis using assms(1) unfolding list_inv_def l by simp
qed

definition plain :: "u32 \<Rightarrow> bool" where
  "plain w = (has w PTE_P \<or> w = 0)"

lemma swap_inv_frame:
  assumes S: "swap_inv s L K" and same: "same_swap s s'"
    and rd: "\<And>y. y \<in> L \<Longrightarrow> rd s' y = rd s y \<or> plain (rd s y) \<and> plain (rd s' y)"
  shows "swap_inv s' L K"
proof -
  have ok: "offset_ok s' = offset_ok s" using same by (simp add: same_swap_def offset_ok_def fun_eq_iff)
  have "scnt s' L (ent off) = scnt s L (ent off)" if "offset_ok s off" for off
  proof -
    have "ent off \<noteq> 0" using ent_nonzero [of off] that S by (auto simp: offset_ok_def swap_inv_def)
    then have "{y \<in> L. rd s' y = ent off} = {y \<in> L. rd s y = ent off}"
      using rd by (force simp: plain_def)
    then show ?thesis by (simp add: scnt_def)
  qed
  moreover have "\<exists>off. offset_ok s off \<and> rd s' y = ent off" if "y \<in> L" "\<not> has (rd s' y) PTE_P" "rd s' y \<noteq> 0" for y
    using S rd [OF that(1)] that by (auto simp: swap_inv_def plain_def)
  moreover have "list_inv s'" using list_inv_frame [OF _ same] S by (simp add: swap_inv_def)
  moreover have e: "max_swap_offset s' = max_swap_offset s" "mem_map s' = mem_map s" "\<And>q. PageSwap (pg s' q) = PageSwap (pg s q)"
    "\<And>q. PageSwap (pg s q) \<Longrightarrow> pg_index (pg s' q) = pg_index (pg s q)" "\<And>q. PageSwap (pg s q) \<Longrightarrow> held s q \<Longrightarrow> held s' q"
    using same by (simp_all add: same_swap_def)
  ultimately show ?thesis using S unfolding swap_inv_def ok e by (simp cong: conj_cong)
qed

section \<open>Removing an entry\<close>

lemma upd_same_meta:
  assumes "\<And>q. pg_zone (f q) = pg_zone q \<and> pg_property (f q) = pg_property q \<and>
    test_bit_w PG_reserved (pg_flags (f q)) = test_bit_w PG_reserved (pg_flags q) \<and>
    test_bit_w PG_property (pg_flags (f q)) = test_bit_w PG_property (pg_flags q)"
  shows "same_meta b (bd_upd p f b)"
  using assms by (auto simp: same_meta_def same_map_def PageReserved_def PageProperty_def order_of_def)

lemma held_upd_pg:
  assumes "\<And>q. pg_zone (f q) = pg_zone q \<and> pg_property (f q) = pg_property q \<and>
    test_bit_w PG_reserved (pg_flags (f q)) = test_bit_w PG_reserved (pg_flags q) \<and>
    test_bit_w PG_property (pg_flags (f q)) = test_bit_w PG_property (pg_flags q)"
  shows "held (upd_pg p f s) q = held s q" "buddy_inv (pm (upd_pg p f s)) = buddy_inv (pm s)"
proof -
  note m = upd_same_meta [of f "pm s" p, OF assms]
  have "same_map (pm s) (bd_upd p f (pm s))" using m by (simp add: same_meta_def)
  then show "held (upd_pg p f s) q = held s q"
    using same_meta_inv(3) [OF m] by (simp add: held_def same_map_usable)
  show "buddy_inv (pm (upd_pg p f s)) = buddy_inv (pm s)" using same_meta_inv(2) [OF m] by simp
qed

lemma flag_upds:
  "pg_zone (SetPageDirty q) = pg_zone q \<and> pg_property (SetPageDirty q) = pg_property q \<and>
    test_bit_w PG_reserved (pg_flags (SetPageDirty q)) = test_bit_w PG_reserved (pg_flags q) \<and>
    test_bit_w PG_property (pg_flags (SetPageDirty q)) = test_bit_w PG_property (pg_flags q)"
  "pg_zone (q\<lparr>pg_ref := r\<rparr>) = pg_zone q \<and> pg_property (q\<lparr>pg_ref := r\<rparr>) = pg_property q \<and>
    test_bit_w PG_reserved (pg_flags (q\<lparr>pg_ref := r\<rparr>)) = test_bit_w PG_reserved (pg_flags q) \<and>
    test_bit_w PG_property (pg_flags (q\<lparr>pg_ref := r\<rparr>)) = test_bit_w PG_property (pg_flags q)"
  "pg_zone (ClearPageSwap q) = pg_zone q \<and> pg_property (ClearPageSwap q) = pg_property q \<and>
    test_bit_w PG_reserved (pg_flags (ClearPageSwap q)) = test_bit_w PG_reserved (pg_flags q) \<and>
    test_bit_w PG_property (pg_flags (ClearPageSwap q)) = test_bit_w PG_property (pg_flags q)"
  by (simp_all add: SetPageDirty_def ClearPageSwap_def PG_defs)

lemma held_wr [simp]: "held (wr x v s) = held s" "held (set_map off w s) = held s" "held (set_frame fr c s) = held s"
  by (simp_all add: held_def fun_eq_iff)

lemma dirty_fields [simp]:
  "pg_ref (SetPageDirty q) = pg_ref q" "PageSwap (SetPageDirty q) = PageSwap q" "PageActive (SetPageDirty q) = PageActive q"
  "pg_index (SetPageDirty q) = pg_index q" "PageSwap (q\<lparr>pg_ref := r\<rparr>) = PageSwap q" "PageActive (q\<lparr>pg_ref := r\<rparr>) = PageActive q"
  by (simp_all add: SetPageDirty_def PageSwap_def PageActive_def PG_defs)

lemma ref_upds [simp]:
  "pg (page_ref_decr p s) = (pg s)(p := (pg s p)\<lparr>pg_ref := pg_ref (pg s p) - 1\<rparr>)"
  "pg (page_ref_incr p s) = (pg s)(p := (pg s p)\<lparr>pg_ref := pg_ref (pg s p) + 1\<rparr>)"
  "rd (page_ref_decr p s) = rd s" "rd (page_ref_incr p s) = rd s" "frames (page_ref_decr p s) = frames s"
  "frames (page_ref_incr p s) = frames s" "held (page_ref_decr p s) = held s" "held (page_ref_incr p s) = held s"
  "buddy_inv (pm (page_ref_decr p s)) = buddy_inv (pm s)" "buddy_inv (pm (page_ref_incr p s)) = buddy_inv (pm s)"
  "bd_npage (pm (page_ref_decr p s)) = bd_npage (pm s)" "bd_npage (pm (page_ref_incr p s)) = bd_npage (pm s)"
proof -
  have f: "(\<lambda>q. snd (page_ref_dec q)) = (\<lambda>q. q\<lparr>pg_ref := pg_ref q - 1\<rparr>)" "(\<lambda>q. snd (page_ref_inc q)) = (\<lambda>q. q\<lparr>pg_ref := pg_ref q + 1\<rparr>)"
    by (simp_all add: page_ref_dec_def page_ref_inc_def Let_def)
  show "held (page_ref_decr p s) = held s" "held (page_ref_incr p s) = held s"
    "buddy_inv (pm (page_ref_decr p s)) = buddy_inv (pm s)" "buddy_inv (pm (page_ref_incr p s)) = buddy_inv (pm s)"
    unfolding page_ref_decr_def page_ref_incr_def f
    using held_upd_pg [of "\<lambda>q. q\<lparr>pg_ref := pg_ref q - 1\<rparr>"] held_upd_pg [of "\<lambda>q. q\<lparr>pg_ref := pg_ref q + 1\<rparr>"]
    by (auto simp: fun_eq_iff)
qed (simp_all add: page_ref_decr_def page_ref_incr_def page_ref_dec_def page_ref_inc_def Let_def fun_eq_iff)

lemma free_page_spec:
  assumes "buddy_inv (pm s)" "held s p"
  shows "\<exists>b. free_page p s = Some (s\<lparr>pm := b\<rparr>) \<and> buddy_inv b \<and> bd_npage b = bd_npage (pm s) \<and>
    (\<forall>q. held (s\<lparr>pm := b\<rparr>) q = (held s q \<and> q \<noteq> p)) \<and> (\<forall>q. q \<noteq> p \<longrightarrow> like (pg s q) (bd_pages b q)) \<and> blank (bd_pages b p)"
proof -
  obtain b where b: "buddy_free_pages p 1 (pm s) = Some b" "buddy_inv b" "buddy_free_set b = insert p (buddy_free_set (pm s))"
    "keeps {p} (pm s) b" "blank (bd_pages b p)"
    using buddy_free_one [OF assms(1)] assms(2) by (auto simp: held_def)
  have m: "same_map (pm s) b" using b(4) by (simp add: keeps_def)
  then have "held (s\<lparr>pm := b\<rparr>) q = (held s q \<and> q \<noteq> p)" for q
    using b(3) assms(2) by (auto simp: held_def same_map_usable)
  then show ?thesis using b m by (auto simp: free_pages_def keeps_def pg_def same_map_def)
qed

lemma free_fields [simp]:
  "rd (s\<lparr>pm := b\<rparr>) = rd s" "pg (s\<lparr>pm := b\<rparr>) = bd_pages b"
  by (simp_all add: rd_def pg_def fun_eq_iff)

lemma decr_swap [simp]:
  "mem_map (page_ref_decr p s) = mem_map s" "max_swap_offset (page_ref_decr p s) = max_swap_offset s"
  "hash_list (page_ref_decr p s) = hash_list s" "active_list (page_ref_decr p s) = active_list s"
  "inactive_list (page_ref_decr p s) = inactive_list s" "nr_active_pages (page_ref_decr p s) = nr_active_pages s"
  "nr_inactive_pages (page_ref_decr p s) = nr_inactive_pages s"
  by (simp_all add: page_ref_decr_def)

lemma pte2page_held: "has w PTE_P \<Longrightarrow> held s (PPN w) \<Longrightarrow> pte2page w s = Some (PPN w)"
  using held_page [of s "PPN w"] by (simp add: pte2page_def pa2page_def)

text \<open>The state after the reference is dropped: the page keeps its fields, or is freed when this was the last one.\<close>

lemma drop_ref:
  assumes B: "buddy_inv (pm s)" and h: "held s p" and sw: "PageSwap (pg s p) \<longrightarrow> d"
  shows "\<exists>s1. (if \<not> d then (let s' = page_ref_decr p s in if pg_ref (pg s' p) = 0 then free_page p s' else Some s')
       else Some (page_ref_decr p (if dirty then upd_pg p SetPageDirty s else s))) = Some s1 \<and>
     frames s1 = frames s \<and> buddy_inv (pm s1) \<and> bd_npage (pm s1) = bd_npage (pm s) \<and> same_swap s s1 \<and>
     (\<forall>q. pg_ref (pg s1 q) = pg_ref (pg s q) - of_bool (q = p)) \<and>
     (\<forall>q. held s q \<longrightarrow> held s1 q \<or> q = p \<and> pg_ref (pg s1 p) = 0)"
proof (cases "\<not> d \<and> pg_ref (pg s p) = 1")
  case True
  let ?s = "page_ref_decr p s"
  obtain b where b: "free_page p ?s = Some (?s\<lparr>pm := b\<rparr>)" "buddy_inv b" "bd_npage b = bd_npage (pm s)"
    "\<And>q. held (?s\<lparr>pm := b\<rparr>) q = (held s q \<and> q \<noteq> p)" "\<And>q. q \<noteq> p \<Longrightarrow> like (pg s q) (bd_pages b q)" "blank (bd_pages b p)"
    using free_page_spec [of ?s p] B h by auto
  have l: "PageSwap (bd_pages b q) = PageSwap (pg s q)" "PageActive (bd_pages b q) = PageActive (pg s q)"
    "pg_ref (bd_pages b q) = pg_ref (pg s q)" "pg_index (bd_pages b q) = pg_index (pg s q)" if "q \<noteq> p" for q
    using like_flags [OF b(5) [OF that]] by simp_all
  have p: "pg_ref (bd_pages b p) = 0" "\<not> PageSwap (bd_pages b p)" using b(6) by (simp_all add: blank_def)
  have sp: "\<not> PageSwap (pg s p)" using sw True by simp
  have "PageSwap (bd_pages b q) = PageSwap (pg s q)" for q using l(1) p(2) sp by (cases "q = p") auto
  moreover have "q \<noteq> p" if "PageSwap (pg s q)" for q using that sp by auto
  ultimately have "same_swap s (?s\<lparr>pm := b\<rparr>)"
    unfolding same_swap_def using l(2,4) b(4) by simp
  moreover have "pg_ref (bd_pages b q) = pg_ref (pg s q) - of_bool (q = p)" for q
    using l(3) p(1) True by (cases "q = p") auto
  ultimately show ?thesis using True b(1-4) p(1) by (intro exI [of _ "?s\<lparr>pm := b\<rparr>"]) (auto simp: Let_def)
next
  case False
  define s1 where "s1 = page_ref_decr p (if d \<and> dirty then upd_pg p SetPageDirty s else s)"
  have hd: "held (upd_pg p SetPageDirty s) = held s" "buddy_inv (pm (upd_pg p SetPageDirty s)) = buddy_inv (pm s)"
    using held_upd_pg [OF flag_upds(1)] by (auto simp: fun_eq_iff)
  have "same_swap s s1" using hd by (auto simp: same_swap_def s1_def)
  moreover have "(if \<not> d then (let s' = page_ref_decr p s in if pg_ref (pg s' p) = 0 then free_page p s' else Some s')
       else Some (page_ref_decr p (if dirty then upd_pg p SetPageDirty s else s))) = Some s1"
    using False by (auto simp: s1_def Let_def)
  ultimately show ?thesis using B hd by (intro exI [of _ s1]) (auto simp: s1_def)
qed

lemma page_remove_present:
  assumes I: "mem_inv s D E" and x: "x \<in> live s D E" and P: "has (rd s x) PTE_P"
  shows "\<exists>s'. page_remove_pte x s = Some s' \<and> mem_inv s' D E \<and> frames s' = frames (wr x 0 s)"
proof -
  let ?p = "PPN (rd s x)" and ?L = "live s D E" and ?K = "kpages s D E"
  have T: "tab_inv s D E" and R: "ref_inv s ?L ?K" and S: "swap_inv s ?L ?K" using I by (auto simp: mem_inv_def)
  have h: "held s ?p" "?p \<notin> ?K" using R x P by (auto simp: ref_inv_def)
  have B: "buddy_inv (pm s)" using T by (simp add: tab_inv_def)
  obtain s1 where s1: "(if \<not> PageSwap (pg s ?p) then
        (let s' = page_ref_decr ?p s in if pg_ref (pg s' ?p) = 0 then free_page ?p s' else Some s')
       else Some (page_ref_decr ?p (if has (rd s x) PTE_D then upd_pg ?p SetPageDirty s else s))) = Some s1"
     "frames s1 = frames s" "buddy_inv (pm s1)" "bd_npage (pm s1) = bd_npage (pm s)" "same_swap s s1"
     "\<And>q. pg_ref (pg s1 q) = pg_ref (pg s q) - of_bool (q = ?p)"
     "\<And>q. held s q \<Longrightarrow> held s1 q \<or> q = ?p \<and> pg_ref (pg s1 ?p) = 0"
    using drop_ref [OF B h(1), of "PageSwap (pg s ?p)" "has (rd s x) PTE_D"] by blast
  let ?s' = "wr x 0 s1"
  have run: "page_remove_pte x s = Some ?s'"
    using P pte2page_held [OF P h(1)] s1(1) by (simp add: page_remove_pte_def)
  have fr: "frames ?s' = frames (wr x 0 s)" using s1(2) by (simp add: wr_def)
  have "rd s1 = rd s" using s1(2) by (simp add: rd_def fun_eq_iff)
  then have rd: "rd ?s' y = (if y = x then 0 else rd s y)" for y by simp
  have dirs: "frames ?s' d = frames s d" if "d \<in> D" for d
    using live_not_dir [OF T x] that fr by (auto simp: wr_def)
  have "ref_inv ?s' ?L ?K"
    using ref_inv_unmap [OF R finite_live [OF T] x, of ?p ?s'] P rd s1(6,7) by (simp add: maps_def)
  moreover have "swap_inv ?s' ?L ?K"
    using s1(5) P rd by (intro swap_inv_frame [OF S]) (auto simp: same_swap_def plain_def)
  moreover have "tab_inv ?s' D E"
  proof (rule tab_inv_frame [OF T dirs])
    fix p assume p: "p \<in> kpages s D E"
    then show "held ?s' p" using T h(2) s1(7) [of p] by (auto simp: tab_inv_def)
  qed (use s1 in auto)
  ultimately show ?thesis using run fr same_dirs(2,3) [of D ?s' s E] dirs by (simp add: mem_inv_def)
qed

lemma ref_inv_frame:
  assumes R: "ref_inv s L K" and L: "finite L"
    and rd: "\<And>y p. y \<in> L \<Longrightarrow> maps (rd s' y) p = maps (rd s y) p"
    and ref: "\<And>q. pg_ref (pg s' q) = pg_ref (pg s q)"
    and h: "\<And>q. held s q \<Longrightarrow> q \<notin> K \<Longrightarrow> held s' q \<or> pg_ref (pg s q) = 0"
  shows "ref_inv s' L K"
proof -
  have c: "cnt s' L q = cnt s L q" for q
    unfolding cnt_def using rd by (auto intro!: arg_cong [where f = card])
  have "held s' (PPN (rd s' y)) \<and> PPN (rd s' y) \<notin> K" if y: "y \<in> L" "has (rd s' y) PTE_P" for y
  proof -
    have e: "has (rd s y) PTE_P" "PPN (rd s y) = PPN (rd s' y)" using rd [OF y(1), of "PPN (rd s' y)"] y(2) by (auto simp: maps_def)
    then have hk: "held s (PPN (rd s y))" "PPN (rd s y) \<notin> K" using R y by (auto simp: ref_inv_def)
    have "y \<in> {x \<in> L. maps (rd s x) (PPN (rd s y))}" using y e by (simp add: maps_def)
    then have "cnt s L (PPN (rd s y)) > 0" unfolding cnt_def using L card_gt_0_iff by fastforce
    then have "pg_ref (pg s (PPN (rd s y))) \<noteq> 0" using R hk(2) by (simp add: ref_inv_def)
    then show ?thesis using h [OF hk] hk(2) e(2) by auto
  qed
  then show ?thesis using R c ref by (simp add: ref_inv_def)
qed

lemma swap_inv_drop:
  assumes S: "swap_inv s L K" and L: "finite L" "x \<in> L" and off: "rd s x = ent off" "offset_ok s off"
    and rd: "\<And>y. y \<in> L \<Longrightarrow> rd s' y = (if y = x then 0 else rd s y)"
    and mx: "max_swap_offset s' = max_swap_offset s" and mm: "mem_map s' = (mem_map s)(off := w)" and li: "list_inv s'"
    and sub: "\<And>q. PageSwap (pg s' q) \<Longrightarrow> PageSwap (pg s q) \<and> pg_index (pg s' q) = pg_index (pg s q) \<and> held s' q"
    and sup: "\<And>q. PageSwap (pg s q) \<Longrightarrow> pg_index (pg s q) \<noteq> ent off \<Longrightarrow> PageSwap (pg s' q)"
    and w: "w = SWAP_UNUSED \<and> scnt s L (ent off) = 1 \<and> (\<forall>q. PageSwap (pg s' q) \<longrightarrow> pg_index (pg s q) \<noteq> ent off) \<or>
      w \<noteq> SWAP_UNUSED \<and> scnt s L (ent off) = Suc (unat w) \<and> (w = 0 \<longrightarrow> (\<exists>q. PageSwap (pg s' q) \<and> pg_index (pg s q) = ent off))"
  shows "swap_inv s' L K"
proof -
  have small: "a < 2 ^ 24" if "offset_ok s a" for a using S that by (auto simp: swap_inv_def offset_ok_def)
  have ok: "offset_ok s' = offset_ok s" using mx by (simp add: offset_ok_def fun_eq_iff)
  have ent0: "ent a \<noteq> 0" if "offset_ok s a" for a using small [OF that] that ent_nonzero [of a] by (simp add: offset_ok_def)
  have sc: "scnt s' L (ent a) = scnt s L (ent a) - of_bool (a = off)" if "offset_ok s a" for a
  proof -
    have "scnt s' L (ent a) = scnt (wr x 0 s) L (ent a)" using cnt_cong [of L s' "wr x 0 s"] rd by auto
    then have "int (scnt s' L (ent a)) = int (scnt s L (ent a)) - of_bool (ent off = ent a)"
      using scnt_wr [OF L, of 0 s "ent a"] off(1) ent0 [OF that] by auto
    then show ?thesis using ent_inj [OF small [OF off(2)] small [OF that]] by (cases "a = off") auto
  qed
  have cnt: "scnt s' L (ent a) = (if mem_map s' a = SWAP_UNUSED then 0 else unat (mem_map s' a))" if "offset_ok s a" for a
    using sc [OF that] S that w mm by (auto simp: swap_inv_def)
  have idx: "\<exists>a. offset_ok s a \<and> pg_index (pg s' q) = ent a \<and> mem_map s' a \<noteq> SWAP_UNUSED" if q: "PageSwap (pg s' q)" for q
  proof -
    obtain a where a: "offset_ok s a" "pg_index (pg s q) = ent a" "mem_map s a \<noteq> SWAP_UNUSED"
      using S sub [OF q] by (auto simp: swap_inv_def)
    then show ?thesis using w mm sub [OF q] q by (intro exI [of _ a]) auto
  qed
  have zero: "\<exists>p. PageSwap (pg s' p) \<and> pg_index (pg s' p) = ent a" if a: "offset_ok s a" "mem_map s' a = 0" for a
  proof (cases "a = off")
    case True
    then show ?thesis using w a mm sub by (auto simp: SWAP_UNUSED_def)
  next
    case False
    then obtain p where p: "PageSwap (pg s p)" "pg_index (pg s p) = ent a" using S a mm by (auto simp: swap_inv_def)
    then show ?thesis using sup [OF p(1)] sub ent_inj [OF small [OF a(1)] small [OF off(2)]] False by metis
  qed
  have ents: "\<exists>a. offset_ok s a \<and> rd s' y = ent a" if "y \<in> L" "\<not> has (rd s' y) PTE_P" "rd s' y \<noteq> 0" for y
    using S rd [OF that(1)] that by (auto simp: swap_inv_def split: if_splits)
  have inj: "p = q" if "PageSwap (pg s' p)" "PageSwap (pg s' q)" "pg_index (pg s' p) = pg_index (pg s' q)" for p q
    using S sub [OF that(1)] sub [OF that(2)] that(3) by (auto simp: swap_inv_def)
  have "held s' p \<and> p \<notin> K" if "PageSwap (pg s' p)" for p using S sub [OF that] by (auto simp: swap_inv_def)
  then show ?thesis
    unfolding swap_inv_def ok using S li cnt idx zero ents inj mx by (simp add: swap_inv_def)
qed

lemma swap_offset_ent: "offset_ok s off \<Longrightarrow> max_swap_offset s \<le> 2 ^ 24 \<Longrightarrow> swap_offset (ent off) s = Some off"
  using ent_drop [of off] by (simp add: swap_offset_def offset_ok_def Let_def)

text \<open>Taking an unreferenced page out of the swap framework and freeing it.\<close>

lemma swap_drop_page:
  assumes li: "list_inv s" and B: "buddy_inv (pm s)" and h: "held s p" and sw: "PageSwap (pg s p)" and r: "pg_ref (pg s p) = 0"
  shows "\<exists>s2 s3. swap_list_del p s = Some s2 \<and> swap_free_page p s2 = Some s3 \<and>
    frames s3 = frames s \<and> mem_map s3 = mem_map s \<and> max_swap_offset s3 = max_swap_offset s \<and> list_inv s3 \<and>
    buddy_inv (pm s3) \<and> bd_npage (pm s3) = bd_npage (pm s) \<and>
    (\<forall>q. held s3 q = (held s q \<and> q \<noteq> p)) \<and> (\<forall>q. PageSwap (pg s3 q) = (PageSwap (pg s q) \<and> q \<noteq> p)) \<and>
    (\<forall>q. pg_ref (pg s3 q) = pg_ref (pg s q)) \<and> (\<forall>q. q \<noteq> p \<longrightarrow> pg_index (pg s3 q) = pg_index (pg s q))"
proof -
  define s2 where "s2 = (if PageActive (pg s p)
     then s\<lparr>nr_active_pages := nr_active_pages s - 1, active_list := remove1 p (active_list s)\<rparr>
     else s\<lparr>nr_inactive_pages := nr_inactive_pages s - 1, inactive_list := remove1 p (inactive_list s)\<rparr>)"
  let ?h = "entry_hashfn (pg_index (pg s p))"
  define s3 where "s3 = (upd_pg p ClearPageSwap s2)\<lparr>hash_list := (hash_list s)(?h := remove1 p (hash_list s ?h))\<rparr>"
  have del: "swap_list_del p s = Some s2" using sw by (simp add: swap_list_del_def s2_def)
  have s2: "pm s2 = pm s" "pg s2 = pg s" "hash_list s2 = hash_list s" "frames s2 = frames s" "mem_map s2 = mem_map s"
    "max_swap_offset s2 = max_swap_offset s" by (simp_all add: s2_def pg_def fun_eq_iff)
  have idx: "pg_index (ClearPageSwap (pg s p)) = pg_index (pg s p)" by (simp add: ClearPageSwap_def)
  have pdel: "swap_page_del p s2 = Some s3"
    using sw s2 idx by (simp add: swap_page_del_def s3_def Let_def)
  have s3: "pm s3 = bd_upd p ClearPageSwap (pm s)" "pg s3 = (pg s)(p := ClearPageSwap (pg s p))" "frames s3 = frames s"
    "mem_map s3 = mem_map s" "max_swap_offset s3 = max_swap_offset s"
    using s2 by (simp_all add: s3_def pg_def fun_eq_iff)
  have hd: "held s3 q = held s q" "buddy_inv (pm s3)" for q
  proof -
    have "held s3 q = held (upd_pg p ClearPageSwap s) q" by (simp add: held_def s3)
    then show "held s3 q = held s q" "buddy_inv (pm s3)" using held_upd_pg [OF flag_upds(3)] B s3(1) by auto
  qed
  obtain b where b: "free_page p s3 = Some (s3\<lparr>pm := b\<rparr>)" "buddy_inv b" "bd_npage b = bd_npage (pm s)"
    "\<And>q. held (s3\<lparr>pm := b\<rparr>) q = (held s q \<and> q \<noteq> p)" "\<And>q. q \<noteq> p \<Longrightarrow> like (pg s3 q) (bd_pages b q)" "blank (bd_pages b p)"
    using free_page_spec [OF hd(2), of p] hd h s3(1) by auto
  have free: "swap_free_page p s2 = Some (s3\<lparr>pm := b\<rparr>)" using sw r s2 pdel b(1) by (simp add: swap_free_page_def)
  have l: "PageSwap (bd_pages b q) = PageSwap (pg s q)" "PageActive (bd_pages b q) = PageActive (pg s q)"
    "pg_ref (bd_pages b q) = pg_ref (pg s q)" "pg_index (bd_pages b q) = pg_index (pg s q)" if "q \<noteq> p" for q
    using like_flags [OF b(5) [OF that]] that s3(2) by simp_all
  have p: "pg_ref (bd_pages b p) = 0" "\<not> PageSwap (bd_pages b p)" using b(6) by (simp_all add: blank_def)
  have psw: "PageSwap (bd_pages b q) = (PageSwap (pg s q) \<and> q \<noteq> p)" for q using l(1) p(2) by (cases "q = p") auto
  have pact: "(PageSwap (bd_pages b q) \<and> PageActive (bd_pages b q)) = (PageSwap (pg s q) \<and> PageActive (pg s q) \<and> q \<noteq> p)"
    "(PageSwap (bd_pages b q) \<and> \<not> PageActive (bd_pages b q)) = (PageSwap (pg s q) \<and> \<not> PageActive (pg s q) \<and> q \<noteq> p)"
    "(PageSwap (bd_pages b q) \<and> entry_hashfn (pg_index (bd_pages b q)) = h) =
       (PageSwap (pg s q) \<and> entry_hashfn (pg_index (pg s q)) = h \<and> q \<noteq> p)" for q h
    using psw l(2,4) by (cases "q = p"; auto)+
  have in': "p \<in> set (active_list s) \<longleftrightarrow> PageActive (pg s p)" "p \<in> set (inactive_list s) \<longleftrightarrow> \<not> PageActive (pg s p)"
    "p \<in> set (hash_list s h) \<longleftrightarrow> h = ?h" for h
    using li sw by (auto simp: list_inv_def)
  have lists: "active_list s3 = remove1 p (active_list s)" "inactive_list s3 = remove1 p (inactive_list s)"
    "nr_active_pages s3 = length (remove1 p (active_list s))" "nr_inactive_pages s3 = length (remove1 p (inactive_list s))"
    "hash_list s3 = (\<lambda>h. remove1 p (hash_list s h))"
    using in' li by (auto simp: s3_def s2_def list_inv_def length_remove1 remove1_idem fun_eq_iff)
  have "list_inv (s3\<lparr>pm := b\<rparr>)"
    using li pact unfolding list_inv_def by (auto simp: lists distinct_remove1 notin_set_remove1)
  moreover have "pg_ref (bd_pages b q) = pg_ref (pg s q)" for q using l(3) p(1) r by (cases "q = p") auto
  ultimately show ?thesis
    using del free b(2-4) psw l(4) s3 by (intro exI [of _ s2] exI [of _ "s3\<lparr>pm := b\<rparr>"]) auto
qed

lemma mem_invI:
  assumes T: "tab_inv s D E" and dirs: "\<And>d. d \<in> D \<Longrightarrow> frames s' d = frames s d"
    and b: "buddy_inv (pm s')" "bd_npage (pm s') = bd_npage (pm s)" "\<And>p. p \<in> kpages s D E \<Longrightarrow> held s' p"
    and R: "ref_inv s' (live s D E) (kpages s D E)" and S: "swap_inv s' (live s D E) (kpages s D E)"
  shows "mem_inv s' D E"
proof -
  have "live s' D E = live s D E" "kpages s' D E = kpages s D E" using same_dirs [of D s' s] dirs by auto
  then show ?thesis using tab_inv_frame [OF T dirs b] R S by (simp add: mem_inv_def)
qed

lemma swap_hash_find_Some:
  assumes "list_inv s" "swap_hash_find e s = Some p"
  shows "PageSwap (pg s p) \<and> pg_index (pg s p) = e"
proof -
  have "p \<in> set (hash_list s (entry_hashfn e))" "pg_index (pg s p) = e"
    using assms(2) by (auto simp: swap_hash_find_def find_Some_iff)
  then show ?thesis using assms(1) by (auto simp: list_inv_def)
qed

lemma swap_hash_find_None:
  assumes "list_inv s" "swap_hash_find e s = None" "PageSwap (pg s p)"
  shows "pg_index (pg s p) \<noteq> e"
  using assms by (auto simp: swap_hash_find_def find_None_iff list_inv_def)

lemma list_inv_map [simp]: "list_inv (set_map off w s) = list_inv s" "list_inv (wr x v s) = list_inv s"
  by (simp_all add: list_inv_def)

text \<open>Dropping the last reference to a swap offset: the entry is released, and its page with it unless the page is mapped.\<close>

lemma swap_remove_last:
  assumes li: "list_inv s" and off: "offset_ok s off" and mx: "max_swap_offset s \<le> 2 ^ 24" and one: "mem_map s off = 1"
    and B: "buddy_inv (pm s)" and hs: "\<forall>q. PageSwap (pg s q) \<longrightarrow> held s q"
    and inj: "\<forall>p q. PageSwap (pg s p) \<longrightarrow> PageSwap (pg s q) \<longrightarrow> pg_index (pg s p) = pg_index (pg s q) \<longrightarrow> p = q"
  shows "\<exists>s1 w. swap_remove_entry (ent off) s = Some s1 \<and> frames s1 = frames s \<and> mem_map s1 = (mem_map s)(off := w) \<and>
    max_swap_offset s1 = max_swap_offset s \<and> list_inv s1 \<and> buddy_inv (pm s1) \<and> bd_npage (pm s1) = bd_npage (pm s) \<and>
    (\<forall>q. pg_ref (pg s1 q) = pg_ref (pg s q)) \<and>
    (\<forall>q. held s q \<longrightarrow> held s1 q \<or> PageSwap (pg s q) \<and> pg_ref (pg s q) = 0) \<and>
    (\<forall>q. PageSwap (pg s1 q) \<longrightarrow> PageSwap (pg s q) \<and> pg_index (pg s1 q) = pg_index (pg s q) \<and> held s1 q) \<and>
    (\<forall>q. PageSwap (pg s q) \<longrightarrow> pg_index (pg s q) \<noteq> ent off \<longrightarrow> PageSwap (pg s1 q)) \<and>
    (w = SWAP_UNUSED \<and> (\<forall>q. PageSwap (pg s1 q) \<longrightarrow> pg_index (pg s q) \<noteq> ent off) \<or>
     w = 0 \<and> (\<exists>q. PageSwap (pg s1 q) \<and> pg_index (pg s q) = ent off))"
proof -
  let ?s1 = "set_map off 0 s"
  have run: "swap_remove_entry (ent off) s =
      (case swap_hash_find (ent off) ?s1 of
         None \<Rightarrow> Some (set_map off SWAP_UNUSED ?s1)
       | Some page \<Rightarrow>
           if pg_ref (pg ?s1 page) \<noteq> 0 then Some ?s1
           else do { s2 \<leftarrow> swap_list_del page ?s1; s3 \<leftarrow> swap_free_page page s2; Some (set_map off SWAP_UNUSED s3) })"
    by (simp add: swap_remove_entry_def swap_offset_ent [OF off mx] Let_def one split: option.split)
  have li1: "list_inv ?s1" using li by simp
  show ?thesis
  proof (cases "swap_hash_find (ent off) ?s1")
    case None
    note no = swap_hash_find_None [OF li1 None]
    show ?thesis unfolding run None
      using li B hs no by (intro exI [of _ "set_map off SWAP_UNUSED ?s1"] exI [of _ SWAP_UNUSED]) auto
  next
    case (Some p)
    note p = swap_hash_find_Some [OF li1 Some]
    show ?thesis
    proof (cases "pg_ref (pg s p) = 0")
      case False
      then show ?thesis unfolding run Some
        using li B hs p by (intro exI [of _ ?s1] exI [of _ 0]) auto
    next
      case True
      obtain s2 s3 where d: "swap_list_del p ?s1 = Some s2" "swap_free_page p s2 = Some s3" "frames s3 = frames s"
        "mem_map s3 = (mem_map s)(off := 0)" "max_swap_offset s3 = max_swap_offset s" "list_inv s3" "buddy_inv (pm s3)"
        "bd_npage (pm s3) = bd_npage (pm s)" "\<And>q. held s3 q = (held s q \<and> q \<noteq> p)"
        "\<And>q. PageSwap (pg s3 q) = (PageSwap (pg s q) \<and> q \<noteq> p)" "\<And>q. pg_ref (pg s3 q) = pg_ref (pg s q)"
        "\<And>q. q \<noteq> p \<Longrightarrow> pg_index (pg s3 q) = pg_index (pg s q)"
        using swap_drop_page [OF li1, of p] B hs p True by auto
      have "pg_index (pg s q) \<noteq> ent off" if "PageSwap (pg s3 q)" for q using inj p d(10) that by auto
      then show ?thesis unfolding run Some
        using d True hs p by (intro exI [of _ "set_map off SWAP_UNUSED s3"] exI [of _ SWAP_UNUSED]) auto
    qed
  qed
qed

lemma swap_remove_count:
  assumes S: "swap_inv s L K" and T: "tab_inv s D E" and off: "offset_ok s off"
    and mm: "mem_map s off \<noteq> SWAP_UNUSED" "scnt s L (ent off) = unat (mem_map s off)" "mem_map s off > 0"
  shows "\<exists>s1 w. swap_remove_entry (ent off) s = Some s1 \<and> frames s1 = frames s \<and> mem_map s1 = (mem_map s)(off := w) \<and>
    max_swap_offset s1 = max_swap_offset s \<and> list_inv s1 \<and> buddy_inv (pm s1) \<and> bd_npage (pm s1) = bd_npage (pm s) \<and>
    (\<forall>q. pg_ref (pg s1 q) = pg_ref (pg s q)) \<and>
    (\<forall>q. held s q \<longrightarrow> held s1 q \<or> PageSwap (pg s q) \<and> pg_ref (pg s q) = 0) \<and>
    (\<forall>q. PageSwap (pg s1 q) \<longrightarrow> PageSwap (pg s q) \<and> pg_index (pg s1 q) = pg_index (pg s q) \<and> held s1 q) \<and>
    (\<forall>q. PageSwap (pg s q) \<longrightarrow> pg_index (pg s q) \<noteq> ent off \<longrightarrow> PageSwap (pg s1 q)) \<and>
    (w = SWAP_UNUSED \<and> scnt s L (ent off) = 1 \<and> (\<forall>q. PageSwap (pg s1 q) \<longrightarrow> pg_index (pg s q) \<noteq> ent off) \<or>
     w \<noteq> SWAP_UNUSED \<and> scnt s L (ent off) = Suc (unat w) \<and> (w = 0 \<longrightarrow> (\<exists>q. PageSwap (pg s1 q) \<and> pg_index (pg s q) = ent off)))"
proof -
  have mx: "max_swap_offset s \<le> 2 ^ 24" and li: "list_inv s" and hs: "\<forall>q. PageSwap (pg s q) \<longrightarrow> held s q"
    and inj: "\<forall>p q. PageSwap (pg s p) \<longrightarrow> PageSwap (pg s q) \<longrightarrow> pg_index (pg s p) = pg_index (pg s q) \<longrightarrow> p = q"
    using S by (auto simp: swap_inv_def)
  have B: "buddy_inv (pm s)" using T by (simp add: tab_inv_def)
  show ?thesis
  proof (cases "mem_map s off = 1")
    case True
    then have "scnt s L (ent off) = 1" "(0 :: u16) \<noteq> SWAP_UNUSED" using mm(2) by (simp_all add: SWAP_UNUSED_def)
    with swap_remove_last [OF li off mx True B hs inj] show ?thesis by (elim exE conjE disjE) (rule exI, rule exI, auto)+
  next
    case False
    let ?w = "mem_map s off - 1"
    have w: "?w \<noteq> 0" using False by simp
    have u: "unat (mem_map s off) = Suc (unat ?w)" using mm(3) unat_minus_one [of "mem_map s off"] unat_gt_0 [of "mem_map s off"] by (cases "mem_map s off = 0") auto
    then have "?w \<noteq> SWAP_UNUSED" using unsigned_less [of "mem_map s off", where ?'a = nat] by (auto simp: SWAP_UNUSED_def)
    moreover have "swap_remove_entry (ent off) s = Some (set_map off ?w s)"
      unfolding swap_remove_entry_def swap_offset_ent [OF off mx] Let_def using mm(3) w by simp
    ultimately show ?thesis using w u mm(2) li B hs by (intro exI [of _ "set_map off ?w s"] exI [of _ ?w]) auto
  qed
qed

lemma page_remove_swap:
  assumes I: "mem_inv s D E" and x: "x \<in> live s D E" and P: "\<not> has (rd s x) PTE_P" "rd s x \<noteq> 0"
  shows "\<exists>s'. page_remove_pte x s = Some s' \<and> mem_inv s' D E \<and> frames s' = frames (wr x 0 s)"
proof -
  let ?L = "live s D E" and ?K = "kpages s D E"
  have T: "tab_inv s D E" and R: "ref_inv s ?L ?K" and S: "swap_inv s ?L ?K" using I by (auto simp: mem_inv_def)
  have fin: "finite ?L" using finite_live [OF T] .
  obtain off where off: "offset_ok s off" "rd s x = ent off" using S x P by (auto simp: swap_inv_def)
  have mx: "max_swap_offset s \<le> 2 ^ 24" and li: "list_inv s" using S by (auto simp: swap_inv_def)
  have B: "buddy_inv (pm s)" using T by (simp add: tab_inv_def)
  have "x \<in> {y \<in> ?L. rd s y = ent off}" using x off by simp
  then have pos: "scnt s ?L (ent off) > 0" unfolding scnt_def using fin card_gt_0_iff by fastforce
  then have mm: "mem_map s off \<noteq> SWAP_UNUSED" "scnt s ?L (ent off) = unat (mem_map s off)"
    using S off(1) by (auto simp: swap_inv_def split: if_splits)
  have pos': "mem_map s off > 0" using pos mm(2) by (simp add: word_less_nat_alt)
  obtain s1 w where s1: "swap_remove_entry (ent off) s = Some s1" "frames s1 = frames s" "mem_map s1 = (mem_map s)(off := w)"
     "max_swap_offset s1 = max_swap_offset s" "list_inv s1" "buddy_inv (pm s1)" "bd_npage (pm s1) = bd_npage (pm s)"
     "\<And>q. pg_ref (pg s1 q) = pg_ref (pg s q)"
     "\<And>q. held s q \<Longrightarrow> held s1 q \<or> PageSwap (pg s q) \<and> pg_ref (pg s q) = 0"
     "\<And>q. PageSwap (pg s1 q) \<Longrightarrow> PageSwap (pg s q) \<and> pg_index (pg s1 q) = pg_index (pg s q) \<and> held s1 q"
     "\<And>q. PageSwap (pg s q) \<Longrightarrow> pg_index (pg s q) \<noteq> ent off \<Longrightarrow> PageSwap (pg s1 q)"
     "w = SWAP_UNUSED \<and> scnt s ?L (ent off) = 1 \<and> (\<forall>q. PageSwap (pg s1 q) \<longrightarrow> pg_index (pg s q) \<noteq> ent off) \<or>
      w \<noteq> SWAP_UNUSED \<and> scnt s ?L (ent off) = Suc (unat w) \<and> (w = 0 \<longrightarrow> (\<exists>q. PageSwap (pg s1 q) \<and> pg_index (pg s q) = ent off))"
    using swap_remove_count [OF S T off(1) mm pos'] by blast
  let ?s' = "wr x 0 s1"
  have run: "page_remove_pte x s = Some ?s'" using P off(2) s1(1) by (simp add: page_remove_pte_def)
  have "rd s1 = rd s" using s1(2) by (simp add: rd_def fun_eq_iff)
  then have rd: "rd ?s' y = (if y = x then 0 else rd s y)" for y by simp
  have fr: "frames ?s' = frames (wr x 0 s)" using s1(2) by (simp add: wr_def)
  have dirs: "frames ?s' d = frames s d" if "d \<in> D" for d
    using live_not_dir [OF T x] that fr by (auto simp: wr_def)
  have swK: "q \<notin> ?K" if "PageSwap (pg s q)" for q using S that by (auto simp: swap_inv_def)
  have "ref_inv ?s' ?L ?K"
    by (rule ref_inv_frame [OF R fin]) (use rd P s1(8,9) in \<open>auto simp: maps_def split: if_splits\<close>)
  moreover have "swap_inv ?s' ?L ?K"
    by (rule swap_inv_drop [OF S fin x off(2,1), of ?s' w]) (use rd s1 in auto)
  ultimately show ?thesis
    using run fr mem_invI [OF T dirs] s1(6,7,9) swK T by (auto simp: tab_inv_def)
qed

lemma wr_idem: "rd s x = v \<Longrightarrow> frames (wr x v s) = frames s"
  by (auto simp: wr_def rd_def fun_upd_idem)

lemma page_remove_pte_inv:
  assumes "mem_inv s D E" "x \<in> live s D E"
  shows "\<exists>s'. page_remove_pte x s = Some s' \<and> mem_inv s' D E \<and> frames s' = frames (wr x 0 s)"
proof (cases "rd s x = 0")
  case True
  then show ?thesis using assms wr_idem [OF True] by (simp add: page_remove_pte_def)
next
  case False
  then show ?thesis using page_remove_present [OF assms] page_remove_swap [OF assms] by blast
qed

section \<open>Unmapping a range\<close>

lemma PDX_div: "PDX va = unat va div 2 ^ 22"
proof -
  have "drop_bit 22 va AND 0x3ff = take_bit 10 (drop_bit 22 va)" by (simp add: take_bit_eq_mask mask_eq_exp_minus_1)
  also have "\<dots> = drop_bit 22 va" using take_bit_drop_bit [of 10 22 va] by (simp add: take_bit_word_eq_self)
  finally show ?thesis by (simp add: PDX_def drop_bit_eq_div unat_div)
qed

lemma PTX_div: "PTX va = unat va div 2 ^ 12 mod 1024"
proof -
  have "drop_bit 12 va AND 0x3ff = take_bit 10 (drop_bit 12 va)" by (simp add: take_bit_eq_mask mask_eq_exp_minus_1)
  then show ?thesis by (simp add: PTX_def drop_bit_eq_div take_bit_eq_mod unat_div unat_mod)
qed

lemma PPN_div: "PPN w = unat w div 4096"
  by (simp add: PPN_def drop_bit_eq_div unat_div)

lemma user_pdx: "va < USER_TOP \<Longrightarrow> PDX va < USER_PDE"
  by (simp add: PDX_div USER_TOP_def USER_PDE_def word_less_nat_alt)

lemma KVADDR_held:
  assumes "tab_inv s D E" "held s (PPN w)"
  shows "KVADDR (PTE_ADDR w) s = Some (PPN w)"
proof -
  have n: "PPN w < bd_npage (pm s)" "bd_npage (pm s) \<le> 0x38000" using held_page [OF assms(2)] assms(1) by (simp_all add: tab_inv_def)
  have "PTE_ADDR w \<le> w" by (simp add: PTE_ADDR_def word_and_le2)
  moreover have "unat w < 0x38000000" using n by (simp add: PPN_div)
  ultimately have "PTE_ADDR w < 0x38000000" by (simp add: word_less_nat_alt word_le_nat_alt)
  then show ?thesis using n by (simp add: KVADDR_def)
qed

text \<open>The page table entry of an address, when its page table exists.\<close>

definition slot :: "mem \<Rightarrow> nat \<Rightarrow> u32 \<Rightarrow> ptep option" where
  "slot s d va = map_option (\<lambda>f. (f, PTX va)) (user_tab s d (PDX va))"

lemma slot_live: "d \<in> D \<Longrightarrow> slot s d va = Some x \<Longrightarrow> x \<in> live s D E"
  by (auto simp: slot_def live_def tabs_def PTX_div)

lemma get_pte_lookup:
  assumes "tab_inv s D E" "d \<in> D" "va < USER_TOP"
  shows "get_pte d va False s = Some (slot s d va, s)"
proof (cases "has (frames s d (PDX va)) PTE_P")
  case True
  then have u: "user_tab s d (PDX va) = Some (PPN (frames s d (PDX va)))" using user_pdx [OF assms(3)] by (simp add: user_tab_def)
  then have "held s (PPN (frames s d (PDX va)))" using assms(1,2) by (auto simp: tab_inv_def kpages_def tabs_def)
  then show ?thesis using True u KVADDR_held [OF assms(1)] by (simp add: get_pte_def slot_def)
next
  case False
  then show ?thesis by (simp add: get_pte_def slot_def user_tab_def)
qed

definition vslots :: "mem \<Rightarrow> nat \<Rightarrow> u32 \<Rightarrow> u32 \<Rightarrow> ptep set" where
  "vslots s d a b = {x. \<exists>va. a \<le> va \<and> va < b \<and> slot s d va = Some x}"

lemma next_page:
  assumes "start < USER_TOP"
  shows "unat (start + PAGE_SIZE) = unat start + 4096" "unat (ROUNDDOWN (start + PT_SIZE) PT_SIZE) = (unat start div 2 ^ 22 + 1) * 2 ^ 22"
proof -
  have s: "unat start < 0xB0000000" using assms by (simp add: USER_TOP_def word_less_nat_alt)
  have "unat (start + PT_SIZE) = unat start + 2 ^ 22" using unat_add_no_wrap [of start PT_SIZE] s by (simp add: PT_SIZE_def PAGE_SIZE_def)
  then show "unat (ROUNDDOWN (start + PT_SIZE) PT_SIZE) = (unat start div 2 ^ 22 + 1) * 2 ^ 22"
    using div_add_self2 [of "2 ^ 22" "unat start"] by (simp add: unat_ROUNDDOWN_div) (simp add: PT_SIZE_def PAGE_SIZE_def)
  show "unat (start + PAGE_SIZE) = unat start + 4096" using unat_add_no_wrap [of start PAGE_SIZE] s by (simp add: PAGE_SIZE_def)
qed

lemma slot_page:
  assumes "start mod PAGE_SIZE = 0" "start < USER_TOP" "start \<le> va" "va < start + PAGE_SIZE"
  shows "slot s d va = slot s d start"
proof -
  have "unat start mod 4096 = 0" using arg_cong [OF assms(1), of unat] by (simp add: PAGE_SIZE_def unat_mod)
  then obtain k where k: "unat start = 4096 * k" by auto
  have "unat start \<le> unat va" "unat va < unat start + 4096"
    using assms(3,4) next_page(1) [OF assms(2)] by (simp_all add: word_le_nat_alt word_less_nat_alt)
  then have "unat va div 4096 = k" using k by (intro div_nat_eqI) auto
  then have e: "unat va div 4096 = unat start div 4096" using k by simp
  have "unat va div 2 ^ 22 = unat va div 4096 div 1024" "unat start div 2 ^ 22 = unat start div 4096 div 1024"
    by (simp_all add: div_mult2_eq [symmetric])
  then show ?thesis using e by (simp add: slot_def PDX_div PTX_div)
qed

lemma slot_gap:
  assumes "slot s d start = None" "start < USER_TOP" "start \<le> va" "va < ROUNDDOWN (start + PT_SIZE) PT_SIZE"
  shows "slot s d va = None"
proof -
  have "unat start \<le> unat va" "unat va < (unat start div 2 ^ 22 + 1) * 2 ^ 22"
    using assms(3,4) next_page(2) [OF assms(2)] by (simp_all add: word_le_nat_alt word_less_nat_alt)
  then have "unat va div 2 ^ 22 = unat start div 2 ^ 22"
    using div_le_mono [of "unat start" "unat va" "2 ^ 22"] div_less_iff_less_mult [of "2 ^ 22" "unat va" "unat start div 2 ^ 22 + 1"] by simp
  then show ?thesis using assms(1) by (simp add: slot_def PDX_div)
qed

lemma unmap_step_ok:
  assumes I: "mem_inv s D E" and d: "d \<in> D" and va: "va < USER_TOP"
  shows "\<exists>s'. unmap_step d va s =
      Some (case slot s d va of None \<Rightarrow> ROUNDDOWN (va + PT_SIZE) PT_SIZE | Some x \<Rightarrow> va + PAGE_SIZE, s') \<and> mem_inv s' D E \<and>
    frames s' = (case slot s d va of None \<Rightarrow> frames s | Some x \<Rightarrow> frames (wr x 0 s))"
proof (cases "slot s d va")
  case None
  then show ?thesis using get_pte_lookup [OF _ d va] I by (auto simp: unmap_step_def mem_inv_def)
next
  case (Some x)
  obtain s' where s': "page_remove_pte x s = Some s'" "mem_inv s' D E" "frames s' = frames (wr x 0 s)"
    using page_remove_pte_inv [OF I slot_live [OF d Some]] by blast
  have g: "get_pte d va False s = Some (Some x, s)" using get_pte_lookup [OF _ d va] I Some by (auto simp: mem_inv_def)
  show ?thesis
  proof (cases "rd s x = 0")
    case True
    then show ?thesis using g Some I wr_idem [OF True] by (simp add: unmap_step_def)
  next
    case False
    then show ?thesis using g Some s' by (simp add: unmap_step_def)
  qed
qed

lemma slot_frames: "frames s' d = frames s d \<Longrightarrow> slot s' d va = slot s d va"
  by (simp add: slot_def user_tab_def)

lemma vslots_frames: "frames s' d = frames s d \<Longrightarrow> vslots s' d a b = vslots s d a b"
  using slot_frames [of s' d s] by (simp add: vslots_def)

lemma vslots_split: "a \<le> m \<Longrightarrow> m \<le> b \<Longrightarrow> vslots s d a b = vslots s d a m \<union> vslots s d m b"
  by (auto simp: vslots_def) (meson not_le order_trans order_le_less_trans)+

lemma vslots_empty: "b \<le> a \<Longrightarrow> vslots s d a b = {}"
  by (auto simp: vslots_def)

lemma aligned_next:
  assumes "start mod PAGE_SIZE = 0" "end' mod PAGE_SIZE = 0" "start < end'" "start < USER_TOP"
  shows "start + PAGE_SIZE \<le> end'" "(start + PAGE_SIZE) mod PAGE_SIZE = 0" "start + PAGE_SIZE \<noteq> 0" "start < start + PAGE_SIZE"
proof -
  obtain k j where kj: "unat start = 4096 * k" "unat end' = 4096 * j"
    using arg_cong [OF assms(1), of unat] arg_cong [OF assms(2), of unat] by (auto simp: PAGE_SIZE_def unat_mod elim!: dvdE)
  note n = next_page(1) [OF assms(4)]
  have "k < j" using assms(3) kj by (simp add: word_less_nat_alt)
  then show "start + PAGE_SIZE \<le> end'" using n kj by (simp add: word_le_nat_alt)
  have "unat ((start + PAGE_SIZE) mod PAGE_SIZE) = 0" using n kj(1) by (simp add: unat_mod) (simp add: PAGE_SIZE_def)
  then show "(start + PAGE_SIZE) mod PAGE_SIZE = 0" by (simp add: unat_eq_0)
  show "start + PAGE_SIZE \<noteq> 0" using n by (metis add_is_0 unat_0 zero_neq_numeral)
  show "start < start + PAGE_SIZE" using n by (simp add: word_less_nat_alt)
qed

lemma gap_next:
  assumes "start < USER_TOP"
  shows "ROUNDDOWN (start + PT_SIZE) PT_SIZE \<noteq> 0" "start < ROUNDDOWN (start + PT_SIZE) PT_SIZE"
    "ROUNDDOWN (start + PT_SIZE) PT_SIZE mod PAGE_SIZE = 0"
proof -
  let ?n = "ROUNDDOWN (start + PT_SIZE) PT_SIZE"
  note n = next_page(2) [OF assms]
  have "unat start < unat ?n" unfolding n using dividend_less_div_times [of "2 ^ 22" "unat start"] by (simp add: algebra_simps)
  then show "?n \<noteq> 0" "start < ?n" by (auto simp: word_less_nat_alt)
  have "unat (?n mod PAGE_SIZE) = 0" unfolding unat_mod n by (simp add: PAGE_SIZE_def mod_mult_right_eq)
  then show "?n mod PAGE_SIZE = 0" by (simp add: unat_eq_0)
qed

lemma unmap_loop_ok:
  assumes "mem_inv s D E" "d \<in> D" "start < end'" "end' \<le> USER_TOP" "start mod PAGE_SIZE = 0" "end' mod PAGE_SIZE = 0"
  shows "\<exists>s'. unmap_loop d start end' s = Some s' \<and> mem_inv s' D E \<and> (\<forall>d'\<in>D. frames s' d' = frames s d') \<and>
    (\<forall>x. rd s' x = (if x \<in> vslots s d start end' then 0 else rd s x))"
  using assms
proof (induction "unat end' - unat start" arbitrary: start s rule: less_induct)
  case less
  note I = less.prems(1) and d = less.prems(2)
  have u: "start < USER_TOP" using less.prems by simp
  obtain s1 where s1: "unmap_step d start s =
      Some (case slot s d start of None \<Rightarrow> ROUNDDOWN (start + PT_SIZE) PT_SIZE | Some x \<Rightarrow> start + PAGE_SIZE, s1)" "mem_inv s1 D E"
    "frames s1 = (case slot s d start of None \<Rightarrow> frames s | Some x \<Rightarrow> frames (wr x 0 s))"
    using unmap_step_ok [OF I d u] by blast
  have dirs: "frames s1 d' = frames s d'" if "d' \<in> D" for d'
    using s1(3) that slot_live [OF d] live_not_dir [of s D E] I by (force simp: mem_inv_def wr_def split: option.splits)
  define nx where "nx = (case slot s d start of None \<Rightarrow> ROUNDDOWN (start + PT_SIZE) PT_SIZE | Some x \<Rightarrow> start + PAGE_SIZE)"
  have nx: "nx \<noteq> 0" "start < nx" "nx mod PAGE_SIZE = 0"
    using aligned_next [OF less.prems(5,6,3) u] gap_next [OF u] by (simp_all add: nx_def split: option.splits)
  have run: "unmap_loop d start end' s = (if nx < end' then unmap_loop d nx end' s1 else Some s1)"
    using s1(1) nx(1) by (subst unmap_loop.simps) (simp add: nx_def)
  define m where "m = min nx end'"
  have rd1: "rd s1 x = (if x \<in> vslots s d start m then 0 else rd s x)" for x
  proof (cases "slot s d start")
    case None
    then have "vslots s d start m = {}" using slot_gap [OF None u] by (auto simp: vslots_def m_def nx_def)
    then show ?thesis using s1(3) None by (simp add: rd_def)
  next
    case (Some y)
    have "va < start + PAGE_SIZE" if "va < m" for va using that Some by (simp add: m_def nx_def)
    then have "slot s d va = Some y" if "start \<le> va" "va < m" for va
      using slot_page [OF less.prems(5) u that(1), of s d] that(2) Some by simp
    moreover have "start < m" using nx(2) less.prems(3) by (simp add: m_def)
    ultimately have "vslots s d start m = {y}" unfolding vslots_def using order_refl by fastforce
    then show ?thesis using s1(3) Some by (auto simp: rd_def wr_def prod_eq_iff)
  qed
  have sp: "vslots s d start end' = vslots s d start m \<union> vslots s d m end'"
    using nx(2) less.prems(3) by (intro vslots_split) (auto simp: m_def)
  show ?case
  proof (cases "nx < end'")
    case True
    have "unat end' - unat nx < unat end' - unat start" using True nx(2) by (simp add: word_less_nat_alt)
    from less.hyps [OF this s1(2) d True less.prems(4) nx(3) less.prems(6)]
    obtain s' where s': "unmap_loop d nx end' s1 = Some s'" "mem_inv s' D E" "\<forall>d'\<in>D. frames s' d' = frames s1 d'"
      "\<forall>x. rd s' x = (if x \<in> vslots s1 d nx end' then 0 else rd s1 x)" by blast
    have "m = nx" using True by (simp add: m_def)
    then have "vslots s1 d nx end' = vslots s d m end'" using vslots_frames [OF dirs [OF d]] by simp
    then show ?thesis using run True s' dirs rd1 sp by auto
  next
    case False
    then have "m = end'" by (simp add: m_def)
    then have "vslots s d m end' = {}" using vslots_empty [of end' end'] by simp
    then show ?thesis using run False s1(2) dirs rd1 sp by auto
  qed
qed

text \<open>The page table entry the processor sees for an address.\<close>

definition entry :: "mem \<Rightarrow> nat \<Rightarrow> u32 \<Rightarrow> u32" where
  "entry s d va = (case slot s d va of None \<Rightarrow> 0 | Some x \<Rightarrow> rd s x)"

lemma slot_inj:
  assumes "tab_inv s D E" "d \<in> D" "d' \<in> D" "slot s d va = Some x" "slot s d' va' = Some x"
  shows "d = d' \<and> unat va div 4096 = unat va' div 4096"
proof -
  have "d = d' \<and> PDX va = PDX va'" "PTX va = PTX va'"
    using assms by (auto simp: slot_def tab_inv_def)
  moreover have "unat a div 4096 = PDX a * 1024 + PTX a" for a :: u32
    using div_mult_mod_eq [of "unat a div 4096" 1024] by (simp add: PDX_div PTX_div div_mult2_eq [symmetric])
  ultimately show ?thesis by simp
qed

lemma aligned_same_page:
  assumes "a mod PAGE_SIZE = 0" "unat va div 4096 = unat va' div 4096"
  shows "(a \<le> va) = (a \<le> va')" "(va < a) = (va' < a)"
proof -
  obtain k where k: "unat a = 4096 * k"
    using arg_cong [OF assms(1), of unat] by (auto simp: PAGE_SIZE_def unat_mod elim!: dvdE)
  have le: "(a \<le> w) = (k \<le> unat w div 4096)" for w using k by (simp add: word_le_nat_alt less_eq_div_iff_mult_less_eq mult.commute)
  then show "(a \<le> va) = (a \<le> va')" using assms(2) by simp
  then show "(va < a) = (va' < a)" by (simp add: not_le [symmetric])
qed

lemma unmap_range_ok:
  assumes I: "mem_inv s D E" and d: "d \<in> D" and r: "USER_ACCESS a b" "a mod PAGE_SIZE = 0" "b mod PAGE_SIZE = 0"
  shows "\<exists>s'. unmap_range d a b s = Some s' \<and> mem_inv s' D E \<and>
    (\<forall>d'\<in>D. \<forall>va. entry s' d' va = (if d' = d \<and> a \<le> va \<and> va < b then 0 else entry s d' va))"
proof -
  have T: "tab_inv s D E" using I by (simp add: mem_inv_def)
  obtain s' where s': "unmap_loop d a b s = Some s'" "mem_inv s' D E" "\<forall>d'\<in>D. frames s' d' = frames s d'"
    "\<forall>x. rd s' x = (if x \<in> vslots s d a b then 0 else rd s x)"
    using unmap_loop_ok [OF I d _ _ r(2,3)] r(1) unfolding USER_ACCESS_def by blast
  have "entry s' d' va = (if d' = d \<and> a \<le> va \<and> va < b then 0 else entry s d' va)" if d': "d' \<in> D" for d' va
  proof (cases "slot s d' va")
    case None
    then show ?thesis using slot_frames [of s' d' s va] s'(3) d' by (simp add: entry_def)
  next
    case (Some x)
    have "x \<in> vslots s d a b \<longleftrightarrow> d' = d \<and> a \<le> va \<and> va < b"
    proof
      assume "x \<in> vslots s d a b"
      then obtain va' where va': "a \<le> va'" "va' < b" "slot s d va' = Some x" by (auto simp: vslots_def)
      then show "d' = d \<and> a \<le> va \<and> va < b"
        using slot_inj [OF T d d' va'(3) Some] aligned_same_page [OF r(2)] aligned_same_page [OF r(3)] by metis
    qed (use Some in \<open>auto simp: vslots_def\<close>)
    moreover have "rd s' x = (if x \<in> vslots s d a b then 0 else rd s x)" using s'(4) by blast
    ultimately show ?thesis using Some slot_frames [of s' d' s va] s'(3) d' by (simp add: entry_def)
  qed
  then show ?thesis using s'(1,2) r by (auto simp: unmap_range_def range_check_def)
qed

section \<open>An example\<close>

text \<open>A directory in frame 5 with one page table in frame 2, which maps the page at \<open>0x00800000\<close> to frame 3.\<close>

definition example_page :: "nat \<Rightarrow> page" where
  "example_page p = \<lparr>pg_ref = (if p = 3 then 1 else 0), pg_flags = 0, pg_property = 0, pg_zone = 0, pg_index = 0\<rparr>"

definition example_mem :: mem where
  "example_mem = \<lparr>pm = \<lparr>bd_pages = example_page, bd_list = (\<lambda>_. []), bd_nr = (\<lambda>_. 0), bd_zones = (\<lambda>_. 0), bd_zone_num = 1, bd_npage = 16\<rparr>,
     frames = (\<lambda>f i. if f = 5 \<and> i = 2 then 0x2007 else if f = 2 \<and> i = 0 then 0x3007 else 0),
     max_swap_offset = 1024, mem_map = (\<lambda>_. SWAP_UNUSED), swap_next = 1, hash_list = (\<lambda>_. []), active_list = [], nr_active_pages = 0,
     inactive_list = [], nr_inactive_pages = 0, swap_in_sem = 1, swap_dev = (\<lambda>_ _. 0), swap_fault = (\<lambda>_. False), kswapd_ready = False\<rparr>"

lemma example_buddy: "buddy_inv (pm example_mem)" "held example_mem p \<longleftrightarrow> p < 16"
  by (auto simp: example_mem_def example_page_def buddy_inv_def heads_def PageProperty_def held_def buddy_usable_def region_def
      buddy_free_set_def PageReserved_def)

lemma example_tab: "user_tab example_mem 5 i = (if i = 2 then Some 2 else None)"
  by (simp add: user_tab_def example_mem_def USER_PDE_def has_def PTE_P_def PPN_div)

lemma example_sets: "tabs example_mem {5} = {2}" "live example_mem {5} {} = {2} \<times> {..<1024}" "kpages example_mem {5} {} = {5, 2}"
  by (auto simp: tabs_def example_tab live_def kpages_def)

lemma example_rd: "rd example_mem (2, i) = (if i = 0 then 0x3007 else 0)"
  by (simp add: rd_def example_mem_def)

lemma example_maps: "maps (rd example_mem (2, i)) p \<longleftrightarrow> i = 0 \<and> p = 3"
  by (auto simp: maps_def example_rd has_def PTE_P_def PPN_div)

lemma example_cnt: "cnt example_mem ({2} \<times> {..<1024}) p = (if p = 3 then 1 else 0)"
proof -
  have "{x \<in> {2} \<times> {..<1024}. maps (rd example_mem x) p} = (if p = 3 then {(2, 0)} else {})" by (auto simp: example_maps)
  then show ?thesis by (simp add: cnt_def)
qed

lemma example_mem_inv: "mem_inv example_mem {5} {}"
proof -
  have pgs: "pg example_mem p = example_page p" for p by (simp add: pg_def example_mem_def)
  have sw: "\<not> PageSwap (example_page p)" for p by (simp add: PageSwap_def example_page_def)
  have np: "bd_npage (pm example_mem) = 16" by (simp add: example_mem_def)
  have "tab_inv example_mem {5} {}"
    unfolding tab_inv_def example_sets using example_buddy np by (simp add: example_tab)
  moreover have "held example_mem (PPN (rd example_mem (2, i))) \<and> PPN (rd example_mem (2, i)) \<notin> {5, 2}"
    if "has (rd example_mem (2, i)) PTE_P" for i
    using that example_buddy(2) by (simp add: example_rd PPN_div split: if_splits)
  then have "ref_inv example_mem ({2} \<times> {..<1024}) {5, 2}"
    unfolding ref_inv_def by (auto simp: pgs example_cnt) (auto simp: example_page_def)
  moreover have "list_inv example_mem"
    by (simp add: list_inv_def pgs sw) (simp add: example_mem_def)
  moreover have "scnt example_mem ({2} \<times> {..<1024}) (ent off) = 0" if "offset_ok example_mem off" for off
  proof -
    have "0 < off" "off < 1024" using that by (auto simp: offset_ok_def example_mem_def)
    then have "ent off \<noteq> 0" "ent off \<noteq> 0x3007" using ent_nonzero [of off] ent_not_P [of off] by (auto simp: has_def PTE_P_def)
    then have "{x \<in> {2} \<times> {..<1024}. rd example_mem x = ent off} = {}" by (auto simp: example_rd)
    then show ?thesis by (simp add: scnt_def)
  qed
  moreover have "mem_map example_mem off = SWAP_UNUSED" "max_swap_offset example_mem = 1024" for off by (simp_all add: example_mem_def)
  ultimately show ?thesis
    by (auto simp: mem_inv_def swap_inv_def example_sets pgs sw example_rd has_def PTE_P_def SWAP_UNUSED_def)
qed

section \<open>Correctness\<close>

text \<open>C5: Unmapping a page-aligned range of user addresses returns; afterwards no address of the range has a page table
  entry, every other entry of every process is unchanged, and the reference counts of all pages and the counts of all swap
  entries are again exactly the numbers of entries that refer to them, pages without references having been freed.\<close>

theorem unmap_range_exact:
  assumes "mem_inv s D E" "d \<in> D" "USER_ACCESS a b" "a mod PAGE_SIZE = 0" "b mod PAGE_SIZE = 0"
  shows "\<exists>s'. unmap_range d a b s = Some s' \<and> mem_inv s' D E \<and>
    (\<forall>d'\<in>D. \<forall>va. entry s' d' va = (if d' = d \<and> a \<le> va \<and> va < b then 0 else entry s d' va))"
  using unmap_range_ok [OF assms] .

theorem unmap_range_exact_witness:
  "\<exists>s'. unmap_range 5 0x00800000 0x00802000 example_mem = Some s' \<and> mem_inv s' {5} {} \<and>
    entry example_mem 5 0x00800000 = 0x3007 \<and> entry s' 5 0x00800000 = 0"
proof -
  have "entry example_mem 5 0x00800000 = 0x3007"
    by (simp add: entry_def slot_def PDX_div PTX_div example_tab example_rd)
  then show ?thesis
    using unmap_range_exact [OF example_mem_inv, of 5 "0x00800000" "0x00802000"]
    by (auto simp: USER_ACCESS_def USER_BASE_def USER_TOP_def PAGE_SIZE_def)
qed

end
