(* ===== verification/Shmem.thy ===== *)
theory Shmem
  imports Paging
begin

text \<open>
  Shared memory objects (\<^verbatim>\<open>src/kernel/mm/shmem.c\<close>): an object is a list of nodes sorted by address, a node holds the
  page table entries of four megabytes.  Objects and nodes are addresses in a store; the address a \<^verbatim>\<open>kmalloc\<close>
  returns is an argument, \<^const>\<open>None\<close> when it fails.
\<close>

record shmn =
  shmn_start :: u32
  shmn_end :: u32
  shmn_entry :: nat

record shmem =
  shmn_link :: "nat list"
  shmn_cache :: "nat option"
  shmem_len :: u32
  shmem_ref :: int
  shmem_sem :: nat

record shst =
  memory :: mem
  shmems :: "nat \<Rightarrow> shmem"
  shmns :: "nat \<Rightarrow> shmn"

definition upd_shmem :: "nat \<Rightarrow> (shmem \<Rightarrow> shmem) \<Rightarrow> 'a shst_scheme \<Rightarrow> 'a shst_scheme" where
  "upd_shmem o' f s = s\<lparr>shmems := (shmems s)(o' := f (shmems s o'))\<rparr>"

definition upd_shmn :: "nat \<Rightarrow> (shmn \<Rightarrow> shmn) \<Rightarrow> 'a shst_scheme \<Rightarrow> 'a shst_scheme" where
  "upd_shmn n f s = s\<lparr>shmns := (shmns s)(n := f (shmns s n))\<rparr>"

text \<open>Running an operation on the paging state.\<close>

definition on_mem :: "(mem \<Rightarrow> ('r \<times> mem) option) \<Rightarrow> 'a shst_scheme \<Rightarrow> ('r \<times> 'a shst_scheme) option" where
  "on_mem f s = do { (r, m) \<leftarrow> f (memory s); Some (r, s\<lparr>memory := m\<rparr>) }"

definition on_memu :: "(mem \<Rightarrow> mem option) \<Rightarrow> 'a shst_scheme \<Rightarrow> 'a shst_scheme option" where
  "on_memu f s = do { m \<leftarrow> f (memory s); Some (s\<lparr>memory := m\<rparr>) }"

section \<open>Objects\<close>

definition shmem_create :: "u32 \<Rightarrow> nat option \<Rightarrow> 'a shst_scheme \<Rightarrow> nat option \<times> 'a shst_scheme" where
  "shmem_create len new s =
     (case new of
        None \<Rightarrow> (None, s)
      | Some o' \<Rightarrow>
          (Some o', upd_shmem o' (\<lambda>_. \<lparr>shmn_link = [], shmn_cache = None, shmem_len = len, shmem_ref = 0, shmem_sem = 1\<rparr>) s))"

definition shmem_ref_inc :: "nat \<Rightarrow> 'a shst_scheme \<Rightarrow> 'a shst_scheme" where
  "shmem_ref_inc o' = upd_shmem o' (\<lambda>m. m\<lparr>shmem_ref := shmem_ref m + 1\<rparr>)"

definition shmem_ref_dec :: "nat \<Rightarrow> 'a shst_scheme \<Rightarrow> int \<times> 'a shst_scheme" where
  "shmem_ref_dec o' s = (let r = shmem_ref (shmems s o') - 1 in (r, upd_shmem o' (\<lambda>m. m\<lparr>shmem_ref := r\<rparr>) s))"

definition shmem_lock :: "nat \<Rightarrow> 'a shst_scheme \<Rightarrow> 'a shst_scheme option" where
  "shmem_lock o' s = do {
     kassert (shmem_sem (shmems s o') > 0);
     Some (upd_shmem o' (\<lambda>m. m\<lparr>shmem_sem := shmem_sem m - 1\<rparr>) s)
   }"

definition shmem_unlock :: "nat \<Rightarrow> 'a shst_scheme \<Rightarrow> 'a shst_scheme" where
  "shmem_unlock o' = upd_shmem o' (\<lambda>m. m\<lparr>shmem_sem := shmem_sem m + 1\<rparr>)"

section \<open>Nodes\<close>

definition SHMN_N_ENTRY :: nat where "SHMN_N_ENTRY = 1024"

definition shmn_create :: "u32 \<Rightarrow> nat option \<Rightarrow> 'a shst_scheme \<Rightarrow> (nat option \<times> 'a shst_scheme) option" where
  "shmn_create start new s = do {
     kassert (start mod PT_SIZE = 0);
     case new of
       None \<Rightarrow> Some (None, s)
     | Some n \<Rightarrow> do {
         (r, s1) \<leftarrow> on_mem alloc_page s;
         case r of
           None \<Rightarrow> Some (None, s1)
         | Some page \<Rightarrow> do {
             f \<leftarrow> KVADDR (page2pa page) (memory s1);
             let s2 = upd_shmn n (\<lambda>_. \<lparr>shmn_start = start, shmn_end = start + PT_SIZE, shmn_entry = f\<rparr>) s1;
             Some (Some n, s2\<lparr>memory := set_frame f (\<lambda>_. 0) (memory s2)\<rparr>)
           }
       }
   }"

definition shmem_remove_entry_pte :: "ptep \<Rightarrow> mem \<Rightarrow> mem option" where
  "shmem_remove_entry_pte ptep s =
     (if has (rd s ptep) PTE_P then do {
        page \<leftarrow> pte2page (rd s ptep) s;
        s1 \<leftarrow> (if \<not> PageSwap (pg s page) then
                 (let s' = page_ref_decr page s in if pg_ref (pg s' page) = 0 then free_page page s' else Some s')
               else Some (page_ref_decr page (if has (rd s ptep) PTE_D then upd_pg page SetPageDirty s else s)));
        Some (wr ptep 0 s1)
      }
      else if rd s ptep \<noteq> 0 then do {
        s1 \<leftarrow> swap_remove_entry (rd s ptep) s;
        Some (wr ptep 0 s1)
      }
      else Some s)"

fun shmn_clear :: "nat \<Rightarrow> nat list \<Rightarrow> mem \<Rightarrow> mem option" where
  "shmn_clear f [] s = Some s"
| "shmn_clear f (i # is) s = do { s1 \<leftarrow> shmem_remove_entry_pte (f, i) s; shmn_clear f is s1 }"

definition shmn_destory :: "nat \<Rightarrow> 'a shst_scheme \<Rightarrow> 'a shst_scheme option" where
  "shmn_destory n s = do {
     let f = shmn_entry (shmns s n);
     s1 \<leftarrow> on_memu (shmn_clear f [0..<SHMN_N_ENTRY]) s;
     on_memu (free_page f) s1
   }"

definition shmn_covers :: "'a shst_scheme \<Rightarrow> u32 \<Rightarrow> nat \<Rightarrow> bool" where
  "shmn_covers s addr n = (shmn_start (shmns s n) \<le> addr \<and> addr < shmn_end (shmns s n))"

definition shmn_find :: "nat \<Rightarrow> u32 \<Rightarrow> 'a shst_scheme \<Rightarrow> nat option \<times> 'a shst_scheme" where
  "shmn_find o' addr s =
     (let r = (case shmn_cache (shmems s o') of
                 Some n \<Rightarrow> if shmn_covers s addr n then Some n else find (shmn_covers s addr) (shmn_link (shmems s o'))
               | None \<Rightarrow> find (shmn_covers s addr) (shmn_link (shmems s o')))
      in case r of None \<Rightarrow> (None, s) | Some n \<Rightarrow> (Some n, upd_shmem o' (\<lambda>m. m\<lparr>shmn_cache := Some n\<rparr>) s))"

definition shmn_check_overlap :: "shmn \<Rightarrow> shmn \<Rightarrow> unit option" where
  "shmn_check_overlap prev nxt = do {
     kassert (shmn_start prev < shmn_end prev);
     kassert (shmn_end prev \<le> shmn_start nxt);
     kassert (shmn_start nxt < shmn_end nxt)
   }"

definition shmn_insert :: "nat \<Rightarrow> nat \<Rightarrow> 'a shst_scheme \<Rightarrow> 'a shst_scheme option" where
  "shmn_insert o' n s =
     (let l = shmn_link (shmems s o');
          before = takeWhile (\<lambda>m. \<not> shmn_start (shmns s m) > shmn_start (shmns s n)) l;
          after = dropWhile (\<lambda>m. \<not> shmn_start (shmns s m) > shmn_start (shmns s n)) l
      in do {
        (if before = [] then Some () else shmn_check_overlap (shmns s (last before)) (shmns s n));
        (if after = [] then Some () else shmn_check_overlap (shmns s n) (shmns s (hd after)));
        Some (upd_shmem o' (\<lambda>m. m\<lparr>shmn_link := before @ n # after\<rparr>) s)
      })"

fun shmem_destory_loop :: "nat list \<Rightarrow> nat \<Rightarrow> 'a shst_scheme \<Rightarrow> 'a shst_scheme option" where
  "shmem_destory_loop [] o' s = Some s"
| "shmem_destory_loop (n # ns) o' s = do {
     s1 \<leftarrow> shmn_destory n (upd_shmem o' (\<lambda>m. m\<lparr>shmn_link := ns\<rparr>) s);
     shmem_destory_loop ns o' s1
   }"

definition shmem_destory :: "nat \<Rightarrow> 'a shst_scheme \<Rightarrow> 'a shst_scheme option" where
  "shmem_destory o' s = shmem_destory_loop (shmn_link (shmems s o')) o' s"

section \<open>Entries\<close>

definition shmem_get_entry :: "nat \<Rightarrow> u32 \<Rightarrow> bool \<Rightarrow> nat option \<Rightarrow> 'a shst_scheme \<Rightarrow> (ptep option \<times> 'a shst_scheme) option" where
  "shmem_get_entry o' addr create new s = do {
     kassert (addr < shmem_len (shmems s o'));
     let addr = ROUNDDOWN addr PAGE_SIZE;
     let (r, s1) = shmn_find o' addr s;
     kassert (case r of None \<Rightarrow> True | Some n \<Rightarrow> shmn_covers s1 addr n);
     (r, s2) \<leftarrow>
       (case r of
          Some n \<Rightarrow> Some (Some n, s1)
        | None \<Rightarrow>
            if \<not> create then Some (None, s1)
            else do {
              (r', s') \<leftarrow> shmn_create (ROUNDDOWN addr PT_SIZE) new s1;
              case r' of
                None \<Rightarrow> Some (None, s')
              | Some n \<Rightarrow> do { s'' \<leftarrow> shmn_insert o' n s'; Some (Some n, s'') }
            });
     case r of
       None \<Rightarrow> Some (None, s2)
     | Some n \<Rightarrow> do {
         let x = (shmn_entry (shmns s2 n), unat ((addr - shmn_start (shmns s2 n)) div PAGE_SIZE));
         if rd (memory s2) x = 0 \<and> create then do {
           (p, s3) \<leftarrow> on_mem alloc_page s2;
           case p of
             None \<Rightarrow> Some (Some x, s3)
           | Some page \<Rightarrow>
               Some (Some x, s3\<lparr>memory := page_ref_incr page (wr x (page2pa page OR PTE_P) (memory s3))\<rparr>)
         }
         else Some (Some x, s2)
       }
   }"

definition shmem_insert_entry :: "nat \<Rightarrow> u32 \<Rightarrow> u32 \<Rightarrow> nat option \<Rightarrow> 'a shst_scheme \<Rightarrow> ((kerr + unit) \<times> 'a shst_scheme) option" where
  "shmem_insert_entry o' addr entry new s = do {
     (ptep, s1) \<leftarrow> shmem_get_entry o' addr True new s;
     case ptep of
       None \<Rightarrow> Some (Inl E_NO_MEM, s1)
     | Some x \<Rightarrow> do {
         s2 \<leftarrow> (if rd (memory s1) x \<noteq> 0 then on_memu (shmem_remove_entry_pte x) s1 else Some s1);
         s3 \<leftarrow> (if has entry PTE_P then do {
                  p \<leftarrow> pte2page entry (memory s2);
                  Some (s2\<lparr>memory := page_ref_incr p (memory s2)\<rparr>)
                }
                else if entry \<noteq> 0 then on_memu (swap_duplicate entry) s2
                else Some s2);
         Some (Inr (), s3\<lparr>memory := wr x entry (memory s3)\<rparr>)
       }
   }"

definition shmem_remove_entry :: "nat \<Rightarrow> u32 \<Rightarrow> nat option \<Rightarrow> 'a shst_scheme \<Rightarrow> ((kerr + unit) \<times> 'a shst_scheme) option" where
  "shmem_remove_entry o' addr new s = shmem_insert_entry o' addr 0 new s"

end
