(* ===== verification/Vmm.thy ===== *)
theory Vmm
  imports Rbtree Refs Shmem
begin

text \<open>
  Address spaces (\<^verbatim>\<open>src/kernel/mm/vmm.c\<close>): the areas of a process, kept in a list sorted by address and, once there
  are 32 of them, also in a red-black tree, with a one-entry cache.  Areas and address spaces are addresses in a
  store; the node of an area in the tree is the area, the sentinel of the tree is the address space.  The
  address a \<^verbatim>\<open>kmalloc\<close> returns is an argument, and 0 is \<^verbatim>\<open>NULL\<close>.  The semaphore of an address space is initialised and
  never used, and is left out.

  The theorems relate the operations to a map from addresses to access flags: mapping, unmapping and growing the heap are
  updates of that map on the page-aligned range, and all representations stay consistent.
\<close>

section \<open>Areas and address spaces\<close>

record vma =
  vm_mm :: nat
  vm_start :: u32
  vm_end :: u32
  vm_flags :: u32
  vm_shmem :: nat
  vm_shmem_off :: u32

definition VM_READ :: u32 where "VM_READ = 0x1"
definition VM_WRITE :: u32 where "VM_WRITE = 0x2"
definition VM_EXEC :: u32 where "VM_EXEC = 0x4"
definition VM_STACK :: u32 where "VM_STACK = 0x8"
definition VM_SHARE :: u32 where "VM_SHARE = 0x10"

record mm_struct =
  mmap_link :: "nat list"
  mmap_tree :: rbtree
  mmap_cache :: "nat option"
  page_dir :: nat
  map_count :: int
  swap_address :: u32
  mm_count :: int
  mm_lock :: bool
  locked_by :: int
  brk_start :: u32
  brk :: u32

record vmst = shst +
  vmas :: "nat \<Rightarrow> vma"
  mms :: "nat \<Rightarrow> mm_struct"
  current_pid :: "int option"

definition RB_MIN_MAP_COUNT :: int where "RB_MIN_MAP_COUNT = 32"

definition upd_vma :: "nat \<Rightarrow> (vma \<Rightarrow> vma) \<Rightarrow> 'a vmst_scheme \<Rightarrow> 'a vmst_scheme" where
  "upd_vma v f s = s\<lparr>vmas := (vmas s)(v := f (vmas s v))\<rparr>"

definition upd_mm :: "nat \<Rightarrow> (mm_struct \<Rightarrow> mm_struct) \<Rightarrow> 'a vmst_scheme \<Rightarrow> 'a vmst_scheme" where
  "upd_mm m f s = s\<lparr>mms := (mms s)(m := f (mms s m))\<rparr>"

definition vma_compare :: "(nat \<Rightarrow> vma) \<Rightarrow> nat \<Rightarrow> nat \<Rightarrow> int" where
  "vma_compare vs n1 n2 =
     (if vm_start (vs n1) < vm_start (vs n2) then -1 else if vm_start (vs n1) > vm_start (vs n2) then 1 else 0)"

definition mm_create :: "nat option \<Rightarrow> 'a vmst_scheme \<Rightarrow> nat option \<times> 'a vmst_scheme" where
  "mm_create new s =
     (case new of
        None \<Rightarrow> (None, s)
      | Some m \<Rightarrow>
          (Some m, upd_mm m (\<lambda>mm. mm\<lparr>mmap_link := [], mmap_cache := None, page_dir := 0,
             mmap_tree := rbtree_init ((mmap_tree mm)\<lparr>rb_nil := m\<rparr>), map_count := 0, swap_address := 0, mm_count := 0,
             mm_lock := False, brk_start := 0, brk := 0\<rparr>) s))"

definition vma_create :: "u32 \<Rightarrow> u32 \<Rightarrow> u32 \<Rightarrow> nat option \<Rightarrow> 'a vmst_scheme \<Rightarrow> nat option \<times> 'a vmst_scheme" where
  "vma_create start end' flags new s =
     (case new of
        None \<Rightarrow> (None, s)
      | Some v \<Rightarrow> (Some v, upd_vma v (\<lambda>vma. vma\<lparr>vm_start := start, vm_end := end', vm_flags := flags\<rparr>) s))"

section \<open>Searching\<close>

partial_function (option) find_vma_rb :: "(nat \<Rightarrow> vma) \<Rightarrow> rbtree \<Rightarrow> u32 \<Rightarrow> nat \<Rightarrow> nat option \<Rightarrow> nat option option" where
  "find_vma_rb vs tree addr node vma =
     (if node \<noteq> rb_nil tree then
        if vm_end (vs node) > addr then
          if vm_start (vs node) \<le> addr then Some (Some node)
          else find_vma_rb vs tree addr (rb_left tree node) (Some node)
        else find_vma_rb vs tree addr (rb_right tree node) vma
      else Some vma)"

definition find_vma :: "nat \<Rightarrow> u32 \<Rightarrow> 'a vmst_scheme \<Rightarrow> (nat option \<times> 'a vmst_scheme) option" where
  "find_vma m addr s = (if m = 0 then Some (None, s) else do {
     let mm = mms s m;
     let hit = (case mmap_cache mm of None \<Rightarrow> False
                | Some v \<Rightarrow> vm_start (vmas s v) \<le> addr \<and> vm_end (vmas s v) > addr);
     vma \<leftarrow> (if hit then Some (mmap_cache mm)
              else if rb_root (mmap_tree mm) \<noteq> rb_nil (mmap_tree mm)
              then find_vma_rb (vmas s) (mmap_tree mm) addr (rb_root (mmap_tree mm)) None
              else Some (find (\<lambda>v. addr < vm_end (vmas s v)) (mmap_link mm)));
     Some (vma, case vma of None \<Rightarrow> s | Some v \<Rightarrow> upd_mm m (\<lambda>mm. mm\<lparr>mmap_cache := Some v\<rparr>) s)
   })"

definition find_vma_intersection :: "nat \<Rightarrow> u32 \<Rightarrow> u32 \<Rightarrow> 'a vmst_scheme \<Rightarrow> (nat option \<times> 'a vmst_scheme) option" where
  "find_vma_intersection m start end' s = do {
     (r, s1) \<leftarrow> find_vma m start s;
     Some (case r of None \<Rightarrow> None | Some v \<Rightarrow> if end' \<le> vm_start (vmas s1 v) then None else Some v, s1)
   }"

section \<open>Inserting and removing areas\<close>

definition check_vma_overlap :: "vma \<Rightarrow> vma \<Rightarrow> unit option" where
  "check_vma_overlap prev nxt = do {
     kassert (vm_start prev < vm_end prev);
     kassert (vm_end prev \<le> vm_start nxt);
     kassert (vm_start nxt < vm_end nxt)
   }"

definition insert_vma_rb :: "(nat \<Rightarrow> vma) \<Rightarrow> rbtree \<Rightarrow> nat \<Rightarrow> (rbtree \<times> nat option) option" where
  "insert_vma_rb vs tree v = do {
     tree' \<leftarrow> rbtree_insert (vma_compare vs) v tree;
     prev \<leftarrow> rbtree_predecessor tree' v;
     Some (tree', if prev \<noteq> rb_nil tree' then Some prev else None)
   }"

text \<open>Linking \<open>x\<close> after an element of a list, or first; the end of a list is its head.\<close>

fun list_add_after_elem :: "'b option \<Rightarrow> 'b \<Rightarrow> 'b list \<Rightarrow> 'b list" where
  "list_add_after_elem None x l = x # l"
| "list_add_after_elem (Some p) x [] = []"
| "list_add_after_elem (Some p) x (y # ys) = (if y = p then y # x # ys else y # list_add_after_elem (Some p) x ys)"

definition link_next :: "'b option \<Rightarrow> 'b list \<Rightarrow> 'b option" where
  "link_next p l = (case p of None \<Rightarrow> list_first l | Some q \<Rightarrow> next_of l q)"

definition insert_vma_struct :: "nat \<Rightarrow> nat \<Rightarrow> 'a vmst_scheme \<Rightarrow> 'a vmst_scheme option" where
  "insert_vma_struct m v s = do {
     kassert (vm_start (vmas s v) < vm_end (vmas s v));
     let mm = mms s m;
     (tree, entry_prev) \<leftarrow>
       (if rb_root (mmap_tree mm) \<noteq> rb_nil (mmap_tree mm) then insert_vma_rb (vmas s) (mmap_tree mm) v
        else Some (mmap_tree mm,
          let before = takeWhile (\<lambda>w. \<not> vm_start (vmas s w) > vm_start (vmas s v)) (mmap_link mm)
          in if before = [] then None else Some (last before)));
     let entry_next = link_next entry_prev (mmap_link mm);
     (case entry_prev of None \<Rightarrow> Some () | Some p \<Rightarrow> check_vma_overlap (vmas s p) (vmas s v));
     (case entry_next of None \<Rightarrow> Some () | Some n \<Rightarrow> check_vma_overlap (vmas s v) (vmas s n));
     let link = list_add_after_elem entry_prev v (mmap_link mm);
     let count = map_count mm + 1;
     tree' \<leftarrow> (if rb_root tree = rb_nil tree \<and> count \<ge> RB_MIN_MAP_COUNT
                then insert_each (rbtree_insert (vma_compare (vmas s))) link tree
                else Some tree);
     Some (upd_mm m (\<lambda>mm. mm\<lparr>mmap_link := link, mmap_tree := tree', map_count := count\<rparr>)
             (upd_vma v (\<lambda>vma. vma\<lparr>vm_mm := m\<rparr>) s))
   }"

definition remove_vma_struct :: "nat \<Rightarrow> nat \<Rightarrow> 'a vmst_scheme \<Rightarrow> 'a vmst_scheme option" where
  "remove_vma_struct m v s = do {
     kassert (vm_mm (vmas s v) = m);
     let mm = mms s m;
     tree \<leftarrow> (if rb_root (mmap_tree mm) \<noteq> rb_nil (mmap_tree mm) then rbtree_delete v (mmap_tree mm) else Some (mmap_tree mm));
     Some (upd_mm m (\<lambda>mm. mm\<lparr>mmap_tree := tree, mmap_link := remove1 v (mmap_link mm),
       mmap_cache := (if mmap_cache mm = Some v then None else mmap_cache mm), map_count := map_count mm - 1\<rparr>) s)
   }"

definition vma_destory :: "nat \<Rightarrow> 'a vmst_scheme \<Rightarrow> 'a vmst_scheme option" where
  "vma_destory v s =
     (if has (vm_flags (vmas s v)) VM_SHARE then
        (let (r, s1) = shmem_ref_dec (vm_shmem (vmas s v)) s
         in if r = 0 then shmem_destory (vm_shmem (vmas s v)) s1 else Some s1)
      else Some s)"

fun mm_destory_loop :: "nat list \<Rightarrow> nat \<Rightarrow> 'a vmst_scheme \<Rightarrow> 'a vmst_scheme option" where
  "mm_destory_loop [] m s = Some s"
| "mm_destory_loop (v # vs) m s = do {
     s1 \<leftarrow> vma_destory v (upd_mm m (\<lambda>mm. mm\<lparr>mmap_link := vs\<rparr>) s);
     mm_destory_loop vs m s1
   }"

text \<open>The loop steps from an area it has freed to the next one: its links are taken to be what they were.\<close>

definition mm_destory :: "nat \<Rightarrow> 'a vmst_scheme \<Rightarrow> 'a vmst_scheme option" where
  "mm_destory m s = mm_destory_loop (mmap_link (mms s m)) m s"

section \<open>Mapping\<close>

definition mm_map :: "nat \<Rightarrow> u32 \<Rightarrow> u32 \<Rightarrow> u32 \<Rightarrow> nat option \<Rightarrow> 'a vmst_scheme \<Rightarrow> ((kerr + nat) \<times> 'a vmst_scheme) option" where
  "mm_map m addr len flags new s =
     (let start = ROUNDDOWN addr PAGE_SIZE; end' = ROUNDUP (addr + len) PAGE_SIZE
      in if \<not> USER_ACCESS start end' then Some (Inl E_INVAL, s)
         else do {
           kassert (m \<noteq> 0);
           (r, s1) \<leftarrow> find_vma m start s;
           if (case r of None \<Rightarrow> False | Some v \<Rightarrow> end' > vm_start (vmas s1 v)) then Some (Inl E_INVAL, s1)
           else
             (case vma_create start end' (flags AND NOT VM_SHARE) new s1 of
                (None, s2) \<Rightarrow> Some (Inl E_NO_MEM, s2)
              | (Some v, s2) \<Rightarrow> do {
                  s3 \<leftarrow> insert_vma_struct m v s2;
                  Some (Inr v, s3)
                })
         })"

definition mm_map_shmem :: "nat \<Rightarrow> u32 \<Rightarrow> u32 \<Rightarrow> nat \<Rightarrow> nat option \<Rightarrow> 'a vmst_scheme \<Rightarrow> ((kerr + nat) \<times> 'a vmst_scheme) option" where
  "mm_map_shmem m addr flags o' new s =
     (if addr mod PAGE_SIZE \<noteq> 0 \<or> o' = 0 then Some (Inl E_INVAL, s)
      else do {
        (r, s1) \<leftarrow> mm_map m addr (shmem_len (shmems s o')) flags new (shmem_ref_inc o' s);
        case r of
          Inl e \<Rightarrow> Some (Inl e, snd (shmem_ref_dec o' s1))
        | Inr v \<Rightarrow>
            Some (Inr v, upd_vma v (\<lambda>vma. vma\<lparr>vm_shmem := o', vm_shmem_off := 0, vm_flags := vm_flags vma OR VM_SHARE\<rparr>) s1)
      })"

definition vma_resize :: "nat \<Rightarrow> u32 \<Rightarrow> u32 \<Rightarrow> 'a vmst_scheme \<Rightarrow> 'a vmst_scheme option" where
  "vma_resize v start end' s = do {
     kassert (start mod PAGE_SIZE = 0 \<and> end' mod PAGE_SIZE = 0);
     kassert (vm_start (vmas s v) \<le> start \<and> start < end' \<and> vm_end (vmas s v) \<ge> end');
     Some (upd_vma v (\<lambda>vma. vma\<lparr>
       vm_shmem_off := (if has (vm_flags vma) VM_SHARE then vm_shmem_off vma + (start - vm_start vma) else vm_shmem_off vma),
       vm_start := start, vm_end := end'\<rparr>) s)
   }"

fun area_scan :: "(nat \<Rightarrow> vma) \<Rightarrow> u32 \<Rightarrow> nat list \<Rightarrow> u32 \<Rightarrow> u32" where
  "area_scan vs len [] start = (if start \<ge> USER_BASE then start else 0)"
| "area_scan vs len (v # l) start =
     (if start \<ge> vm_end (vs v) then start
      else if start + len > vm_start (vs v) then
        if len \<ge> vm_start (vs v) then 0 else area_scan vs len l (vm_start (vs v) - len)
      else area_scan vs len l start)"

definition get_unmapped_area :: "nat \<Rightarrow> u32 \<Rightarrow> 'a vmst_scheme \<Rightarrow> u32" where
  "get_unmapped_area m len s =
     (if len = 0 \<or> len > USER_TOP then 0
      else area_scan (vmas s) len (rev (mmap_link (mms s m))) (USER_TOP - len))"

section \<open>Unmapping\<close>

text \<open>The areas from \<open>v\<close> on that begin below \<open>end'\<close>, taken out of the address space, the last one first.\<close>

partial_function (option) unmap_collect ::
    "nat \<Rightarrow> u32 \<Rightarrow> nat \<Rightarrow> nat list \<Rightarrow> 'a vmst_scheme \<Rightarrow> (nat list \<times> 'a vmst_scheme) option" where
  "unmap_collect m end' v free s =
     (if vm_start (vmas s v) < end' then do {
        let entry = next_of (mmap_link (mms s m)) v;
        s1 \<leftarrow> remove_vma_struct m v s;
        case entry of
          None \<Rightarrow> Some (v # free, s1)
        | Some w \<Rightarrow> unmap_collect m end' w (v # free) s1
      }
      else Some (free, s))"

definition unmap_area :: "nat \<Rightarrow> u32 \<Rightarrow> u32 \<Rightarrow> nat \<Rightarrow> 'a vmst_scheme \<Rightarrow> 'a vmst_scheme option" where
  "unmap_area m start end' v s = do {
     let vs = vm_start (vmas s v);
     let ve = vm_end (vmas s v);
     (un_start, un_end, s1) \<leftarrow>
       (if vs < start then do {
          s' \<leftarrow> vma_resize v vs start s;
          s'' \<leftarrow> insert_vma_struct m v s';
          Some (start, ve, s'')
        }
        else if ve \<le> end' then do { s' \<leftarrow> vma_destory v s; Some (vs, ve, s') }
        else do {
          s' \<leftarrow> vma_resize v end' ve s;
          s'' \<leftarrow> insert_vma_struct m v s';
          Some (vs, end', s'')
        });
     on_memu (unmap_range (page_dir (mms s1 m)) un_start un_end) s1
   }"

fun unmap_areas :: "nat \<Rightarrow> u32 \<Rightarrow> u32 \<Rightarrow> nat list \<Rightarrow> 'a vmst_scheme \<Rightarrow> 'a vmst_scheme option" where
  "unmap_areas m start end' [] s = Some s"
| "unmap_areas m start end' (v # vs) s = do { s1 \<leftarrow> unmap_area m start end' v s; unmap_areas m start end' vs s1 }"

definition unmap_split :: "nat \<Rightarrow> u32 \<Rightarrow> u32 \<Rightarrow> nat \<Rightarrow> nat option \<Rightarrow> 'a vmst_scheme \<Rightarrow> ((kerr + unit) \<times> 'a vmst_scheme) option" where
  "unmap_split m start end' v new s =
     (case vma_create (vm_start (vmas s v)) start (vm_flags (vmas s v)) new s of
        (None, s1) \<Rightarrow> Some (Inl E_NO_MEM, s1)
      | (Some l, s1) \<Rightarrow> do {
          s2 \<leftarrow> vma_resize v end' (vm_end (vmas s1 v)) s1;
          s3 \<leftarrow> insert_vma_struct m l s2;
          s4 \<leftarrow> on_memu (unmap_range (page_dir (mms s3 m)) start end') s3;
          Some (Inr (), s4)
        })"

definition mm_unmap :: "nat \<Rightarrow> u32 \<Rightarrow> u32 \<Rightarrow> nat option \<Rightarrow> 'a vmst_scheme \<Rightarrow> ((kerr + unit) \<times> 'a vmst_scheme) option" where
  "mm_unmap m addr len new s =
     (let start = ROUNDDOWN addr PAGE_SIZE; end' = ROUNDUP (addr + len) PAGE_SIZE
      in if \<not> USER_ACCESS start end' then Some (Inl E_INVAL, s)
         else do {
           kassert (m \<noteq> 0);
           (r, s1) \<leftarrow> find_vma m start s;
           case r of
             None \<Rightarrow> Some (Inr (), s1)
           | Some v \<Rightarrow>
               if end' \<le> vm_start (vmas s1 v) then Some (Inr (), s1)
               else if vm_start (vmas s1 v) < start \<and> end' < vm_end (vmas s1 v) then unmap_split m start end' v new s1
               else do {
                 (free, s2) \<leftarrow> unmap_collect m end' v [] s1;
                 s3 \<leftarrow> unmap_areas m start end' free s2;
                 Some (Inr (), s3)
               }
         })"

definition mm_brk :: "nat \<Rightarrow> u32 \<Rightarrow> u32 \<Rightarrow> nat option \<Rightarrow> nat option \<Rightarrow> 'a vmst_scheme \<Rightarrow> ((kerr + unit) \<times> 'a vmst_scheme) option" where
  "mm_brk m addr len new1 new2 s =
     (let start = ROUNDDOWN addr PAGE_SIZE; end' = ROUNDUP (addr + len) PAGE_SIZE
      in if \<not> USER_ACCESS start end' then Some (Inl E_INVAL, s)
         else do {
           (ret, s1) \<leftarrow> mm_unmap m start (end' - start) new1 s;
           case ret of
             Inl e \<Rightarrow> Some (Inl e, s1)
           | Inr _ \<Rightarrow> do {
               let flags = VM_READ OR VM_WRITE;
               (r, s2) \<leftarrow> find_vma m (start - 1) s1;
               case r of
                 Some v \<Rightarrow>
                   if vm_end (vmas s2 v) = start \<and> vm_flags (vmas s2 v) = flags
                   then Some (Inr (), upd_vma v (\<lambda>vma. vma\<lparr>vm_end := end'\<rparr>) s2)
                   else
                     (case vma_create start end' flags new2 s2 of
                        (None, s3) \<Rightarrow> Some (Inl E_NO_MEM, s3)
                      | (Some w, s3) \<Rightarrow> do { s4 \<leftarrow> insert_vma_struct m w s3; Some (Inr (), s4) })
               | None \<Rightarrow>
                   (case vma_create start end' flags new2 s2 of
                      (None, s3) \<Rightarrow> Some (Inl E_NO_MEM, s3)
                    | (Some w, s3) \<Rightarrow> do { s4 \<leftarrow> insert_vma_struct m w s3; Some (Inr (), s4) })
             }
         })"

section \<open>Checking and copying user memory\<close>

partial_function (option) user_mem_loop :: "nat \<Rightarrow> u32 \<Rightarrow> u32 \<Rightarrow> bool \<Rightarrow> 'a vmst_scheme \<Rightarrow> (bool \<times> 'a vmst_scheme) option" where
  "user_mem_loop m start end' write s =
     (if start < end' then do {
        (r, s1) \<leftarrow> find_vma m start s;
        case r of
          None \<Rightarrow> Some (False, s1)
        | Some v \<Rightarrow>
            if \<not> has (vm_flags (vmas s1 v)) (if write then VM_WRITE else VM_READ) then Some (False, s1)
            else if write \<and> has (vm_flags (vmas s1 v)) VM_STACK \<and> start < vm_start (vmas s1 v) + PAGE_SIZE then Some (False, s1)
            else user_mem_loop m (vm_end (vmas s1 v)) end' write s1
      }
      else Some (True, s))"

definition user_mem_check :: "nat \<Rightarrow> u32 \<Rightarrow> u32 \<Rightarrow> bool \<Rightarrow> 'a vmst_scheme \<Rightarrow> (bool \<times> 'a vmst_scheme) option" where
  "user_mem_check m addr len write s =
     (if m \<noteq> 0 then
        if \<not> USER_ACCESS addr (addr + len) then Some (False, s)
        else user_mem_loop m addr (addr + len) write s
      else Some (KERNEL_ACCESS addr (addr + len), s))"

text \<open>
  Copying reads and writes bytes at the addresses as the processor translates them: the bytes are arguments.  A copy returns
  what it wrote to the destination, \<^const>\<open>None\<close> when it refuses.
\<close>

definition copy_from_user ::
    "nat \<Rightarrow> (u32 \<Rightarrow> 8 word) \<Rightarrow> u32 \<Rightarrow> u32 \<Rightarrow> bool \<Rightarrow> 'a vmst_scheme \<Rightarrow> (8 word list option \<times> 'a vmst_scheme) option" where
  "copy_from_user m byte src len writable s = do {
     (ok, s1) \<leftarrow> user_mem_check m src len writable s;
     Some (if ok then Some (map (\<lambda>i. byte (src + of_nat i)) [0..<unat len]) else None, s1)
   }"

definition copy_to_user ::
    "nat \<Rightarrow> (u32 \<Rightarrow> 8 word) \<Rightarrow> u32 \<Rightarrow> u32 \<Rightarrow> u32 \<Rightarrow> 'a vmst_scheme \<Rightarrow> (8 word list option \<times> 'a vmst_scheme) option" where
  "copy_to_user m byte dst src len s = do {
     (ok, s1) \<leftarrow> user_mem_check m dst len True s;
     Some (if ok then Some (map (\<lambda>i. byte (src + of_nat i)) [0..<unat len]) else None, s1)
   }"

section \<open>Copying and destroying address spaces\<close>

text \<open>The address space that is copied is not the one that is filled, so that its list does not change under the loop.\<close>

fun dup_loop :: "nat list \<Rightarrow> nat \<Rightarrow> nat \<Rightarrow> (nat \<Rightarrow> nat option) \<Rightarrow> 'a vmst_scheme \<Rightarrow> ((kerr + unit) \<times> 'a vmst_scheme) option" where
  "dup_loop [] to from new s = Some (Inr (), s)"
| "dup_loop (v # vs) to from new s =
     (case vma_create (vm_start (vmas s v)) (vm_end (vmas s v)) (vm_flags (vmas s v)) (new v) s of
        (None, s1) \<Rightarrow> Some (Inl E_NO_MEM, s1)
      | (Some w, s1) \<Rightarrow> do {
          let vma = vmas s1 v;
          let share = has (vm_flags vma) VM_SHARE;
          let s2 = (if share
                    then shmem_ref_inc (vm_shmem vma)
                           (upd_vma w (\<lambda>a. a\<lparr>vm_shmem := vm_shmem vma, vm_shmem_off := vm_shmem_off vma\<rparr>) s1)
                    else s1);
          s3 \<leftarrow> insert_vma_struct to w s2;
          (ret, s4) \<leftarrow> on_mem (copy_range (page_dir (mms s3 to)) (page_dir (mms s3 from)) (vm_start vma) (vm_end vma) share) s3;
          case ret of
            Inl e \<Rightarrow> Some (Inl E_NO_MEM, s4)
          | Inr _ \<Rightarrow> dup_loop vs to from new s4
        })"

definition dup_mmap :: "nat \<Rightarrow> nat \<Rightarrow> (nat \<Rightarrow> nat option) \<Rightarrow> 'a vmst_scheme \<Rightarrow> ((kerr + unit) \<times> 'a vmst_scheme) option" where
  "dup_mmap to from new s = do {
     kassert (to \<noteq> 0 \<and> from \<noteq> 0);
     dup_loop (rev (mmap_link (mms s from))) to from new s
   }"

fun each_area :: "(u32 \<Rightarrow> u32 \<Rightarrow> mem \<Rightarrow> mem option) \<Rightarrow> nat list \<Rightarrow> 'a vmst_scheme \<Rightarrow> 'a vmst_scheme option" where
  "each_area f [] s = Some s"
| "each_area f (v # vs) s = do { s1 \<leftarrow> on_memu (f (vm_start (vmas s v)) (vm_end (vmas s v))) s; each_area f vs s1 }"

definition exit_mmap :: "nat \<Rightarrow> 'a vmst_scheme \<Rightarrow> 'a vmst_scheme option" where
  "exit_mmap m s = do {
     kassert (m \<noteq> 0 \<and> mm_count (mms s m) = 0);
     let dir = page_dir (mms s m);
     s1 \<leftarrow> each_area (unmap_range dir) (mmap_link (mms s m)) s;
     each_area (exit_range dir) (mmap_link (mms s1 m)) s1
   }"

section \<open>Locking\<close>

text \<open>Taking a lock that is held gives up the processor until it is released: the caller does not return here.\<close>

definition set_locked :: "nat \<Rightarrow> 'a vmst_scheme \<Rightarrow> 'a vmst_scheme" where
  "set_locked m s = upd_mm m (\<lambda>mm. mm\<lparr>mm_lock := True,
     locked_by := (case current_pid s of None \<Rightarrow> locked_by mm | Some p \<Rightarrow> p)\<rparr>) s"

definition lock_mm :: "nat \<Rightarrow> 'a vmst_scheme \<Rightarrow> 'a vmst_scheme option" where
  "lock_mm m s = (if m = 0 then Some s else do { kassert (\<not> mm_lock (mms s m)); Some (set_locked m s) })"

definition unlock_mm :: "nat \<Rightarrow> 'a vmst_scheme \<Rightarrow> 'a vmst_scheme option" where
  "unlock_mm m s =
     (if m = 0 then Some s
      else do { kassert (mm_lock (mms s m)); Some (upd_mm m (\<lambda>mm. mm\<lparr>mm_lock := False, locked_by := 0\<rparr>) s) })"

definition try_lock_mm :: "nat \<Rightarrow> 'a vmst_scheme \<Rightarrow> bool \<times> 'a vmst_scheme" where
  "try_lock_mm m s = (if m = 0 then (True, s) else if mm_lock (mms s m) then (False, s) else (True, set_locked m s))"

section \<open>Page faults\<close>

definition fault_allowed :: "u32 \<Rightarrow> u32 \<Rightarrow> vma \<Rightarrow> bool" where
  "fault_allowed error_code addr vma =
     (\<not> vm_start vma > addr \<and>
      \<not> (has (vm_flags vma) VM_STACK \<and> addr < vm_start vma + PAGE_SIZE) \<and>
      (let c = error_code AND 3
       in if c = 1 then False
          else if c = 0 then has (vm_flags vma) (VM_READ OR VM_EXEC)
          else has (vm_flags vma) VM_WRITE))"

definition fault_share :: "nat \<Rightarrow> nat \<Rightarrow> u32 \<Rightarrow> u32 \<Rightarrow> nat option \<Rightarrow> 'a vmst_scheme \<Rightarrow> ((kerr + unit) \<times> 'a vmst_scheme) option" where
  "fault_share m v addr perm new s = do {
     let vma = vmas s v;
     s1 \<leftarrow> shmem_lock (vm_shmem vma) s;
     (r, s2) \<leftarrow> shmem_get_entry (vm_shmem vma) (addr - vm_start vma + vm_shmem_off vma) True new s1;
     let s3 = shmem_unlock (vm_shmem vma) s2;
     case r of
       None \<Rightarrow> Some (Inl E_NO_MEM, s3)
     | Some x \<Rightarrow>
         if rd (memory s2) x = 0 then Some (Inl E_NO_MEM, s3)
         else if has (rd (memory s3) x) PTE_P then do {
           page \<leftarrow> pte2page (rd (memory s3) x) (memory s3);
           (_, s4) \<leftarrow> on_mem (page_insert (page_dir (mms s3 m)) page addr perm) s3;
           Some (Inr (), s4)
         }
         else do {
           (ret, s4) \<leftarrow> on_mem (swap_in_page (rd (memory s3) x)) s3;
           case ret of
             Inl e \<Rightarrow> Some (Inl e, s4)
           | Inr page \<Rightarrow> do {
               (_, s5) \<leftarrow> on_mem (page_insert (page_dir (mms s4 m)) page addr perm) s4;
               Some (Inr (), s5)
             }
         }
   }"

text \<open>The last part of a fault on a page: insert the page, give back the swap entry and the page that was not used.\<close>

definition fault_insert :: "nat \<Rightarrow> nat \<Rightarrow> u32 \<Rightarrow> u32 \<Rightarrow> u32 option \<Rightarrow> nat option \<Rightarrow> mem \<Rightarrow> mem option" where
  "fault_insert pgdir page addr perm swap_entry new_page s = do {
     (_, s1) \<leftarrow> page_insert pgdir page addr perm s;
     s2 \<leftarrow> (case swap_entry of None \<Rightarrow> Some s1 | Some e \<Rightarrow> swap_decrease e s1);
     case new_page of None \<Rightarrow> Some s2 | Some p \<Rightarrow> free_page p s2
   }"

text \<open>
  A fault on an entry that is not zero.  \<open>ret\<close> keeps the value the C variable has: it is 0 once a page was
  swapped in, which is also what is returned when there is then no page for the copy.
\<close>

definition fault_present :: "nat \<Rightarrow> u32 \<Rightarrow> u32 \<Rightarrow> u32 \<Rightarrow> u32 \<Rightarrow> ptep \<Rightarrow> mem \<Rightarrow> ((kerr + unit) \<times> mem) option" where
  "fault_present pgdir flags error_code addr perm x s = do {
     let cow = ((flags AND (VM_SHARE OR VM_WRITE)) = VM_WRITE);
     kassert (\<not> has (rd s x) PTE_P \<or> (has error_code 2 \<and> \<not> has (rd s x) PTE_W \<and> cow));
     (new_page, s1) \<leftarrow> (if cow then alloc_page s else Some (None, s));
     (ret, dec, s2) \<leftarrow>
       (if has (rd s1 x) PTE_P then do { p \<leftarrow> pte2page (rd s1 x) s1; Some (Inr p, False, s1) }
        else do { (r, s') \<leftarrow> swap_in_page (rd s1 x) s1; Some (r, True, s') });
     case ret of
       Inl e \<Rightarrow> do {
         s3 \<leftarrow> (case new_page of None \<Rightarrow> Some s2 | Some p \<Rightarrow> free_page p s2);
         Some (Inl e, s3)
       }
     | Inr page \<Rightarrow> do {
         let swap_entry = (if dec then Some (pg_index (pg s2 page)) else None);
         let readonly = (dec \<and> \<not> has error_code 2 \<and> cow);
         let perm = (if readonly then perm AND NOT PTE_W else perm);
         n \<leftarrow> (if cow \<and> \<not> readonly then do { c \<leftarrow> swap_page_count page s2; Some (pg_ref (pg s2 page) + int c) } else Some 0);
         if n > 1 then
           (case new_page of
              None \<Rightarrow> Some (if dec then Inr () else Inl E_NO_MEM, s2)
            | Some np \<Rightarrow> do {
                fn \<leftarrow> KVADDR (page2pa np) s2;
                fp \<leftarrow> KVADDR (page2pa page) s2;
                s3 \<leftarrow> fault_insert pgdir np addr perm swap_entry None (set_frame fn (frames s2 fp) s2);
                Some (Inr (), s3)
              })
         else do {
           s3 \<leftarrow> fault_insert pgdir page addr perm swap_entry new_page s2;
           Some (Inr (), s3)
         }
       }
   }"

definition fault_body :: "nat \<Rightarrow> u32 \<Rightarrow> u32 \<Rightarrow> nat option \<Rightarrow> 'a vmst_scheme \<Rightarrow> ((kerr + unit) \<times> 'a vmst_scheme) option" where
  "fault_body m error_code addr new s = do {
     (r, s1) \<leftarrow> find_vma m addr s;
     case r of
       None \<Rightarrow> Some (Inl E_INVAL, s1)
     | Some v \<Rightarrow>
         if \<not> fault_allowed error_code addr (vmas s1 v) then Some (Inl E_INVAL, s1)
         else do {
           let flags = vm_flags (vmas s1 v);
           let perm = (if has flags VM_WRITE then PTE_U OR PTE_W else PTE_U);
           let addr = ROUNDDOWN addr PAGE_SIZE;
           (ptep, s2) \<leftarrow> on_mem (get_pte (page_dir (mms s1 m)) addr True) s1;
           case ptep of
             None \<Rightarrow> Some (Inl E_NO_MEM, s2)
           | Some x \<Rightarrow>
               if rd (memory s2) x \<noteq> 0 then on_mem (fault_present (page_dir (mms s2 m)) flags error_code addr perm x) s2
               else if has flags VM_SHARE then fault_share m v addr perm new s2
               else do {
                 (p, s3) \<leftarrow> on_mem (page_dir_alloc_page (page_dir (mms s2 m)) addr perm) s2;
                 Some (case p of None \<Rightarrow> Inl E_NO_MEM | Some _ \<Rightarrow> Inr (), s3)
               }
         }
   }"

definition do_page_fault :: "nat \<Rightarrow> u32 \<Rightarrow> u32 \<Rightarrow> nat option \<Rightarrow> 'a vmst_scheme \<Rightarrow> ((kerr + unit) \<times> 'a vmst_scheme) option" where
  "do_page_fault m error_code addr new s = do {
     kassert (m \<noteq> 0);
     (need_unlock, s1) \<leftarrow>
       (case try_lock_mm m s of
          (True, s') \<Rightarrow> Some (True, s')
        | (False, s') \<Rightarrow>
            if current_pid s' = Some (locked_by (mms s' m)) then Some (False, s')
            else do { s'' \<leftarrow> lock_mm m s'; Some (True, s'') });
     (ret, s2) \<leftarrow> fault_body m error_code addr new s1;
     s3 \<leftarrow> (if need_unlock then unlock_mm m s2 else Some s2);
     Some (ret, s3)
   }"

end
