(* ===== verification/Areas.thy ===== *)
theory Areas
  imports Vmm
begin

text \<open>
  Correctness of the address space operations.  An address space is consistent (\<open>mm_ok\<close>) when its list is in address
  order without overlaps, the tree is empty or holds exactly the areas of the list, the cache is one of them and the
  count is their number.  What it means is a map from addresses to flags and shared memory (\<open>vm_at\<close>), and every operation is
  an update of that map.
\<close>

definition area_list :: "(nat \<Rightarrow> vma) \<Rightarrow> nat list \<Rightarrow> bool" where
  "area_list vs l = (sorted_wrt (\<lambda>v w. vm_end (vs v) \<le> vm_start (vs w)) l \<and> (\<forall>v\<in>set l. vm_start (vs v) < vm_end (vs v)))"

definition mm_ok :: "(nat \<Rightarrow> vma) \<Rightarrow> nat \<Rightarrow> mm_struct \<Rightarrow> bool" where
  "mm_ok vs m mm = (m \<noteq> 0 \<and> m \<notin> set (mmap_link mm) \<and> area_list vs (mmap_link mm) \<and>
     (\<forall>v\<in>set (mmap_link mm). vm_mm (vs v) = m) \<and> map_count mm = int (length (mmap_link mm)) \<and>
     rb_nil (mmap_tree mm) = m \<and> (rb_rep (mmap_tree mm) [] \<or> rb_rep (mmap_tree mm) (mmap_link mm)) \<and>
     (case mmap_cache mm of None \<Rightarrow> True | Some v \<Rightarrow> v \<in> set (mmap_link mm)))"

lemma area_list_simps [simp]:
  "area_list vs []"
  "area_list vs (v # l) = (vm_start (vs v) < vm_end (vs v) \<and> (\<forall>w\<in>set l. vm_end (vs v) \<le> vm_start (vs w)) \<and> area_list vs l)"
  by (auto simp: area_list_def)

lemma area_list_append [simp]:
  "area_list vs (l @ r) = (area_list vs l \<and> area_list vs r \<and> (\<forall>v\<in>set l. \<forall>w\<in>set r. vm_end (vs v) \<le> vm_start (vs w)))"
  by (auto simp: area_list_def sorted_wrt_append)

lemma area_list_cong: "(\<And>v. v \<in> set l \<Longrightarrow> vm_start (vs' v) = vm_start (vs v) \<and> vm_end (vs' v) = vm_end (vs v)) \<Longrightarrow>
    area_list vs' l = area_list vs l"
  by (induction l) auto

lemma area_list_distinct: "area_list vs l \<Longrightarrow> distinct l"
  by (induction l) force+

lemma area_list_sorted: "area_list vs l \<Longrightarrow> sorted (map (\<lambda>v. vm_start (vs v)) l)"
  by (induction l) force+

section \<open>Searching\<close>

abbreviation first_above :: "(nat \<Rightarrow> vma) \<Rightarrow> u32 \<Rightarrow> nat list \<Rightarrow> nat option" where
  "first_above vs a l \<equiv> find (\<lambda>v. a < vm_end (vs v)) l"

lemma find_append: "find P (xs @ ys) = (case find P xs of None \<Rightarrow> find P ys | Some x \<Rightarrow> Some x)"
  by (induction xs) auto

lemma find_none: "(find P xs = None) = (\<forall>x\<in>set xs. \<not> P x)"
  by (auto simp: find_None_iff)

lemma first_above_hit:
  assumes "area_list vs l" "v \<in> set l" "vm_start (vs v) \<le> a" "a < vm_end (vs v)"
  shows "first_above vs a l = Some v"
proof -
  obtain xs ys where l: "l = xs @ v # ys" using assms(2) split_list by metis
  have "\<not> a < vm_end (vs x)" if "x \<in> set xs" for x
    using assms(1,3) that l by force
  then have "first_above vs a xs = None" by (simp add: find_none)
  then show ?thesis using assms(4) by (simp add: l find_append)
qed

lemma find_vma_rb_ok:
  assumes "tree_at tree par t" "area_list vs (inord t)"
  shows "find_vma_rb vs tree a (rt (rb_nil tree) t) acc =
    Some (case first_above vs a (inord t) of None \<Rightarrow> acc | Some v \<Rightarrow> Some v)"
  using assms
proof (induction t arbitrary: par acc)
  case Lf
  then show ?case by (subst find_vma_rb.simps) simp
next
  case (N c l x r)
  have x: "x \<noteq> rb_nil tree" "rb_left tree x = rt (rb_nil tree) l" "rb_right tree x = rt (rb_nil tree) r" using N.prems by simp_all
  have left: "first_above vs a (inord l) = None" if "vm_start (vs x) \<le> a \<or> \<not> a < vm_end (vs x)"
  proof -
    have "\<not> a < vm_end (vs v)" if "v \<in> set (inord l)" for v
      using N.prems(2) that \<open>vm_start (vs x) \<le> a \<or> \<not> a < vm_end (vs x)\<close> by force
    then show ?thesis by (simp add: find_none)
  qed
  show ?case
  proof (cases "a < vm_end (vs x)")
    case True
    show ?thesis
      using N.IH(1) [of x "Some x"] N.prems x True left
      by (subst find_vma_rb.simps) (auto simp: find_append split: option.split)
  next
    case False
    show ?thesis
      using N.IH(2) [of x acc] N.prems x False left
      by (subst find_vma_rb.simps) (auto simp: find_append split: option.split)
  qed
qed

lemma rb_rep_root: "rb_rep t l \<Longrightarrow> (rb_root t = rb_nil t) = (l = [])"
proof -
  assume "rb_rep t l"
  then obtain c where "tree_at t (rb_nil t) c" "rb_root t = rt (rb_nil t) c" "inord c = l" by (auto simp: rb_rep_def cfg_def)
  then show ?thesis using rt_nil_iff [of t "rb_nil t" c] by (cases c) auto
qed

lemma mm_ok_tree:
  assumes "mm_ok vs m mm"
  shows "rb_root (mmap_tree mm) = m \<Longrightarrow> rb_rep (mmap_tree mm) []"
    "rb_root (mmap_tree mm) \<noteq> m \<Longrightarrow> rb_rep (mmap_tree mm) (mmap_link mm)"
  using assms rb_rep_root [of "mmap_tree mm" "mmap_link mm"] rb_rep_root [of "mmap_tree mm" "[]"] by (auto simp: mm_ok_def)

lemma find_vma_run:
  assumes "mm_ok (vmas s) m (mms s m)"
  shows "find_vma m a s = Some (first_above (vmas s) a (mmap_link (mms s m)),
    case first_above (vmas s) a (mmap_link (mms s m)) of None \<Rightarrow> s
    | Some v \<Rightarrow> upd_mm m (\<lambda>mm. mm\<lparr>mmap_cache := Some v\<rparr>) s)"
proof -
  let ?mm = "mms s m" and ?l = "mmap_link (mms s m)"
  have al: "area_list (vmas s) ?l" and m: "m \<noteq> 0" "rb_nil (mmap_tree ?mm) = m" using assms by (simp_all add: mm_ok_def)
  show ?thesis
  proof (cases "case mmap_cache ?mm of None \<Rightarrow> False | Some v \<Rightarrow> vm_start (vmas s v) \<le> a \<and> vm_end (vmas s v) > a")
    case True
    then obtain v where v: "mmap_cache ?mm = Some v" "vm_start (vmas s v) \<le> a" "a < vm_end (vmas s v)" by (auto split: option.splits)
    then have "first_above (vmas s) a ?l = Some v" using first_above_hit [OF al, of v] assms by (simp add: mm_ok_def)
    then show ?thesis using v m by (simp add: find_vma_def)
  next
    case False
    have "(if rb_root (mmap_tree ?mm) \<noteq> rb_nil (mmap_tree ?mm)
        then find_vma_rb (vmas s) (mmap_tree ?mm) a (rb_root (mmap_tree ?mm)) None
        else Some (first_above (vmas s) a ?l)) = Some (first_above (vmas s) a ?l)"
    proof (cases "rb_root (mmap_tree ?mm) = m")
      case False
      then obtain t where "cfg (mmap_tree ?mm) [] t" "inord t = ?l"
        using mm_ok_tree(2) [OF assms] by (auto simp: rb_rep_def)
      then show ?thesis
        using find_vma_rb_ok [of "mmap_tree ?mm" _ t "vmas s" a None] al by (auto simp: cfg_def split: option.splits)
    qed (simp add: m)
    then show ?thesis using False m by (simp add: find_vma_def Let_def)
  qed
qed

lemma first_above_in: "first_above vs a l = Some v \<Longrightarrow> v \<in> set l \<and> a < vm_end (vs v)"
  by (induction l) (auto split: if_splits)

lemma find_vma_mm_ok:
  "mm_ok vs m mm \<Longrightarrow> first_above vs a (mmap_link mm) = Some v \<Longrightarrow> mm_ok vs m (mm\<lparr>mmap_cache := Some v\<rparr>)"
  using first_above_in [of a vs "mmap_link mm" v] by (auto simp: mm_ok_def)

section \<open>Inserting and removing\<close>

lemma vma_compare_less: "(vma_compare vs v w < 0) = (vm_start (vs v) < vm_start (vs w))"
  by (simp add: vma_compare_def)

definition last_opt :: "'b list \<Rightarrow> 'b option" where
  "last_opt xs = (if xs = [] then None else Some (last xs))"

lemma list_add_after_last: "distinct xs \<Longrightarrow> list_add_after_elem (last_opt xs) v (xs @ ys) = xs @ v # ys"
proof (induction xs)
  case (Cons x xs)
  then show ?case by (cases xs) (auto simp: last_opt_def)
qed (simp add: last_opt_def)

lemma link_next_last: "distinct xs \<Longrightarrow> link_next (last_opt xs) (xs @ ys) = list_first ys"
proof (induction xs)
  case (Cons x xs)
  then show ?case
    by (cases xs) (auto simp: last_opt_def link_next_def list_first_def split: list.splits)
qed (simp add: last_opt_def link_next_def)

text \<open>Where an area that fits between two parts of the list goes.\<close>

definition fits :: "(nat \<Rightarrow> vma) \<Rightarrow> nat list \<Rightarrow> nat \<Rightarrow> nat list \<Rightarrow> bool" where
  "fits vs xs v ys = (vm_start (vs v) < vm_end (vs v) \<and> (\<forall>x\<in>set xs. vm_end (vs x) \<le> vm_start (vs v)) \<and>
     (\<forall>y\<in>set ys. vm_end (vs v) \<le> vm_start (vs y)))"

lemma fits_takeWhile:
  assumes "area_list vs (xs @ ys)" "fits vs xs v ys"
  shows "takeWhile (\<lambda>w. vm_start (vs w) \<le> vm_start (vs v)) (xs @ ys) = xs"
    "dropWhile (\<lambda>w. vm_start (vs w) \<le> vm_start (vs v)) (xs @ ys) = ys"
proof -
  have x: "vm_start (vs x) \<le> vm_start (vs v)" if "x \<in> set xs" for x
    using assms that by (force simp: fits_def area_list_def)
  have y: "\<not> vm_start (vs y) \<le> vm_start (vs v)" if "y \<in> set ys" for y
    using assms that by (force simp: fits_def)
  then have "takeWhile (\<lambda>w. vm_start (vs w) \<le> vm_start (vs v)) ys = []" "dropWhile (\<lambda>w. vm_start (vs w) \<le> vm_start (vs v)) ys = ys"
    by (cases ys; simp)+
  then show "takeWhile (\<lambda>w. vm_start (vs w) \<le> vm_start (vs v)) (xs @ ys) = xs"
    "dropWhile (\<lambda>w. vm_start (vs w) \<le> vm_start (vs v)) (xs @ ys) = ys"
    using x by simp_all
qed

lemma insert_vma_rb_ok:
  assumes rep: "rb_rep tree (xs @ ys)" and al: "area_list vs (xs @ ys)" and f: "fits vs xs v ys"
    and v: "v \<notin> set (xs @ ys)" "v \<noteq> rb_nil tree"
  shows "\<exists>tree'. insert_vma_rb vs tree v = Some (tree', last_opt xs) \<and> rb_nil tree' = rb_nil tree \<and> rb_rep tree' (xs @ v # ys)"
proof -
  obtain tree' where t: "rbtree_insert (vma_compare vs) v tree = Some tree'" "rb_nil tree' = rb_nil tree" "rb_rep tree' (xs @ v # ys)"
    using rbt.ins_rep [OF rep v(2,1), of "\<lambda>v. vm_start (vs v)" "vma_compare vs"] area_list_sorted [OF al]
    unfolding fits_takeWhile [OF al f] by (auto simp: vma_compare_less)
  have "xs \<noteq> [] \<Longrightarrow> last xs \<noteq> rb_nil tree'" using rbt.distinct_rep [OF t(3)] last_in_set [of xs] by fastforce
  then show ?thesis using t rbt.pred_rep [OF t(3)] by (auto simp: insert_vma_rb_def last_opt_def)
qed

lemma overlap_checks:
  assumes "area_list vs (xs @ ys)" "fits vs xs v ys"
  shows "(case last_opt xs of None \<Rightarrow> Some () | Some p \<Rightarrow> check_vma_overlap (vs p) (vs v)) = Some ()"
    "(case list_first ys of None \<Rightarrow> Some () | Some n \<Rightarrow> check_vma_overlap (vs v) (vs n)) = Some ()"
proof -
  have "xs \<noteq> [] \<Longrightarrow> vm_start (vs (last xs)) < vm_end (vs (last xs)) \<and> vm_end (vs (last xs)) \<le> vm_start (vs v)"
    using assms last_in_set [of xs] by (auto simp: area_list_def fits_def)
  then show "(case last_opt xs of None \<Rightarrow> Some () | Some p \<Rightarrow> check_vma_overlap (vs p) (vs v)) = Some ()"
    using assms(2) by (auto simp: last_opt_def check_vma_overlap_def fits_def)
  show "(case list_first ys of None \<Rightarrow> Some () | Some n \<Rightarrow> check_vma_overlap (vs v) (vs n)) = Some ()"
    using assms by (cases ys) (auto simp: list_first_def check_vma_overlap_def fits_def)
qed

definition linked :: "nat \<Rightarrow> nat list \<Rightarrow> rbtree \<Rightarrow> bool" where
  "linked m l tree = (rb_nil tree = m \<and> (rb_rep tree [] \<or> rb_rep tree l))"

lemma insert_vma_struct_ok:
  assumes ok: "mm_ok (vmas s) m (mms s m)" and l: "mmap_link (mms s m) = xs @ ys"
    and f: "fits (vmas s) xs v ys" and v: "v \<notin> set (xs @ ys)" "v \<noteq> m"
  shows "\<exists>tree. insert_vma_struct m v s =
      Some (upd_mm m (\<lambda>mm. mm\<lparr>mmap_link := xs @ v # ys, mmap_tree := tree, map_count := map_count (mms s m) + 1\<rparr>)
        (upd_vma v (\<lambda>vma. vma\<lparr>vm_mm := m\<rparr>) s)) \<and> linked m (xs @ v # ys) tree"
proof -
  let ?mm = "mms s m" and ?t = "mmap_tree (mms s m)"
  have al: "area_list (vmas s) (xs @ ys)" and nil: "rb_nil ?t = m" using ok l by (simp_all add: mm_ok_def)
  have al': "area_list (vmas s) (xs @ v # ys)" using al f by (auto simp: fits_def)
  have d: "distinct xs" using area_list_distinct [OF al] by simp
  have st: "vm_start (vmas s v) < vm_end (vmas s v)" using f by (simp add: fits_def)
  note run = insert_vma_struct_def Let_def l list_add_after_last [OF d] link_next_last [OF d] overlap_checks [OF al f] nil st
  show ?thesis
  proof (cases "rb_root ?t = m")
    case False
    then obtain tree where t: "insert_vma_rb (vmas s) ?t v = Some (tree, last_opt xs)" "rb_nil tree = m" "rb_rep tree (xs @ v # ys)"
      using insert_vma_rb_ok [of ?t xs ys "vmas s" v] mm_ok_tree(2) [OF ok] l al f v nil by auto
    then have "rb_root tree \<noteq> m" using rb_rep_root [OF t(3)] by simp
    then show ?thesis using False t by (intro exI [of _ tree]) (simp add: run linked_def)
  next
    case True
    have tw: "takeWhile (\<lambda>w. \<not> vm_start (vmas s v) < vm_start (vmas s w)) (xs @ ys) = xs"
      using fits_takeWhile(1) [OF al f] by (simp add: not_less)
    have rep: "rb_rep ?t []" using mm_ok_tree(1) [OF ok True] .
    obtain t where t: "insert_each (rbtree_insert (vma_compare (vmas s))) (xs @ v # ys) ?t = Some t" "rb_nil t = m"
        "rb_rep t (xs @ v # ys)"
      using rbt.insert_each_sorted [OF rep, of "xs @ v # ys" "\<lambda>v. vm_start (vmas s v)" "vma_compare (vmas s)"]
        area_list_distinct [OF al'] area_list_sorted [OF al'] v nil ok l by (auto simp: vma_compare_less mm_ok_def)
    show ?thesis
      by (intro exI [of _ "if map_count ?mm + 1 \<ge> RB_MIN_MAP_COUNT then t else ?t"])
        (use True t rep in \<open>simp add: run tw last_opt_def [symmetric] linked_def\<close>)
  qed
qed

lemma mm_ok_insert:
  assumes "mm_ok vs m mm" "mmap_link mm = xs @ ys" "fits vs xs v ys" "v \<noteq> m" "linked m (xs @ v # ys) tree"
    "vs' = vs(v := (vs v)\<lparr>vm_mm := m\<rparr>)" "v \<notin> set (xs @ ys)"
  shows "mm_ok vs' m (mm\<lparr>mmap_link := xs @ v # ys, mmap_tree := tree, map_count := map_count mm + 1\<rparr>)"
proof -
  have "area_list vs (xs @ v # ys)" using assms(1-3) by (auto simp: mm_ok_def fits_def)
  then have "area_list vs' (xs @ v # ys)" using area_list_cong [of "xs @ v # ys" vs' vs] assms(6) by simp
  then show ?thesis using assms by (auto simp: mm_ok_def linked_def split: option.splits)
qed

lemma remove_vma_struct_ok:
  assumes ok: "mm_ok (vmas s) m (mms s m)" and l: "mmap_link (mms s m) = xs @ v # ys"
  shows "\<exists>tree. remove_vma_struct m v s = Some (upd_mm m (\<lambda>mm. mm\<lparr>mmap_tree := tree, mmap_link := xs @ ys,
      mmap_cache := (if mmap_cache mm = Some v then None else mmap_cache mm), map_count := map_count mm - 1\<rparr>) s) \<and>
    linked m (xs @ ys) tree"
proof -
  let ?t = "mmap_tree (mms s m)"
  have nil: "rb_nil ?t = m" and vm: "vm_mm (vmas s v) = m" and al: "area_list (vmas s) (xs @ v # ys)"
    using ok l by (auto simp: mm_ok_def)
  have "v \<notin> set xs" using area_list_distinct [OF al] by simp
  then have r: "remove1 v (mmap_link (mms s m)) = xs @ ys" by (simp add: l remove1_append)
  show ?thesis
  proof (cases "rb_root ?t = m")
    case True
    then show ?thesis using mm_ok_tree(1) [OF ok True] nil vm r
      by (intro exI [of _ ?t]) (simp add: remove_vma_struct_def linked_def upd_mm_def Let_def)
  next
    case False
    then obtain t where "rbtree_delete v ?t = Some t" "rb_nil t = m" "rb_rep t (xs @ ys)"
      using rbt.del_rep [OF mm_ok_tree(2) [OF ok False], of v] l r nil by auto
    then show ?thesis using False nil vm r
      by (intro exI [of _ t]) (simp add: remove_vma_struct_def linked_def upd_mm_def Let_def)
  qed
qed

lemma mm_ok_remove:
  assumes "mm_ok vs m mm" "mmap_link mm = xs @ v # ys" "linked m (xs @ ys) tree"
  shows "mm_ok vs m (mm\<lparr>mmap_tree := tree, mmap_link := xs @ ys,
      mmap_cache := (if mmap_cache mm = Some v then None else mmap_cache mm), map_count := map_count mm - 1\<rparr>)"
  using assms by (auto simp: mm_ok_def linked_def split: option.splits)

section \<open>What an address space means\<close>

definition covers :: "vma \<Rightarrow> u32 \<Rightarrow> bool" where
  "covers vma a = (vm_start vma \<le> a \<and> a < vm_end vma)"

definition backing :: "vma \<Rightarrow> u32 \<Rightarrow> u32 \<times> (nat \<times> u32) option" where
  "backing vma a = (vm_flags vma, if has (vm_flags vma) VM_SHARE then Some (vm_shmem vma, a - vm_start vma + vm_shmem_off vma) else None)"

definition area_at :: "(nat \<Rightarrow> vma) \<Rightarrow> nat list \<Rightarrow> u32 \<Rightarrow> (u32 \<times> (nat \<times> u32) option) option" where
  "area_at vs l a = map_option (\<lambda>v. backing (vs v) a) (find (\<lambda>v. covers (vs v) a) l)"

definition vm_at :: "'a vmst_scheme \<Rightarrow> nat \<Rightarrow> u32 \<Rightarrow> (u32 \<times> (nat \<times> u32) option) option" where
  "vm_at s m = area_at (vmas s) (mmap_link (mms s m))"

lemma covers_unique:
  "area_list vs l \<Longrightarrow> v \<in> set l \<Longrightarrow> w \<in> set l \<Longrightarrow> covers (vs v) a \<Longrightarrow> covers (vs w) a \<Longrightarrow> v = w"
  using first_above_hit [of vs l v a] first_above_hit [of vs l w a] by (simp add: covers_def)

lemma area_at_Some:
  assumes "area_list vs l"
  shows "(area_at vs l a = Some b) = (\<exists>v\<in>set l. covers (vs v) a \<and> b = backing (vs v) a)"
proof (cases "find (\<lambda>v. covers (vs v) a) l")
  case None
  then have "area_at vs l a = None" "\<forall>v\<in>set l. \<not> covers (vs v) a" by (simp_all add: area_at_def find_none)
  then show ?thesis by auto
next
  case (Some v)
  then have "v \<in> set l" "covers (vs v) a" by (auto simp: find_Some_iff)
  then show ?thesis using Some covers_unique [OF assms] by (fastforce simp: area_at_def)
qed

lemma area_at_None: "(area_at vs l a = None) = (\<forall>v\<in>set l. \<not> covers (vs v) a)"
  by (simp add: area_at_def find_none)

lemma area_at_cong: "(\<And>v. v \<in> set l \<Longrightarrow> vs' v = vs v) \<Longrightarrow> area_at vs' l = area_at vs l"
proof
  fix a
  assume "\<And>v. v \<in> set l \<Longrightarrow> vs' v = vs v"
  then have "find (\<lambda>v. covers (vs' v) a) l = find (\<lambda>v. covers (vs v) a) l" "\<And>v. v \<in> set l \<Longrightarrow> backing (vs' v) a = backing (vs v) a"
    by (auto intro: find_cong)
  moreover have "v \<in> set l" if "find (\<lambda>v. covers (vs v) a) l = Some v" for v using that by (auto simp: find_Some_iff)
  ultimately show "area_at vs' l a = area_at vs l a"
    by (cases "find (\<lambda>v. covers (vs v) a) l") (auto simp: area_at_def)
qed

lemma area_at_eqI:
  assumes "area_list vs l" "area_list vs' l'"
    "\<And>v. v \<in> set l \<Longrightarrow> covers (vs v) a \<Longrightarrow> \<exists>w\<in>set l'. covers (vs' w) a \<and> backing (vs' w) a = backing (vs v) a"
    "\<And>w. w \<in> set l' \<Longrightarrow> covers (vs' w) a \<Longrightarrow> \<exists>v\<in>set l. covers (vs v) a"
  shows "area_at vs' l' a = area_at vs l a"
proof (cases "area_at vs l a")
  case None
  then have "\<forall>v\<in>set l. \<not> covers (vs v) a" by (simp add: area_at_None)
  then have "area_at vs' l' a = None" using assms(4) by (auto simp: area_at_None)
  then show ?thesis using None by simp
next
  case (Some b)
  then obtain v where "v \<in> set l" "covers (vs v) a" "b = backing (vs v) a" by (auto simp: area_at_Some [OF assms(1)])
  then have "area_at vs' l' a = Some b" using assms(3) [of v] by (auto simp: area_at_Some [OF assms(2)])
  then show ?thesis using Some by simp
qed

lemma area_at_insert:
  assumes al: "area_list vs (xs @ ys)" "area_list vs' (xs @ v # ys)" and same: "\<And>w. w \<in> set (xs @ ys) \<Longrightarrow> vs' w = vs w"
  shows "area_at vs' (xs @ v # ys) a = (if covers (vs' v) a then Some (backing (vs' v) a) else area_at vs (xs @ ys) a)"
proof (cases "covers (vs' v) a")
  case True
  then show ?thesis using area_at_Some [OF al(2)] by auto
next
  case False
  have "area_at vs' (xs @ v # ys) a = area_at vs (xs @ ys) a"
  proof (rule area_at_eqI [OF al])
    fix w assume "w \<in> set (xs @ ys)" "covers (vs w) a"
    then show "\<exists>w'\<in>set (xs @ v # ys). covers (vs' w') a \<and> backing (vs' w') a = backing (vs w) a"
      using same [of w] by (intro bexI [of _ w]) auto
  next
    fix w assume "w \<in> set (xs @ v # ys)" "covers (vs' w) a"
    then show "\<exists>v\<in>set (xs @ ys). covers (vs v) a" using same [of w] False by auto
  qed
  then show ?thesis using False by simp
qed

definition user_area :: "vma \<Rightarrow> bool" where
  "user_area vma = (USER_ACCESS (vm_start vma) (vm_end vma) \<and> vm_start vma mod PAGE_SIZE = 0 \<and> vm_end vma mod PAGE_SIZE = 0)"

definition mm_inv :: "(nat \<Rightarrow> vma) \<Rightarrow> nat \<Rightarrow> mm_struct \<Rightarrow> bool" where
  "mm_inv vs m mm = (mm_ok vs m mm \<and> (\<forall>v\<in>set (mmap_link mm). user_area (vs v)))"

definition vm_inv :: "nat set \<Rightarrow> 'a vmst_scheme \<Rightarrow> bool" where
  "vm_inv M s = (\<forall>m\<in>M. mm_inv (vmas s) m (mms s m))"

definition fresh :: "nat set \<Rightarrow> 'a vmst_scheme \<Rightarrow> nat \<Rightarrow> bool" where
  "fresh M s v = (v \<noteq> 0 \<and> v \<notin> M \<and> (\<forall>m\<in>M. v \<notin> set (mmap_link (mms s m))))"

text \<open>An operation on one address space that changes its own areas and new ones keeps the others.\<close>

lemma mm_inv_cong:
  assumes "\<And>v. v \<in> set (mmap_link mm) \<Longrightarrow> vs' v = vs v"
  shows "mm_inv vs' m mm = mm_inv vs m mm"
  using assms area_list_cong [of "mmap_link mm" vs' vs] by (simp add: mm_inv_def mm_ok_def)

lemma vm_frame:
  assumes inv: "vm_inv M s" and m: "m \<in> M" and mm: "\<And>m'. m' \<noteq> m \<Longrightarrow> mms s' m' = mms s m'"
    and vs: "\<And>v. v \<notin> A \<Longrightarrow> vm_mm (vmas s v) \<noteq> m \<Longrightarrow> vmas s' v = vmas s v" and A: "\<And>v. v \<in> A \<Longrightarrow> fresh M s v"
    and new: "mm_inv (vmas s') m (mms s' m)"
  shows "vm_inv M s'" "m' \<in> M \<Longrightarrow> m' \<noteq> m \<Longrightarrow> vm_at s' m' a = vm_at s m' a"
proof -
  have same: "vmas s' v = vmas s v" if "m' \<in> M" "m' \<noteq> m" "v \<in> set (mmap_link (mms s m'))" for m' v
  proof -
    have "vm_mm (vmas s v) = m'" using inv that by (auto simp: vm_inv_def mm_inv_def mm_ok_def)
    moreover have "v \<notin> A" using A [of v] that by (auto simp: fresh_def)
    ultimately show ?thesis using vs that by blast
  qed
  show "vm_inv M s'" unfolding vm_inv_def
  proof
    fix m' assume m': "m' \<in> M"
    show "mm_inv (vmas s') m' (mms s' m')"
      using new mm_inv_cong [of "mms s m'" "vmas s'" "vmas s" m'] same [OF m'] inv m' mm [of m']
      by (cases "m' = m") (auto simp: vm_inv_def)
  qed
  show "m' \<in> M \<Longrightarrow> m' \<noteq> m \<Longrightarrow> vm_at s' m' a = vm_at s m' a"
    using area_at_cong [of "mmap_link (mms s m')" "vmas s'" "vmas s"] same mm by (simp add: vm_at_def)
qed

lemma find_vma_vm:
  assumes "vm_inv M s" "m \<in> M"
  shows "\<exists>s'. find_vma m a s = Some (first_above (vmas s) a (mmap_link (mms s m)), s') \<and> vm_inv M s' \<and>
    vmas s' = vmas s \<and> (\<forall>m'. mmap_link (mms s' m') = mmap_link (mms s m') \<and> page_dir (mms s' m') = page_dir (mms s m')) \<and>
    memory s' = memory s \<and> shmems s' = shmems s"
proof (cases "first_above (vmas s) a (mmap_link (mms s m))")
  case None
  then show ?thesis using find_vma_run [of s m a] assms by (simp add: vm_inv_def mm_inv_def)
next
  case (Some v)
  let ?s = "upd_mm m (\<lambda>mm. mm\<lparr>mmap_cache := Some v\<rparr>) s"
  have "vm_inv M ?s"
    using assms find_vma_mm_ok [of "vmas s" m "mms s m" a v] Some by (auto simp: vm_inv_def mm_inv_def upd_mm_def)
  then show ?thesis using find_vma_run [of s m a] assms Some by (simp add: vm_inv_def mm_inv_def upd_mm_def)
qed

section \<open>Mapping\<close>

lemma PAGE_SIZE_unat: "unat PAGE_SIZE = 4096"
  by (simp add: PAGE_SIZE_def)

lemma aligned_unat: "(a mod PAGE_SIZE = 0) = (unat a mod 4096 = 0)"
  by (simp add: word_unat_eq_iff unat_mod PAGE_SIZE_unat)

lemma ROUND_aligned [simp]: "ROUNDDOWN a PAGE_SIZE mod PAGE_SIZE = 0" "ROUNDUP a PAGE_SIZE mod PAGE_SIZE = 0"
  by (simp_all add: ROUNDUP_def aligned_unat unat_ROUNDDOWN_div PAGE_SIZE_unat)

lemma split_at:
  assumes "area_list vs l"
  obtains xs ys where "l = xs @ ys" "\<forall>x\<in>set xs. vm_end (vs x) \<le> a" "\<forall>y\<in>set ys. a < vm_end (vs y)"
    "first_above vs a l = list_first ys"
proof -
  let ?P = "\<lambda>v. \<not> a < vm_end (vs v)"
  have 1: "l = takeWhile ?P l @ dropWhile ?P l" by simp
  have 2: "\<forall>x\<in>set (takeWhile ?P l). vm_end (vs x) \<le> a" by (auto dest: set_takeWhileD)
  have 3: "\<forall>y\<in>set (dropWhile ?P l). a < vm_end (vs y)"
  proof (cases "dropWhile ?P l")
    case Nil
    then show ?thesis unfolding Nil by simp
  next
    case (Cons y ys)
    then have "a < vm_end (vs y)" using hd_dropWhile [of ?P l] by simp
    moreover have "area_list vs (y # ys)" using assms 1 Cons area_list_append [of vs "takeWhile ?P l" "dropWhile ?P l"] by simp
    ultimately have "a < vm_end (vs w)" if "w \<in> set (y # ys)" for w
      using that by (force simp: area_list_def)
    then show ?thesis using Cons by metis
  qed
  have 4: "first_above vs a l = list_first (dropWhile ?P l)"
    by (induction l) (auto simp: list_first_def)
  show ?thesis by (rule that [OF 1 2 3 4])
qed

lemma range_free:
  assumes "area_list vs (xs @ ys)" "\<forall>x\<in>set xs. vm_end (vs x) \<le> a" "\<forall>y\<in>set ys. a < vm_end (vs y)" "a < b"
  shows "(case list_first ys of None \<Rightarrow> False | Some v \<Rightarrow> b > vm_start (vs v)) = (\<exists>c. a \<le> c \<and> c < b \<and> area_at vs (xs @ ys) c \<noteq> None)"
proof (cases ys)
  case Nil
  then show ?thesis using assms(2) by (force simp: list_first_def area_at_None covers_def)
next
  case (Cons y ys')
  have y: "a < vm_end (vs y)" "vm_start (vs y) < vm_end (vs y)" using assms(1,3) Cons by auto
  show ?thesis
  proof
    assume "case list_first ys of None \<Rightarrow> False | Some v \<Rightarrow> b > vm_start (vs v)"
    then have "covers (vs y) (max a (vm_start (vs y))) \<and> a \<le> max a (vm_start (vs y)) \<and> max a (vm_start (vs y)) < b"
      using y assms(4) Cons by (auto simp: covers_def list_first_def max_def)
    then show "\<exists>c. a \<le> c \<and> c < b \<and> area_at vs (xs @ ys) c \<noteq> None"
      using Cons area_at_None [of vs "xs @ ys"] by (intro exI [of _ "max a (vm_start (vs y))"]) auto
  next
    assume "\<exists>c. a \<le> c \<and> c < b \<and> area_at vs (xs @ ys) c \<noteq> None"
    then obtain c w where c: "a \<le> c" "c < b" "w \<in> set (xs @ ys)" "covers (vs w) c" by (auto simp: area_at_None)
    then have "w \<in> set ys" using assms(2) by (force simp: covers_def)
    then have "vm_start (vs y) \<le> vm_start (vs w)" using assms(1) Cons by force
    then show "case list_first ys of None \<Rightarrow> False | Some v \<Rightarrow> b > vm_start (vs v)"
      using Cons c by (auto simp: list_first_def covers_def)
  qed
qed

lemma fits_free:
  assumes "area_list vs (xs @ ys)" "\<forall>x\<in>set xs. vm_end (vs x) \<le> vm_start (vs v)" "vm_start (vs v) < vm_end (vs v)"
    "\<not> (case list_first ys of None \<Rightarrow> False | Some w \<Rightarrow> vm_end (vs v) > vm_start (vs w))"
  shows "fits vs xs v ys"
proof (cases ys)
  case (Cons y ys')
  then have "vm_end (vs v) \<le> vm_start (vs w)" if "w \<in> set ys" for w
    using assms(1,4) that by (force simp: list_first_def)
  then show ?thesis using assms by (simp add: fits_def)
qed (use assms in \<open>simp add: fits_def\<close>)

text \<open>Inserting a new area that fits adds its range to the map.\<close>

lemma insert_vma_vm:
  assumes inv: "vm_inv M s" and m: "m \<in> M" and l: "mmap_link (mms s m) = xs @ ys" and f: "fits (vmas s) xs v ys"
    and v: "fresh M s v \<or> (v \<noteq> m \<and> v \<notin> set (xs @ ys) \<and> vm_mm (vmas s v) = m)" and u: "user_area (vmas s v)"
  shows "\<exists>s'. insert_vma_struct m v s = Some s' \<and> vm_inv M s' \<and> mmap_link (mms s' m) = xs @ v # ys \<and>
    vmas s' = (vmas s)(v := (vmas s v)\<lparr>vm_mm := m\<rparr>) \<and> memory s' = memory s \<and> shmems s' = shmems s \<and>
    (\<forall>m'. page_dir (mms s' m') = page_dir (mms s m') \<and> (m' \<noteq> m \<longrightarrow> mms s' m' = mms s m')) \<and>
    (\<forall>m'\<in>M. \<forall>a. vm_at s' m' a = (if m' = m \<and> covers (vmas s v) a then Some (backing (vmas s v) a) else vm_at s m' a))"
proof -
  have ok: "mm_ok (vmas s) m (mms s m)" and ua: "\<forall>w\<in>set (xs @ ys). user_area (vmas s w)"
    using inv m l by (auto simp: vm_inv_def mm_inv_def)
  have vm: "v \<noteq> m" "v \<notin> set (xs @ ys)" using v m l by (auto simp: fresh_def)
  obtain s' tree where s': "insert_vma_struct m v s = Some s'" "memory s' = memory s" "shmems s' = shmems s"
    and vs: "vmas s' = (vmas s)(v := (vmas s v)\<lparr>vm_mm := m\<rparr>)"
    and mm: "mms s' m = (mms s m)\<lparr>mmap_link := xs @ v # ys, mmap_tree := tree, map_count := map_count (mms s m) + 1\<rparr>"
    and others: "\<And>m'. m' \<noteq> m \<Longrightarrow> mms s' m' = mms s m'" and t: "linked m (xs @ v # ys) tree"
    using insert_vma_struct_ok [OF ok l f vm(2,1)] by (auto simp: upd_mm_def upd_vma_def)
  have ok': "mm_inv (vmas s') m (mms s' m)"
    unfolding mm_inv_def
    using mm_ok_insert [OF ok l f vm(1) t vs vm(2)] ua u unfolding mm by (auto simp: vs user_area_def)
  have "\<And>w. w \<notin> (if fresh M s v then {v} else {}) \<Longrightarrow> vm_mm (vmas s w) \<noteq> m \<Longrightarrow> vmas s' w = vmas s w"
    using v vs by (auto split: if_splits)
  then have fr: "vm_inv M s'" "\<And>m' a. m' \<in> M \<Longrightarrow> m' \<noteq> m \<Longrightarrow> vm_at s' m' a = vm_at s m' a"
    using vm_frame [OF inv m others _ _ ok'] by (metis empty_iff singletonD)+
  have al: "area_list (vmas s) (xs @ ys)" "area_list (vmas s') (xs @ v # ys)" using ok ok' l mm by (simp_all add: mm_inv_def mm_ok_def)
  have own: "vm_at s' m a = (if covers (vmas s v) a then Some (backing (vmas s v) a) else vm_at s m a)" for a
  proof -
    have "covers (vmas s' v) a = covers (vmas s v) a" "backing (vmas s' v) a = backing (vmas s v) a"
      by (simp_all add: vs covers_def backing_def)
    moreover have "\<And>w. w \<in> set (xs @ ys) \<Longrightarrow> vmas s' w = vmas s w" using vm by (auto simp: vs)
    ultimately show ?thesis using area_at_insert [OF al, of a] mm l by (simp add: vm_at_def)
  qed
  have pd: "page_dir (mms s' m') = page_dir (mms s m')" for m' using others [of m'] mm by (cases "m' = m") simp_all
  have at: "\<forall>m'\<in>M. \<forall>a. vm_at s' m' a = (if m' = m \<and> covers (vmas s v) a then Some (backing (vmas s v) a) else vm_at s m' a)"
    using fr(2) own by metis
  show ?thesis using s' fr(1) mm vs others pd at by (intro exI [of _ s']) simp
qed

lemma vma_create_vm:
  assumes inv: "vm_inv M s" and v: "fresh M s v"
    and s'_def: "s' = upd_vma v (\<lambda>vma. vma\<lparr>vm_start := a, vm_end := b, vm_flags := f\<rparr>) s"
  shows "vm_inv M s'" "fresh M s' v" "m \<in> M \<Longrightarrow> vm_at s' m = vm_at s m" "mms s' = mms s" "memory s' = memory s" "shmems s' = shmems s"
    "vm_start (vmas s' v) = a" "vm_end (vmas s' v) = b" "vm_flags (vmas s' v) = f" "w \<noteq> v \<Longrightarrow> vmas s' w = vmas s w"
proof -
  have same: "vmas s' w = vmas s w" if "w \<noteq> v" for w using that by (simp add: s'_def upd_vma_def)
  show mms: "mms s' = mms s" by (simp add: s'_def upd_vma_def)
  show "vm_inv M s'" using inv v mms mm_inv_cong [of _ "vmas s'" "vmas s"] same unfolding vm_inv_def fresh_def by metis
  show "fresh M s' v" using v mms by (simp add: fresh_def)
  show "vm_at s' m = vm_at s m" if "m \<in> M"
    using area_at_cong [of "mmap_link (mms s m)" "vmas s'" "vmas s"] same v that mms unfolding vm_at_def fresh_def by metis
  show "w \<noteq> v \<Longrightarrow> vmas s' w = vmas s w" by (rule same)
qed (simp_all add: s'_def upd_vma_def)

lemma vm_at_cong:
  "vmas s' = vmas s \<Longrightarrow> mmap_link (mms s' m) = mmap_link (mms s m) \<Longrightarrow> vm_at s' m = vm_at s m"
  by (simp add: vm_at_def)

text \<open>Creating an area for a free user range and inserting it.\<close>

lemma create_insert:
  assumes inv: "vm_inv M s" and m: "m \<in> M" and v: "fresh M s v" and u: "USER_ACCESS a b" "a mod PAGE_SIZE = 0" "b mod PAGE_SIZE = 0"
    and free: "\<not> (case first_above (vmas s) a (mmap_link (mms s m)) of None \<Rightarrow> False | Some w \<Rightarrow> b > vm_start (vmas s w))"
    and f: "\<not> has f VM_SHARE"
  shows "\<exists>s1 s'. vma_create a b f (Some v) s = (Some v, s1) \<and> insert_vma_struct m v s1 = Some s' \<and> vm_inv M s' \<and>
    memory s' = memory s \<and> (\<forall>m'. page_dir (mms s' m') = page_dir (mms s m')) \<and>
    (\<forall>m'\<in>M. \<forall>c. vm_at s' m' c = (if m' = m \<and> a \<le> c \<and> c < b then Some (f, None) else vm_at s m' c))"
proof -
  have al: "area_list (vmas s) (mmap_link (mms s m))" using inv m by (simp add: vm_inv_def mm_inv_def mm_ok_def)
  obtain xs ys where l: "mmap_link (mms s m) = xs @ ys" "\<forall>x\<in>set xs. vm_end (vmas s x) \<le> a" "\<forall>y\<in>set ys. a < vm_end (vmas s y)"
    "first_above (vmas s) a (mmap_link (mms s m)) = list_first ys" using split_at [OF al] .
  let ?s = "upd_vma v (\<lambda>vma. vma\<lparr>vm_start := a, vm_end := b, vm_flags := f\<rparr>) s"
  note c = vma_create_vm [OF inv v refl [of ?s]]
  have vn: "v \<notin> set (xs @ ys)" using v m l(1) by (auto simp: fresh_def)
  have same: "vmas ?s w = vmas s w" if "w \<in> set (xs @ ys)" for w using c(10) [of w] vn that by metis
  have fit: "fits (vmas ?s) xs v ys"
  proof (rule fits_free)
    show "area_list (vmas ?s) (xs @ ys)" using area_list_cong [of "xs @ ys" "vmas ?s" "vmas s"] same al l(1) by simp
    show "\<forall>x\<in>set xs. vm_end (vmas ?s x) \<le> vm_start (vmas ?s v)" using same l(2) c(7) by simp
    show "vm_start (vmas ?s v) < vm_end (vmas ?s v)" using c(7,8) u by (simp add: USER_ACCESS_def)
    show "\<not> (case list_first ys of None \<Rightarrow> False | Some w \<Rightarrow> vm_end (vmas ?s v) > vm_start (vmas ?s w))"
      using free same unfolding l(4) c(8) by (cases ys) (auto simp: list_first_def)
  qed
  have ua: "user_area (vmas ?s v)" using u c(7,8) by (simp add: user_area_def)
  have l': "mmap_link (mms ?s m) = xs @ ys" using c(4) l(1) by simp
  obtain s' where s': "insert_vma_struct m v ?s = Some s'" "vm_inv M s'" "memory s' = memory ?s"
      "\<forall>m'. page_dir (mms s' m') = page_dir (mms ?s m')"
      "\<forall>m'\<in>M. \<forall>c. vm_at s' m' c = (if m' = m \<and> covers (vmas ?s v) c then Some (backing (vmas ?s v) c) else vm_at ?s m' c)"
    using insert_vma_vm [OF c(1) m l' fit _ ua] c(2) by blast
  have b: "backing (vmas ?s v) c = (f, None)" "covers (vmas ?s v) c = (a \<le> c \<and> c < b)" for c
    using f c(7,8,9) by (simp_all add: backing_def covers_def)
  have cr: "vma_create a b f (Some v) s = (Some v, ?s)" by (simp add: vma_create_def)
  show ?thesis
    by (intro exI [of _ ?s] exI [of _ s'] conjI cr s'(1,2)) (use s'(3-5) b c(3,4,5) in simp_all)
qed

lemma no_share: "\<not> has (f AND NOT VM_SHARE) VM_SHARE"
  by (simp add: has_def and.assoc)

text \<open>C6: Mapping a range of user addresses into an address space succeeds exactly when the page-aligned range is a user
  range in which nothing is mapped; then every address of the range has the flags asked for, without the
  sharing flag, and every other address of every address space is as before.  Otherwise the call is refused and no mapping changes.  The
  list, the tree, the cache and the count stay consistent in both cases.\<close>

theorem mm_map_exact:
  fixes addr len :: u32
  assumes "vm_inv M s" "m \<in> M" "fresh M s v"
  defines "a \<equiv> ROUNDDOWN addr PAGE_SIZE" and "b \<equiv> ROUNDUP (addr + len) PAGE_SIZE"
  shows "\<exists>r s'. mm_map m addr len flags (Some v) s = Some (r, s') \<and> vm_inv M s' \<and> memory s' = memory s \<and>
    (if USER_ACCESS a b \<and> (\<forall>c. a \<le> c \<and> c < b \<longrightarrow> vm_at s m c = None)
     then r = Inr v \<and> (\<forall>m'\<in>M. \<forall>c. vm_at s' m' c = (if m' = m \<and> a \<le> c \<and> c < b then Some (flags AND NOT VM_SHARE, None) else vm_at s m' c))
     else r = Inl E_INVAL \<and> (\<forall>m'\<in>M. vm_at s' m' = vm_at s m'))"
proof (cases "USER_ACCESS a b")
  case False
  then show ?thesis using assms(1) unfolding mm_map_def a_def b_def by (simp add: Let_def)
next
  case True
  have al: "area_list (vmas s) (mmap_link (mms s m))" and m0: "m \<noteq> 0" using assms(1,2) by (simp_all add: vm_inv_def mm_inv_def mm_ok_def)
  have ab: "a < b" "a mod PAGE_SIZE = 0" "b mod PAGE_SIZE = 0" using True by (simp_all add: USER_ACCESS_def a_def b_def)
  let ?r = "first_above (vmas s) a (mmap_link (mms s m))"
  obtain s1 where s1: "find_vma m a s = Some (?r, s1)" "vm_inv M s1" "vmas s1 = vmas s" "memory s1 = memory s"
    "\<forall>m'. mmap_link (mms s1 m') = mmap_link (mms s m')"
    using find_vma_vm [OF assms(1,2), of a] by blast
  have at: "vm_at s1 m' = vm_at s m'" for m' using vm_at_cong [of s1 s m'] s1 by simp
  let ?hit = "case ?r of None \<Rightarrow> False | Some w \<Rightarrow> b > vm_start (vmas s w)"
  have run: "mm_map m addr len flags (Some v) s =
      (if ?hit then Some (Inl E_INVAL, s1)
       else (case vma_create a b (flags AND NOT VM_SHARE) (Some v) s1 of
          (None, s2) \<Rightarrow> Some (Inl E_NO_MEM, s2)
        | (Some v, s2) \<Rightarrow> insert_vma_struct m v s2 \<bind> (\<lambda>s3. Some (Inr v, s3))))"
    using True s1(1) m0 unfolding mm_map_def a_def b_def s1(3) [symmetric] by (simp add: Let_def)
  obtain xs ys where l: "mmap_link (mms s m) = xs @ ys" "\<forall>x\<in>set xs. vm_end (vmas s x) \<le> a" "\<forall>y\<in>set ys. a < vm_end (vmas s y)"
    "?r = list_first ys" using split_at [OF al] .
  have hit: "?hit = (\<exists>c. a \<le> c \<and> c < b \<and> vm_at s m c \<noteq> None)"
    using range_free [of "vmas s" xs ys a b] al l ab(1) unfolding vm_at_def by simp
  show ?thesis
  proof (cases ?hit)
    case True
    then show ?thesis using run s1 hit at by auto
  next
    case False
    have "fresh M s1 v" using assms(3) s1(5) by (simp add: fresh_def)
    moreover have "\<not> (case first_above (vmas s1) a (mmap_link (mms s1 m)) of None \<Rightarrow> False | Some w \<Rightarrow> b > vm_start (vmas s1 w))"
      using False s1(5) unfolding s1(3) by simp
    ultimately obtain s2 s' where "vma_create a b (flags AND NOT VM_SHARE) (Some v) s1 = (Some v, s2)" "insert_vma_struct m v s2 = Some s'"
        "vm_inv M s'" "memory s' = memory s1"
        "\<forall>m'\<in>M. \<forall>c. vm_at s' m' c = (if m' = m \<and> a \<le> c \<and> c < b then Some (flags AND NOT VM_SHARE, None) else vm_at s1 m' c)"
      using create_insert [OF s1(2) assms(2) _ True ab(2,3), of v "flags AND NOT VM_SHARE"] no_share by blast
    moreover have "USER_ACCESS a b \<and> (\<forall>c. a \<le> c \<and> c < b \<longrightarrow> vm_at s m c = None)" using \<open>USER_ACCESS a b\<close> False hit by blast
    ultimately show ?thesis using run False s1(4) at by simp
  qed
qed

section \<open>Finding room\<close>

definition room :: "(nat \<Rightarrow> vma) \<Rightarrow> nat list \<Rightarrow> u32 \<Rightarrow> u32 \<Rightarrow> bool" where
  "room vs l len x = (USER_BASE \<le> x \<and> unat x + unat len \<le> unat USER_TOP \<and>
     (\<forall>v\<in>set l. unat x + unat len \<le> unat (vm_start (vs v)) \<or> unat (vm_end (vs v)) \<le> unat x))"

definition best_room :: "(nat \<Rightarrow> vma) \<Rightarrow> nat list \<Rightarrow> u32 \<Rightarrow> u32 \<Rightarrow> bool" where
  "best_room vs l len r = (if r = 0 then \<forall>x. \<not> room vs l len x else room vs l len r \<and> (\<forall>x. room vs l len x \<longrightarrow> x \<le> r))"

lemma area_scan_ok:
  assumes "area_list vs (l @ zs)" "\<forall>v\<in>set l. user_area (vs v)" "unat st + unat len \<le> unat USER_TOP"
    "\<forall>z\<in>set zs. unat st + unat len \<le> unat (vm_start (vs z))" "\<forall>x. room vs (l @ zs) len x \<longrightarrow> x \<le> st"
  shows "best_room vs (l @ zs) len (area_scan vs len (rev l) st)"
  using assms
proof (induction l arbitrary: zs st rule: rev_induct)
  case Nil
  have "USER_BASE \<le> st \<Longrightarrow> st \<noteq> 0" by (auto simp: USER_BASE_def)
  moreover have "USER_BASE \<le> st" if "room vs zs len x" for x using that Nil(5) by (force simp: room_def)
  ultimately show ?case using Nil by (auto simp: best_room_def room_def)
next
  case (snoc v l)
  have st: "unat (st + len) = unat st + unat len" using snoc.prems(3) unat_add_no_wrap [of st len] by (simp add: USER_TOP_def)
  have ua: "USER_BASE \<le> vm_start (vs v)" "vm_start (vs v) < vm_end (vs v)"
    using snoc.prems(2) by (simp_all add: user_area_def USER_ACCESS_def)
  have al: "area_list vs (l @ v # zs)" using snoc.prems(1) by simp
  have below: "x \<le> st \<Longrightarrow> \<not> vm_end (vs v) \<le> st \<Longrightarrow> room vs (l @ v # zs) len x \<Longrightarrow> unat x + unat len \<le> unat (vm_start (vs v))" for x
    by (auto simp: room_def word_le_nat_alt)
  show ?case
  proof (cases "vm_end (vs v) \<le> st")
    case True
    have "vm_end (vs w) \<le> st" if "w \<in> set l" for w using al that True ua by force
    then have "room vs (l @ v # zs) len st"
      using snoc.prems(3,4) True ua by (auto simp: room_def word_le_nat_alt word_less_nat_alt)
    moreover have "st \<noteq> 0" using True ua by auto
    ultimately show ?thesis using True snoc.prems(5) by (simp add: best_room_def)
  next
    case False
    have z: "\<forall>z\<in>set zs. vm_start (vs v) \<le> vm_start (vs z)" using al ua by force
    show ?thesis
    proof (cases "vm_start (vs v) < st + len")
      case True
      show ?thesis
      proof (cases "vm_start (vs v) \<le> len")
        case True': True
        have "\<not> room vs (l @ v # zs) len x" for x
          using below [of x] False snoc.prems(5) True' by (auto simp: room_def word_le_nat_alt USER_BASE_def)
        then show ?thesis using False True True' by (simp add: best_room_def)
      next
        case False': False
        have d: "unat (vm_start (vs v) - len) + unat len = unat (vm_start (vs v))" using False' by (simp add: unat_sub word_le_nat_alt)
        have "best_room vs (l @ v # zs) len (area_scan vs len (rev l) (vm_start (vs v) - len))"
        proof (rule snoc.IH [OF al])
          show "unat (vm_start (vs v) - len) + unat len \<le> unat USER_TOP"
            using d ua snoc.prems(2) by (simp add: user_area_def USER_ACCESS_def word_less_nat_alt word_le_nat_alt)
          show "\<forall>z\<in>set (v # zs). unat (vm_start (vs v) - len) + unat len \<le> unat (vm_start (vs z))"
            using d z by (simp add: word_le_nat_alt)
          show "\<forall>x. room vs (l @ v # zs) len x \<longrightarrow> x \<le> vm_start (vs v) - len"
            using below False snoc.prems(5) d by (fastforce simp: word_le_nat_alt)
        qed (use snoc.prems(2) in simp)
        then show ?thesis using False True False' by simp
      qed
    next
      case False'': False
      then have "\<forall>z\<in>set (v # zs). unat st + unat len \<le> unat (vm_start (vs z))"
        using st snoc.prems(4) by (simp add: word_le_nat_alt not_less)
      then show ?thesis using snoc.IH [OF al _ snoc.prems(3)] snoc.prems(2,5) False False'' by simp
    qed
  qed
qed

lemma room_vm_at:
  assumes "area_list vs l" "len \<noteq> 0" "unat x + unat len \<le> unat USER_TOP"
  shows "(\<forall>v\<in>set l. unat x + unat len \<le> unat (vm_start (vs v)) \<or> unat (vm_end (vs v)) \<le> unat x) =
    (\<forall>c. x \<le> c \<and> c < x + len \<longrightarrow> area_at vs l c = None)" (is "?L = ?R")
proof
  have e: "unat (x + len) = unat x + unat len" using assms(3) unat_add_no_wrap [of x len] by (simp add: USER_TOP_def)
  show "?L \<Longrightarrow> ?R" using e by (fastforce simp: area_at_None covers_def word_le_nat_alt word_less_nat_alt)
  assume R: ?R
  show ?L
  proof (rule ballI, rule ccontr)
    fix v assume v: "v \<in> set l" "\<not> (unat x + unat len \<le> unat (vm_start (vs v)) \<or> unat (vm_end (vs v)) \<le> unat x)"
    let ?c = "max x (vm_start (vs v))"
    have lt: "vm_start (vs v) < vm_end (vs v)" using assms(1) v(1) by (simp add: area_list_def)
    have "0 < unat len" using assms(2) by (simp add: unat_gt_0)
    then have "x \<le> ?c \<and> ?c < x + len" "covers (vs v) ?c"
      using v(2) e lt by (auto simp: max_def covers_def word_le_nat_alt word_less_nat_alt)
    then show False using R v(1) by (auto simp: area_at_None)
  qed
qed

text \<open>C14: The address chosen for a mapping of a given length is the highest one at which that many bytes fit
  between the user base and the user top without touching a mapped address, and 0 is returned exactly when there is none.\<close>

theorem get_unmapped_area_best:
  assumes "vm_inv M s" "m \<in> M" "len \<noteq> 0" "len \<le> USER_TOP"
  defines "fit \<equiv> \<lambda>x. USER_BASE \<le> x \<and> unat x + unat len \<le> unat USER_TOP \<and> (\<forall>c. x \<le> c \<and> c < x + len \<longrightarrow> vm_at s m c = None)"
  shows "if get_unmapped_area m len s = 0 then \<forall>x. \<not> fit x
    else fit (get_unmapped_area m len s) \<and> (\<forall>x. fit x \<longrightarrow> x \<le> get_unmapped_area m len s)"
proof -
  let ?l = "mmap_link (mms s m)"
  have al: "area_list (vmas s) ?l" and ua: "\<forall>v\<in>set ?l. user_area (vmas s v)"
    using assms(1,2) by (auto simp: vm_inv_def mm_inv_def mm_ok_def)
  have fit: "fit x = room (vmas s) ?l len x" for x
    using room_vm_at [OF al assms(3), of x] unfolding fit_def room_def vm_at_def by blast
  have d: "unat (USER_TOP - len) + unat len = unat USER_TOP" using assms(4) by (simp add: unat_sub word_le_nat_alt)
  have "best_room (vmas s) (?l @ []) len (area_scan (vmas s) len (rev ?l) (USER_TOP - len))"
    by (rule area_scan_ok) (use al ua d in \<open>auto simp: room_def word_le_nat_alt\<close>)
  moreover have "get_unmapped_area m len s = area_scan (vmas s) len (rev ?l) (USER_TOP - len)"
    using assms(3,4) by (auto simp: get_unmapped_area_def)
  ultimately show ?thesis unfolding fit best_room_def append_Nil2 by (simp only:)
qed

text \<open>C15: Looking up an address gives the first area that ends above it, whether the cache, the tree or the
  list is searched; the search keeps the address spaces consistent and changes no mapping.\<close>

theorem find_vma_first_above:
  assumes "vm_inv M s" "m \<in> M"
  shows "\<exists>s'. find_vma m a s = Some (find (\<lambda>v. a < vm_end (vmas s v)) (mmap_link (mms s m)), s') \<and>
    vm_inv M s' \<and> (\<forall>m'. vm_at s' m' = vm_at s m')"
proof -
  obtain s' where "find_vma m a s = Some (first_above (vmas s) a (mmap_link (mms s m)), s')" "vm_inv M s'" "vmas s' = vmas s"
    "\<forall>m'. mmap_link (mms s' m') = mmap_link (mms s m')"
    using find_vma_vm [OF assms, of a] by blast
  then show ?thesis using vm_at_cong [of s' s] by blast
qed

section \<open>Checking user memory\<close>

definition may :: "bool \<Rightarrow> (u32 \<times> (nat \<times> u32) option) option \<Rightarrow> bool" where
  "may write b = (case b of None \<Rightarrow> True | Some (f, _) \<Rightarrow> has f (if write then VM_WRITE else VM_READ))"

text \<open>From an address up to the end of the first area that ends above it, only that area is mapped.\<close>

lemma first_above_only:
  assumes "area_list vs l" "first_above vs a l = Some v" "a \<le> c" "c < vm_end (vs v)"
  shows "area_at vs l c = None \<or> area_at vs l c = Some (backing (vs v) c)"
proof -
  obtain xs ys where l: "l = xs @ ys" "\<forall>x\<in>set xs. vm_end (vs x) \<le> a" "list_first ys = Some v"
    using split_at [OF assms(1), of a] assms(2) by metis
  then obtain zs where ys: "ys = v # zs" by (auto simp: list_first_def split: list.splits)
  have "w = v" if "w \<in> set l" "covers (vs w) c" for w
    using that assms l ys by (force simp: covers_def)
  then show ?thesis using area_at_Some [OF assms(1), of c] by (cases "area_at vs l c") blast+
qed

text \<open>
  What the check accepts, area by area.  From \<open>a\<close> up to \<open>e\<close> it comes to the areas that end above \<open>a\<close>, except
  those after the first one that ends at \<open>e\<close> or above.  An area lets it pass if it has the right asked for and, for
  writing to a stack, the range does not begin below the second page of the area.
\<close>

definition reached :: "(nat \<Rightarrow> vma) \<Rightarrow> nat list \<Rightarrow> u32 \<Rightarrow> u32 \<Rightarrow> nat \<Rightarrow> bool" where
  "reached vs l a e v = (v \<in> set l \<and> a < vm_end (vs v) \<and> (\<forall>u\<in>set l. vm_end (vs u) < vm_end (vs v) \<longrightarrow> vm_end (vs u) < e))"

definition lets_pass :: "bool \<Rightarrow> u32 \<Rightarrow> vma \<Rightarrow> bool" where
  "lets_pass write a vma = (has (vm_flags vma) (if write then VM_WRITE else VM_READ) \<and>
     \<not> (write \<and> has (vm_flags vma) VM_STACK \<and> a < vm_start vma + PAGE_SIZE))"

definition range_ok :: "(nat \<Rightarrow> vma) \<Rightarrow> nat list \<Rightarrow> bool \<Rightarrow> u32 \<Rightarrow> u32 \<Rightarrow> bool" where
  "range_ok vs l write a e = (a < e \<longrightarrow> (\<exists>v\<in>set l. e \<le> vm_end (vs v)) \<and> (\<forall>v. reached vs l a e v \<longrightarrow> lets_pass write a (vs v)))"

lemma first_above_rest:
  assumes "area_list vs l" "first_above vs a l = Some v" "u \<in> set l" "a < vm_end (vs u)" "u \<noteq> v"
  shows "vm_end (vs v) \<le> vm_start (vs u)"
proof -
  obtain xs ys where l: "l = xs @ ys" "\<forall>x\<in>set xs. vm_end (vs x) \<le> a" "list_first ys = Some v"
    using split_at [OF assms(1), of a] assms(2) by metis
  then obtain zs where "ys = v # zs" by (auto simp: list_first_def split: list.splits)
  with assms l show ?thesis by force
qed

lemma user_area_page: "user_area vma \<Longrightarrow> vm_start vma < vm_start vma + PAGE_SIZE"
proof -
  assume "user_area vma"
  then have "unat (vm_start vma) < unat (USER_TOP)" by (auto simp: user_area_def USER_ACCESS_def word_less_nat_alt word_le_nat_alt)
  then show ?thesis by (simp add: USER_TOP_def PAGE_SIZE_def word_less_nat_alt unat_word_ariths)
qed

lemma range_ok_step:
  assumes al: "area_list vs l" and ua: "\<forall>v\<in>set l. user_area (vs v)" and ae: "a < e" and v: "first_above vs a l = Some v"
  shows "range_ok vs l write a e = (lets_pass write a (vs v) \<and> range_ok vs l write (vm_end (vs v)) e)"
proof -
  have vl: "v \<in> set l" "a < vm_end (vs v)" using first_above_in [OF v] by simp_all
  have ends: "vm_end (vs v) \<le> vm_start (vs u)" "vm_end (vs v) < vm_end (vs u)" if "u \<in> set l" "a < vm_end (vs u)" "u \<noteq> v" for u
  proof -
    show 1: "vm_end (vs v) \<le> vm_start (vs u)" by (rule first_above_rest [OF al v that])
    have "vm_start (vs u) < vm_end (vs u)" using al that(1) by (simp add: area_list_def)
    with 1 show "vm_end (vs v) < vm_end (vs u)" by simp
  qed
  have rv: "reached vs l a e v" using vl ae ends unfolding reached_def by (metis less_trans not_less_iff_gr_or_eq)
  have only: "u = v" if "reached vs l a e u" "e \<le> vm_end (vs v)" for u
    using that ends [of u] vl unfolding reached_def by (metis not_le)
  have more: "reached vs l a e u = (u = v \<or> reached vs l (vm_end (vs v)) e u)" if "vm_end (vs v) < e" for u
    using rv ends [of u] vl that unfolding reached_def by (metis less_trans)
  have same: "lets_pass write a (vs u) = lets_pass write (vm_end (vs v)) (vs u)" if "reached vs l (vm_end (vs v)) e u" for u
  proof -
    from that have u: "u \<in> set l" "a < vm_end (vs u)" "u \<noteq> v" using vl by (auto simp: reached_def)
    have "vm_end (vs v) < vm_start (vs u) + PAGE_SIZE" using ends(1) [OF u] user_area_page [of "vs u"] ua u(1) by force
    then show ?thesis using vl(2) by (auto simp: lets_pass_def)
  qed
  show ?thesis
  proof (cases "vm_end (vs v) < e")
    case True
    have "(\<forall>u. reached vs l a e u \<longrightarrow> lets_pass write a (vs u)) =
        (lets_pass write a (vs v) \<and> (\<forall>u. reached vs l (vm_end (vs v)) e u \<longrightarrow> lets_pass write (vm_end (vs v)) (vs u)))"
      unfolding more [OF True] using same by metis
    then show ?thesis using ae True by (auto simp: range_ok_def)
  next
    case False
    then show ?thesis using ae only rv vl unfolding range_ok_def by (metis not_le)
  qed
qed

lemma user_mem_loop_ok:
  assumes "vm_inv M s" "m \<in> M"
  shows "\<exists>ok s'. user_mem_loop m a b write s = Some (ok, s') \<and> vm_inv M s' \<and> (\<forall>m'. vm_at s' m' = vm_at s m') \<and>
    ok = range_ok (vmas s) (mmap_link (mms s m)) write a b \<and>
    (ok \<longrightarrow> (\<forall>c. a \<le> c \<and> c < b \<longrightarrow> may write (vm_at s m c)))"
  using assms
proof (induction "unat b - unat a" arbitrary: a s rule: less_induct)
  case less
  show ?case
  proof (cases "a < b")
    case False
    then have "user_mem_loop m a b write s = Some (True, s)" by (subst user_mem_loop.simps) simp
    then show ?thesis using False less.prems(1) by (force simp: range_ok_def)
  next
    case True
    let ?l = "mmap_link (mms s m)"
    have al: "area_list (vmas s) ?l" and ua: "\<forall>v\<in>set ?l. user_area (vmas s v)"
      using less.prems by (auto simp: vm_inv_def mm_inv_def mm_ok_def)
    obtain s1 where s1: "find_vma m a s = Some (first_above (vmas s) a ?l, s1)" "vm_inv M s1" "vmas s1 = vmas s"
      "\<forall>m'. mmap_link (mms s1 m') = mmap_link (mms s m')" using find_vma_vm [OF less.prems, of a] by blast
    have at: "\<forall>m'. vm_at s1 m' = vm_at s m'" using vm_at_cong [of s1 s] s1 by simp
    show ?thesis
    proof (cases "first_above (vmas s) a ?l")
      case None
      then have "user_mem_loop m a b write s = Some (False, s1)" using True s1(1) by (subst user_mem_loop.simps) simp
      moreover have "\<not> range_ok (vmas s) ?l write a b" using None True by (force simp: range_ok_def find_None_iff)
      ultimately show ?thesis using s1(2) at by force
    next
      case (Some v)
      let ?pass = "lets_pass write a (vmas s v)"
      have run: "user_mem_loop m a b write s = (if ?pass then user_mem_loop m (vm_end (vmas s v)) b write s1 else Some (False, s1))"
        using True s1(1,3) Some by (subst user_mem_loop.simps) (simp add: lets_pass_def)
      have v: "a < vm_end (vmas s v)" using first_above_in [OF Some] by simp
      then have "unat b - unat (vm_end (vmas s v)) < unat b - unat a" using True by (simp add: word_less_nat_alt)
      from less.hyps [OF this s1(2) less.prems(2)] at s1(3,4)
      obtain ok s' where s': "user_mem_loop m (vm_end (vmas s v)) b write s1 = Some (ok, s')" "vm_inv M s'" "\<forall>m'. vm_at s' m' = vm_at s m'"
        "ok = range_ok (vmas s) ?l write (vm_end (vmas s v)) b"
        "ok \<longrightarrow> (\<forall>c. vm_end (vmas s v) \<le> c \<and> c < b \<longrightarrow> may write (vm_at s m c))" by auto
      have "?pass \<Longrightarrow> c < vm_end (vmas s v) \<Longrightarrow> a \<le> c \<Longrightarrow> may write (vm_at s m c)" for c
        using first_above_only [OF al Some, of c] by (auto simp: vm_at_def may_def backing_def lets_pass_def)
      then have "?pass \<longrightarrow> ok \<longrightarrow> (\<forall>c. a \<le> c \<and> c < b \<longrightarrow> may write (vm_at s m c))" using s'(5) by (metis not_le)
      then show ?thesis using run s'(1-4) s1(2) at range_ok_step [OF al ua True Some, of "write"] by (cases ?pass) auto
    qed
  qed
qed

text \<open>C16: The check of a user range before the kernel reads or writes it returns and changes no mapping.  It accepts
  exactly the ranges that lie in user space, do not end above every area, and for which every area the
  check comes to (the areas that end above the range's start, up to the first that ends at its end or above) has the
  right asked for and, when a stack is to be written, does not have the start of the range below its second page.
  So every mapped address of an accepted range has the right asked for.\<close>

theorem user_mem_check_rights:
  assumes "vm_inv M s" "m \<in> M"
  defines "L \<equiv> mmap_link (mms s m)"
  shows "\<exists>ok s'. user_mem_check m addr len write s = Some (ok, s') \<and> vm_inv M s' \<and> (\<forall>m'. vm_at s' m' = vm_at s m') \<and>
    (ok \<longleftrightarrow> USER_ACCESS addr (addr + len) \<and> (\<exists>v\<in>set L. addr + len \<le> vm_end (vmas s v)) \<and>
       (\<forall>v\<in>set L. addr < vm_end (vmas s v) \<and>
            (\<forall>u\<in>set L. vm_end (vmas s u) < vm_end (vmas s v) \<longrightarrow> vm_end (vmas s u) < addr + len) \<longrightarrow>
          has (vm_flags (vmas s v)) (if write then VM_WRITE else VM_READ) \<and>
          \<not> (write \<and> has (vm_flags (vmas s v)) VM_STACK \<and> addr < vm_start (vmas s v) + PAGE_SIZE))) \<and>
    (ok \<longrightarrow> (\<forall>c. addr \<le> c \<and> c < addr + len \<longrightarrow> may write (vm_at s m c)))"
proof -
  have m: "m \<noteq> 0" using assms by (simp add: vm_inv_def mm_inv_def mm_ok_def)
  show ?thesis
  proof (cases "USER_ACCESS addr (addr + len)")
    case False
    with m assms(1) show ?thesis by (intro exI [of _ False] exI [of _ s]) (simp add: user_mem_check_def)
  next
    case True
    then have "addr < addr + len" by (simp add: USER_ACCESS_def)
    with user_mem_loop_ok [OF assms(1,2), of addr "addr + len" "write"] m True show ?thesis
      unfolding L_def by (simp add: user_mem_check_def range_ok_def reached_def lets_pass_def Ball_def imp_conjL)
  qed
qed

section \<open>Examples\<close>

text \<open>An address space at 100 with one private area of four pages, over the example memory.\<close>

definition example_area :: vma where
  "example_area = \<lparr>vm_mm = 100, vm_start = 0x00800000, vm_end = 0x00804000, vm_flags = 3, vm_shmem = 0, vm_shmem_off = 0\<rparr>"

definition example_vm :: vmst where
  "example_vm = \<lparr>memory = example_mem, shmems = (\<lambda>_. \<lparr>shmn_link = [], shmn_cache = None, shmem_len = 0, shmem_ref = 0, shmem_sem = 1\<rparr>),
     shmns = (\<lambda>_. \<lparr>shmn_start = 0, shmn_end = 0, shmn_entry = 0\<rparr>), vmas = (\<lambda>_. example_area),
     mms = (\<lambda>_. \<lparr>mmap_link = [10], mmap_tree = \<lparr>rb_root = 100, rb_nil = 100, rb_red = (\<lambda>_. False), rb_parent = id, rb_left = id, rb_right = id\<rparr>,
       mmap_cache = None, page_dir = 5, map_count = 1, swap_address = 0, mm_count = 1, mm_lock = False, locked_by = 0,
       brk_start = 0, brk = 0\<rparr>),
     current_pid = Some 1\<rparr>"

lemma example_vm_inv: "vm_inv {100} example_vm"
proof -
  have "rb_rep (mmap_tree (mms example_vm 100)) []"
    unfolding rb_rep_def by (intro exI [of _ Lf]) (simp add: cfg_def rbt_ok_def example_vm_def)
  then show ?thesis
    by (simp add: vm_inv_def mm_inv_def mm_ok_def example_vm_def example_area_def user_area_def USER_ACCESS_def
        USER_BASE_def USER_TOP_def PAGE_SIZE_def)
qed

lemma example_vm_at: "vm_at example_vm 100 c = (if 0x00800000 \<le> c \<and> c < 0x00804000 then Some (3, None) else None)"
  by (simp add: vm_at_def area_at_def example_vm_def example_area_def covers_def backing_def has_def VM_SHARE_def)

lemma example_fresh: "fresh {100} example_vm 20" "fresh {100} example_vm 30"
  by (simp_all add: fresh_def example_vm_def)

theorem mm_map_exact_witness:
  "\<exists>s'. mm_map 100 0x00804010 0x1000 1 (Some 20) example_vm = Some (Inr 20, s') \<and> vm_inv {100} s' \<and>
    vm_at s' 100 0x00805000 = Some (1, None) \<and> vm_at s' 100 0x00800000 = Some (3, None)"
proof -
  have "ROUNDDOWN 0x00804010 PAGE_SIZE = 0x00804000" "ROUNDUP (0x00804010 + 0x1000) PAGE_SIZE = 0x00806000"
    by (simp_all add: ROUNDDOWN_def ROUNDUP_def PAGE_SIZE_def)
  moreover have "USER_ACCESS 0x00804000 0x00806000" by (simp add: USER_ACCESS_def USER_BASE_def USER_TOP_def)
  moreover have "\<forall>c. 0x00804000 \<le> c \<and> c < 0x00806000 \<longrightarrow> vm_at example_vm 100 c = None" by (auto simp: example_vm_at)
  ultimately show ?thesis
    using mm_map_exact [OF example_vm_inv _ example_fresh(1), of 100 "0x00804010" "0x1000" 1]
    by (auto simp: example_vm_at VM_SHARE_def)
qed

theorem get_unmapped_area_best_witness:
  "get_unmapped_area 100 0x2000 example_vm = 0xAFFFE000 \<and> vm_at example_vm 100 0xAFFFF000 = None"
proof -
  have "get_unmapped_area 100 0x2000 example_vm = 0xAFFFE000"
    by (simp add: get_unmapped_area_def example_vm_def example_area_def USER_TOP_def)
  then show ?thesis
    using get_unmapped_area_best [OF example_vm_inv, of 100 "0x2000"] by (simp add: USER_TOP_def)
qed

theorem find_vma_first_above_witness:
  "\<exists>s'. find_vma 100 0x00700000 example_vm = Some (Some 10, s') \<and> vm_inv {100} s'"
proof -
  have "find (\<lambda>v. 0x00700000 < vm_end (vmas example_vm v)) (mmap_link (mms example_vm 100)) = Some 10"
    by (simp add: example_vm_def example_area_def)
  then show ?thesis using find_vma_first_above [OF example_vm_inv, of 100 "0x00700000"] by auto
qed

text \<open>The same address space with its area marked as a stack.\<close>

definition example_stack :: vmst where
  "example_stack = example_vm\<lparr>vmas := (\<lambda>_. example_area\<lparr>vm_flags := 11\<rparr>)\<rparr>"

lemma example_stack_inv: "vm_inv {100} example_stack"
  using example_vm_inv
  by (simp add: example_stack_def vm_inv_def mm_inv_def mm_ok_def example_vm_def example_area_def user_area_def)

theorem user_mem_check_rights_witness:
  "(\<exists>s'. user_mem_check 100 0x00800000 0x1000 True example_vm = Some (True, s') \<and> vm_inv {100} s' \<and> vm_at s' 100 0x00800000 = Some (3, None)) \<and>
   (\<exists>s'. user_mem_check 100 0x00800000 0x1000 True example_stack = Some (False, s')) \<and>
   (\<exists>s'. user_mem_check 100 0x00801000 0x1000 True example_stack = Some (True, s')) \<and>
   (\<exists>s'. user_mem_check 100 0x00803000 0x2000 True example_vm = Some (False, s'))"
proof (intro conjI)
  have vm: "mmap_link (mms example_vm 100) = [10]" "vmas example_vm 10 = example_area"
    "mmap_link (mms example_stack 100) = [10]" "vmas example_stack 10 = example_area\<lparr>vm_flags := 11\<rparr>"
    by (simp_all add: example_vm_def example_stack_def)
  note ev = vm example_area_def USER_ACCESS_def USER_BASE_def USER_TOP_def has_def VM_WRITE_def VM_STACK_def PAGE_SIZE_def
  show "\<exists>s'. user_mem_check 100 0x00800000 0x1000 True example_vm = Some (True, s') \<and> vm_inv {100} s' \<and> vm_at s' 100 0x00800000 = Some (3, None)"
    using user_mem_check_rights [OF example_vm_inv, of 100 "0x00800000" "0x1000" True] by (auto simp: ev example_vm_at)
  show "\<exists>s'. user_mem_check 100 0x00800000 0x1000 True example_stack = Some (False, s')"
    using user_mem_check_rights [OF example_stack_inv, of 100 "0x00800000" "0x1000" True] by (auto simp: ev)
  show "\<exists>s'. user_mem_check 100 0x00801000 0x1000 True example_stack = Some (True, s')"
    using user_mem_check_rights [OF example_stack_inv, of 100 "0x00801000" "0x1000" True] by (auto simp: ev)
  show "\<exists>s'. user_mem_check 100 0x00803000 0x2000 True example_vm = Some (False, s')"
    using user_mem_check_rights [OF example_vm_inv, of 100 "0x00803000" "0x2000" True] by (auto simp: ev)
qed

text \<open>What the check does not promise: a range that begins in a gap below an area is accepted.\<close>

lemma user_mem_check_gap:
  "\<exists>s'. user_mem_check 100 0x007FF000 0x2000 True example_vm = Some (True, s') \<and> vm_at example_vm 100 0x007FF000 = None"
proof -
  have ok: "mm_ok (vmas example_vm) 100 (mms example_vm 100)" using example_vm_inv by (simp add: vm_inv_def mm_inv_def)
  have "find (\<lambda>v. 0x007FF000 < vm_end (vmas example_vm v)) (mmap_link (mms example_vm 100)) = Some 10"
    by (simp add: example_vm_def example_area_def)
  then obtain s1 where s1: "find_vma 100 0x007FF000 example_vm = Some (Some 10, s1)" "vmas s1 = vmas example_vm"
    using find_vma_run [OF ok, of "0x007FF000"] by (simp add: upd_mm_def)
  have f: "vm_flags (vmas s1 10) = 3" "vm_end (vmas s1 10) = 0x00804000" by (simp_all add: s1(2) example_vm_def example_area_def)
  have "user_mem_loop 100 0x00804000 0x00801000 True s1 = Some (True, s1)" by (subst user_mem_loop.simps) simp
  then have "user_mem_loop 100 0x007FF000 0x00801000 True example_vm = Some (True, s1)"
    using s1(1) f by (subst user_mem_loop.simps) (simp add: has_def VM_WRITE_def VM_STACK_def)
  then show ?thesis by (simp add: user_mem_check_def USER_ACCESS_def USER_BASE_def USER_TOP_def example_vm_at)
qed

end
