(* ===== verification/Unmap.thy ===== *)
theory Unmap
  imports Areas
begin

text \<open>
  Unmapping a range of an address space: the areas the range cuts are shortened or split, those it contains are destroyed, and the
  page table entries of every part that was mapped are removed with their references.  Combines the map of areas with the invariant
  of the reference counts.
\<close>

section \<open>Taking areas out\<close>

definition same_rest :: "nat \<Rightarrow> 'a vmst_scheme \<Rightarrow> 'a vmst_scheme \<Rightarrow> bool" where
  "same_rest m s s' = (vmas s' = vmas s \<and> memory s' = memory s \<and> shmems s' = shmems s \<and>
     page_dir (mms s' m) = page_dir (mms s m) \<and> (\<forall>m'. m' \<noteq> m \<longrightarrow> mms s' m' = mms s m'))"

lemma next_of_mid: "v \<notin> set xs \<Longrightarrow> next_of (xs @ v # ys) v = list_first ys"
  by (induction xs) (auto simp: list_first_def split: list.splits)

lemma remove_vma_vm:
  assumes "mm_ok (vmas s) m (mms s m)" "mmap_link (mms s m) = xs @ v # ys"
  shows "\<exists>s'. remove_vma_struct m v s = Some s' \<and> same_rest m s s' \<and> mm_ok (vmas s') m (mms s' m) \<and> mmap_link (mms s' m) = xs @ ys"
  using remove_vma_struct_ok [OF assms] mm_ok_remove [OF assms] by (auto simp: same_rest_def upd_mm_def)

lemma unmap_collect_ok:
  assumes "mm_ok (vmas s) m (mms s m)" "mmap_link (mms s m) = xs @ v # mid @ zs"
    "\<forall>w\<in>set (v # mid). vm_start (vmas s w) < b" "\<forall>z\<in>set zs. b \<le> vm_start (vmas s z)"
  shows "\<exists>s'. unmap_collect m b v free s = Some (rev (v # mid) @ free, s') \<and> same_rest m s s' \<and>
    mm_ok (vmas s') m (mms s' m) \<and> mmap_link (mms s' m) = xs @ zs"
  using assms
proof (induction mid arbitrary: v s free)
  case Nil
  have "area_list (vmas s) (xs @ v # zs)" using Nil by (simp add: mm_ok_def)
  then have "v \<notin> set xs" using area_list_distinct by fastforce
  then have nx: "next_of (mmap_link (mms s m)) v = list_first zs" using Nil by (simp add: next_of_mid)
  obtain s1 where s1: "remove_vma_struct m v s = Some s1" "same_rest m s s1" "mm_ok (vmas s1) m (mms s1 m)" "mmap_link (mms s1 m) = xs @ zs"
    using remove_vma_vm [OF Nil(1), of xs v zs] Nil(2) by auto
  show ?case
  proof (cases zs)
    case Nil': Nil
    then show ?thesis using s1 nx Nil(3) by (subst unmap_collect.simps) (simp add: list_first_def)
  next
    case (Cons z zs')
    have "unmap_collect m b z (v # free) s1 = Some (v # free, s1)"
      using Nil(4) Cons s1(2) by (subst unmap_collect.simps) (auto simp: same_rest_def)
    then show ?thesis using s1 nx Nil(3) Cons by (subst unmap_collect.simps) (simp add: list_first_def)
  qed
next
  case (Cons w mid)
  have "area_list (vmas s) (xs @ v # w # mid @ zs)" using Cons.prems by (simp add: mm_ok_def)
  then have "v \<notin> set xs" using area_list_distinct by fastforce
  then have nx: "next_of (mmap_link (mms s m)) v = Some w" using Cons.prems by (simp add: next_of_mid list_first_def)
  obtain s1 where s1: "remove_vma_struct m v s = Some s1" "same_rest m s s1" "mm_ok (vmas s1) m (mms s1 m)"
      "mmap_link (mms s1 m) = xs @ w # mid @ zs"
    using remove_vma_vm [OF Cons.prems(1), of xs v "w # mid @ zs"] Cons.prems(2) by auto
  have vs: "vmas s1 = vmas s" using s1(2) by (simp add: same_rest_def)
  obtain s' where s': "unmap_collect m b w (v # free) s1 = Some (rev (w # mid) @ v # free, s')" "same_rest m s1 s'"
      "mm_ok (vmas s') m (mms s' m)" "mmap_link (mms s' m) = xs @ zs"
    using Cons.IH [OF s1(3,4), of "v # free"] Cons.prems(3,4) vs by auto
  have "same_rest m s s'" using s1(2) s'(2) by (simp add: same_rest_def)
  moreover have "unmap_collect m b v free s = Some (rev (v # w # mid) @ free, s')"
    using s1(1) s'(1) nx Cons.prems(3) by (subst unmap_collect.simps) simp
  ultimately show ?case using s'(3,4) by blast
qed

section \<open>Changing an area that is not linked, and shrinking one that is\<close>

lemma vm_inv_detached:
  assumes inv: "vm_inv M s" and m: "m \<in> M" and v: "vm_mm (vmas s v) = m" "v \<notin> set (mmap_link (mms s m))"
    and s': "s' = upd_vma v f s"
  shows "vm_inv M s'" "m' \<in> M \<Longrightarrow> vm_at s' m' = vm_at s m'" "mms s' = mms s" "memory s' = memory s" "w \<noteq> v \<Longrightarrow> vmas s' w = vmas s w"
    "vmas s' v = f (vmas s v)"
proof -
  show mms: "mms s' = mms s" by (simp add: s' upd_vma_def)
  have same: "vmas s' w = vmas s w" if "m' \<in> M" "w \<in> set (mmap_link (mms s m'))" for m' w
  proof -
    have "vm_mm (vmas s w) = m'" using inv that by (auto simp: vm_inv_def mm_inv_def mm_ok_def)
    then have "w \<noteq> v" using v that by auto
    then show ?thesis by (simp add: s' upd_vma_def)
  qed
  show "vm_inv M s'" using inv same mms mm_inv_cong [of _ "vmas s'" "vmas s"] unfolding vm_inv_def by metis
  show "m' \<in> M \<Longrightarrow> vm_at s' m' = vm_at s m'"
    using same mms area_at_cong [of "mmap_link (mms s m')" "vmas s'" "vmas s"] unfolding vm_at_def by metis
qed (simp_all add: s' upd_vma_def)

definition shrunk :: "vma \<Rightarrow> vma \<Rightarrow> bool" where
  "shrunk v w = (vm_mm w = vm_mm v \<and> vm_start v \<le> vm_start w \<and> vm_end w \<le> vm_end v \<and> vm_start w < vm_end w \<and> user_area w)"

lemma area_list_shrunk:
  assumes "area_list vs (xs @ v # ys)" "shrunk (vs v) (vs' v)" "\<And>w. w \<in> set (xs @ ys) \<Longrightarrow> vs' w = vs w"
  shows "area_list vs' (xs @ v # ys)"
proof -
  have "area_list vs' xs" "area_list vs' ys" using assms(1,3) area_list_cong [of xs vs' vs] area_list_cong [of ys vs' vs] by auto
  then show ?thesis using assms by (force simp: shrunk_def)
qed

lemma fits_shrunk:
  assumes "area_list vs (xs @ v # ys)" "shrunk (vs v) (vs' v)" "\<And>w. w \<in> set (xs @ ys) \<Longrightarrow> vs' w = vs w"
  shows "fits vs' xs v ys"
  using area_list_shrunk [OF assms] by (simp add: fits_def)

lemma vm_inv_shrunk:
  assumes inv: "vm_inv M s" and m: "m \<in> M" and l: "mmap_link (mms s m) = xs @ v # ys"
    and f: "shrunk (vmas s v) (f (vmas s v))" and s': "s' = upd_vma v f s"
  shows "vm_inv M s'" "m' \<in> M \<Longrightarrow> m' \<noteq> m \<Longrightarrow> vm_at s' m' = vm_at s m'" "mms s' = mms s" "memory s' = memory s"
    "w \<noteq> v \<Longrightarrow> vmas s' w = vmas s w" "vmas s' v = f (vmas s v)"
proof -
  show mms: "mms s' = mms s" by (simp add: s' upd_vma_def)
  have I: "mm_inv (vmas s) m (mms s m)" using inv m by (simp add: vm_inv_def)
  have vs: "vmas s' v = f (vmas s v)" "\<And>w. w \<noteq> v \<Longrightarrow> vmas s' w = vmas s w" by (simp_all add: s' upd_vma_def)
  have al: "area_list (vmas s) (xs @ v # ys)" using I l by (simp add: mm_inv_def mm_ok_def)
  then have "v \<notin> set (xs @ ys)" using area_list_distinct by fastforce
  then have same: "\<And>w. w \<in> set (xs @ ys) \<Longrightarrow> vmas s' w = vmas s w" using vs(2) by metis
  have "area_list (vmas s') (xs @ v # ys)" using area_list_shrunk [OF al _ same] f vs(1) by simp
  moreover have "vm_mm (vmas s v) = m" using I l by (simp add: mm_inv_def mm_ok_def)
  ultimately have new: "mm_inv (vmas s') m (mms s' m)"
    using I l f vs(1) same mms by (auto simp: mm_inv_def mm_ok_def shrunk_def split: option.splits)
  have "\<And>w. w \<notin> ({} :: nat set) \<Longrightarrow> vm_mm (vmas s w) \<noteq> m \<Longrightarrow> vmas s' w = vmas s w"
    using vs(2) \<open>vm_mm (vmas s v) = m\<close> by metis
  note fr = vm_frame [OF inv m _ this _ new, of "{}", simplified]
  show "vm_inv M s'" using fr(1) mms by simp
  show "m' \<in> M \<Longrightarrow> m' \<noteq> m \<Longrightarrow> vm_at s' m' = vm_at s m'" using fr(2) mms by fastforce
qed (simp_all add: s' upd_vma_def)

section \<open>Cutting one area\<close>

definition resized :: "u32 \<Rightarrow> u32 \<Rightarrow> vma \<Rightarrow> vma" where
  "resized x y vma = vma\<lparr>
     vm_shmem_off := (if has (vm_flags vma) VM_SHARE then vm_shmem_off vma + (x - vm_start vma) else vm_shmem_off vma),
     vm_start := x, vm_end := y\<rparr>"

lemma vma_resize_run:
  assumes "x mod PAGE_SIZE = 0" "y mod PAGE_SIZE = 0" "vm_start (vmas s v) \<le> x" "x < y" "y \<le> vm_end (vmas s v)"
  shows "vma_resize v x y s = Some (upd_vma v (resized x y) s)"
  using assms by (simp add: vma_resize_def resized_def [abs_def])

lemma resized_simps [simp]:
  "vm_start (resized x y vma) = x" "vm_end (resized x y vma) = y" "vm_mm (resized x y vma) = vm_mm vma"
  "vm_flags (resized x y vma) = vm_flags vma"
  "backing (resized x y vma) c = backing vma c" "covers (resized x y vma) c = (x \<le> c \<and> c < y)"
  by (simp_all add: resized_def backing_def covers_def)

lemma shrunk_resized:
  assumes "user_area vma" "x mod PAGE_SIZE = 0" "y mod PAGE_SIZE = 0" "vm_start vma \<le> x" "x < y" "y \<le> vm_end vma"
  shows "shrunk vma (resized x y vma)"
  using assms by (auto simp: shrunk_def user_area_def USER_ACCESS_def)

lemma unmap_memory:
  assumes "vm_inv M s" "mem_inv (memory s) D E" "d \<in> D" "USER_ACCESS x y" "x mod PAGE_SIZE = 0" "y mod PAGE_SIZE = 0"
  shows "\<exists>s'. on_memu (unmap_range d x y) s = Some s' \<and> vm_inv M s' \<and> mem_inv (memory s') D E \<and> vmas s' = vmas s \<and> mms s' = mms s \<and>
    (\<forall>d'\<in>D. \<forall>va. entry (memory s') d' va = (if d' = d \<and> x \<le> va \<and> va < y then 0 else entry (memory s) d' va))"
proof -
  obtain q where "unmap_range d x y (memory s) = Some q" "mem_inv q D E"
    "\<forall>d'\<in>D. \<forall>va. entry q d' va = (if d' = d \<and> x \<le> va \<and> va < y then 0 else entry (memory s) d' va)"
    using unmap_range_ok [OF assms(2-6)] by blast
  then show ?thesis using assms(1)
    by (intro exI [of _ "s\<lparr>memory := q\<rparr>"]) (simp add: on_memu_def vm_inv_def)
qed

text \<open>
  One area of those taken out: \<open>u\<close> is what stays of it in the list.  The parts of the area in the range lose
  their page table entries.
\<close>

definition cut :: "u32 \<Rightarrow> u32 \<Rightarrow> vma \<Rightarrow> bool" where
  "cut a b vma = (user_area vma \<and> a < vm_end vma \<and> vm_start vma < b \<and> \<not> (vm_start vma < a \<and> b < vm_end vma) \<and>
     (has (vm_flags vma) VM_SHARE \<longrightarrow> \<not> (a \<le> vm_start vma \<and> vm_end vma \<le> b)))"

definition cut_done :: "nat \<Rightarrow> u32 \<Rightarrow> u32 \<Rightarrow> nat set \<Rightarrow> nat set \<Rightarrow> ptep set \<Rightarrow> (u32 \<Rightarrow> bool) \<Rightarrow> 'a vmst_scheme \<Rightarrow> 'a vmst_scheme \<Rightarrow> bool" where
  "cut_done m a b M D E C s s' = (vm_inv M s' \<and> mem_inv (memory s') D E \<and> (\<forall>m'. page_dir (mms s' m') = page_dir (mms s m')) \<and>
     (\<forall>m'\<in>M. m' \<noteq> m \<longrightarrow> vm_at s' m' = vm_at s m') \<and>
     (\<forall>d'\<in>D. \<forall>va. entry (memory s') d' va =
        (if d' = page_dir (mms s m) \<and> a \<le> va \<and> va < b \<and> C va then 0 else entry (memory s) d' va)))"

lemma cut_done_trans:
  assumes "cut_done m a b M D E C s s1" "cut_done m a b M D E C' s1 s'"
  shows "cut_done m a b M D E (\<lambda>c. C c \<or> C' c) s s'"
  using assms unfolding cut_done_def by (intro conjI ballI allI) auto

text \<open>The part of an area that stays is put back where it was.\<close>

lemma put_back:
  assumes inv: "vm_inv M s" and m: "m \<in> M" and l: "mmap_link (mms s m) = xs @ ys" and al: "area_list (vmas s) (xs @ v # ys)"
    and v: "v \<noteq> m" "vm_mm (vmas s v) = m" "user_area (vmas s v)"
    and xy: "x mod PAGE_SIZE = 0" "y mod PAGE_SIZE = 0" "vm_start (vmas s v) \<le> x" "x < y" "y \<le> vm_end (vmas s v)"
  shows "\<exists>s1 s'. vma_resize v x y s = Some s1 \<and> insert_vma_struct m v s1 = Some s' \<and> vm_inv M s' \<and> memory s' = memory s \<and>
    mmap_link (mms s' m) = xs @ v # ys \<and> (\<forall>m'. page_dir (mms s' m') = page_dir (mms s m')) \<and>
    (\<forall>m'\<in>M. m' \<noteq> m \<longrightarrow> vm_at s' m' = vm_at s m') \<and> (\<forall>w. w \<noteq> v \<longrightarrow> vmas s' w = vmas s w) \<and>
    vmas s' v = (resized x y (vmas s v))\<lparr>vm_mm := m\<rparr>"
proof -
  let ?s = "upd_vma v (resized x y) s"
  have vn: "v \<notin> set (xs @ ys)" using area_list_distinct [OF al] by auto
  have vl: "v \<notin> set (mmap_link (mms s m))" using vn l by simp
  note d = vm_inv_detached [OF inv m v(2) vl refl [of ?s]]
  have sh: "shrunk (vmas s v) (vmas ?s v)" using shrunk_resized [OF v(3) xy] d(6) by simp
  have fit: "fits (vmas ?s) xs v ys" using fits_shrunk [of "vmas s" xs v ys "vmas ?s"] al sh d(5) vn by metis
  have ua: "user_area (vmas ?s v)" using sh by (simp add: shrunk_def)
  have l': "mmap_link (mms ?s m) = xs @ ys" using d(3) l by simp
  have vo: "fresh M ?s v \<or> v \<noteq> m \<and> v \<notin> set (xs @ ys) \<and> vm_mm (vmas ?s v) = m" using v vn d(6) by simp
  obtain s' where s': "insert_vma_struct m v ?s = Some s'" "vm_inv M s'" "mmap_link (mms s' m) = xs @ v # ys"
      "vmas s' = (vmas ?s)(v := (vmas ?s v)\<lparr>vm_mm := m\<rparr>)" "memory s' = memory ?s"
      "\<forall>m'. page_dir (mms s' m') = page_dir (mms ?s m')"
      "\<forall>m'\<in>M. \<forall>a. vm_at s' m' a = (if m' = m \<and> covers (vmas ?s v) a then Some (backing (vmas ?s v) a) else vm_at ?s m' a)"
    using insert_vma_vm [OF d(1) m l' fit vo ua] by blast
  have at: "\<forall>m'\<in>M. m' \<noteq> m \<longrightarrow> vm_at s' m' = vm_at s m'" using s'(7) d(2) by fastforce
  show ?thesis
    by (intro exI [of _ ?s] exI [of _ s'] conjI vma_resize_run [OF xy] s'(1,2,3) at)
      (use s'(4,5,6) d(3,4,5,6) in simp_all)
qed

lemma area_at_append: "area_at vs (xs @ ys) c = (case area_at vs xs c of None \<Rightarrow> area_at vs ys c | Some z \<Rightarrow> Some z)"
  by (simp add: area_at_def find_append split: option.split)

lemma area_at_single: "area_at vs [v] c = (if covers (vs v) c then Some (backing (vs v) c) else None)"
  by (simp add: area_at_def)

definition step_done :: "nat \<Rightarrow> u32 \<Rightarrow> u32 \<Rightarrow> nat \<Rightarrow> nat list \<Rightarrow> 'a vmst_scheme \<Rightarrow> 'a vmst_scheme \<Rightarrow> bool" where
  "step_done m a b v u s s' = ((u = [] \<or> u = [v]) \<and> (\<forall>w. w \<noteq> v \<longrightarrow> vmas s' w = vmas s w) \<and>
     (u = [v] \<longrightarrow> shrunk (vmas s v) (vmas s' v)) \<and>
     (\<forall>c. area_at (vmas s') u c = (if a \<le> c \<and> c < b then None else area_at (vmas s) [v] c)))"

lemma step_put_back:
  assumes "vmas s2 v = (resized x y (vmas s v))\<lparr>vm_mm := m\<rparr>" "\<forall>w. w \<noteq> v \<longrightarrow> vmas s2 w = vmas s w" "vm_mm (vmas s v) = m"
    "shrunk (vmas s v) (resized x y (vmas s v))" "\<And>c. (x \<le> c \<and> c < y) = (covers (vmas s v) c \<and> \<not> (a \<le> c \<and> c < b))"
  shows "step_done m a b v [v] s s2"
proof -
  have v2: "vmas s2 v = resized x y (vmas s v)" using assms(1,3) by (simp add: resized_def)
  then have "area_at (vmas s2) [v] c = (if a \<le> c \<and> c < b then None else area_at (vmas s) [v] c)" for c
    using assms(5) [of c] by (auto simp: area_at_single)
  then show ?thesis using assms(2,4) v2 by (simp add: step_done_def)
qed

text \<open>Removing the page table entries after the list has been dealt with.\<close>

lemma unmap_finish:
  assumes mem: "mem_inv (memory s) D E" and pd: "page_dir (mms s m) \<in> D"
    and s1: "vm_inv M s1" "memory s1 = memory s" "\<forall>m'. page_dir (mms s1 m') = page_dir (mms s m')"
      "\<forall>m'\<in>M. m' \<noteq> m \<longrightarrow> vm_at s1 m' = vm_at s m'"
    and xy: "USER_ACCESS x y" "x mod PAGE_SIZE = 0" "y mod PAGE_SIZE = 0"
      "\<And>va. (x \<le> va \<and> va < y) = (a \<le> va \<and> va < b \<and> C va)"
  shows "\<exists>s'. on_memu (unmap_range (page_dir (mms s1 m)) x y) s1 = Some s' \<and> mms s' = mms s1 \<and> vmas s' = vmas s1 \<and>
    cut_done m a b M D E C s s'"
proof -
  have mem1: "mem_inv (memory s1) D E" using mem s1(2) by simp
  obtain s' where "on_memu (unmap_range (page_dir (mms s m)) x y) s1 = Some s'" "vm_inv M s'" "mem_inv (memory s') D E"
      "vmas s' = vmas s1" "mms s' = mms s1"
      "\<forall>d'\<in>D. \<forall>va. entry (memory s') d' va = (if d' = page_dir (mms s m) \<and> x \<le> va \<and> va < y then 0 else entry (memory s1) d' va)"
    using unmap_memory [OF s1(1) mem1 pd xy(1-3)] by blast
  then show ?thesis using s1 xy(4) by (intro exI [of _ s']) (simp add: cut_done_def vm_at_def)
qed

lemma unmap_area_ok:
  assumes inv: "vm_inv M s" and mem: "mem_inv (memory s) D E" and m: "m \<in> M" and pd: "page_dir (mms s m) \<in> D"
    and l: "mmap_link (mms s m) = xs @ ys" and al: "area_list (vmas s) (xs @ v # ys)"
    and v: "v \<noteq> m" "vm_mm (vmas s v) = m" "cut a b (vmas s v)" and ab: "USER_ACCESS a b" "a mod PAGE_SIZE = 0" "b mod PAGE_SIZE = 0"
  shows "\<exists>s' u. unmap_area m a b v s = Some s' \<and> mmap_link (mms s' m) = xs @ u @ ys \<and> step_done m a b v u s s' \<and>
    cut_done m a b M D E (covers (vmas s v)) s s'"
proof -
  let ?vs = "vm_start (vmas s v)" and ?ve = "vm_end (vmas s v)" and ?C = "covers (vmas s v)"
  have ua: "user_area (vmas s v)" and ov: "a < ?ve" "?vs < b" "\<not> (?vs < a \<and> b < ?ve)" using v(3) by (simp_all add: cut_def)
  have u: "USER_ACCESS ?vs ?ve" "?vs mod PAGE_SIZE = 0" "?ve mod PAGE_SIZE = 0" using ua by (simp_all add: user_area_def)
  note put = put_back [OF inv m l al v(1,2) ua] and sh = shrunk_resized [OF ua] and fin = unmap_finish [OF mem pd]
  consider (left) "?vs < a" "?ve \<le> b" | (inside) "a \<le> ?vs" "?ve \<le> b" | (right) "a \<le> ?vs" "b < ?ve" using ov(3) by fastforce
  then show ?thesis
  proof cases
    case left
    obtain s1 s2 where s2: "vma_resize v ?vs a s = Some s1" "insert_vma_struct m v s1 = Some s2" "vm_inv M s2" "memory s2 = memory s"
      "mmap_link (mms s2 m) = xs @ v # ys" "\<forall>m'. page_dir (mms s2 m') = page_dir (mms s m')"
      "\<forall>m'\<in>M. m' \<noteq> m \<longrightarrow> vm_at s2 m' = vm_at s m'" "\<forall>w. w \<noteq> v \<longrightarrow> vmas s2 w = vmas s w"
      "vmas s2 v = (resized ?vs a (vmas s v))\<lparr>vm_mm := m\<rparr>"
      using put [OF u(2) ab(2) order_refl left(1)] ov by (auto simp: less_imp_le)
    have st: "step_done m a b v [v] s s2"
      by (rule step_put_back [OF s2(9,8) v(2) sh]) (use u ab left ov in \<open>auto simp: covers_def\<close>)
    have "USER_ACCESS a ?ve" using ab u ov by (auto simp: USER_ACCESS_def)
    moreover have "(a \<le> va \<and> va < ?ve) = (a \<le> va \<and> va < b \<and> ?C va)" for va using left by (auto simp: covers_def)
    ultimately obtain s' where "on_memu (unmap_range (page_dir (mms s2 m)) a ?ve) s2 = Some s'" "mms s' = mms s2" "vmas s' = vmas s2"
      "cut_done m a b M D E ?C s s'" using fin [OF s2(3,4,6,7) _ ab(2) u(3), of a b ?C] by blast
    then show ?thesis using s2(1,2,5) st left
      by (intro exI [of _ s'] exI [of _ "[v]"]) (simp add: unmap_area_def step_done_def Let_def leD)
  next
    case inside
    have "vma_destory v s = Some s" using v(3) inside by (simp add: cut_def vma_destory_def)
    moreover have "step_done m a b v [] s s" using inside by (auto simp: step_done_def area_at_single covers_def area_at_def)
    moreover have "(?vs \<le> va \<and> va < ?ve) = (a \<le> va \<and> va < b \<and> ?C va)" for va using inside by (auto simp: covers_def)
    then obtain s' where "on_memu (unmap_range (page_dir (mms s m)) ?vs ?ve) s = Some s'" "mms s' = mms s" "vmas s' = vmas s"
      "cut_done m a b M D E ?C s s'" using fin [OF inv _ _ _ u, of a b ?C] by blast
    ultimately show ?thesis using inside l
      by (intro exI [of _ s'] exI [of _ "[]"]) (simp add: unmap_area_def step_done_def Let_def leD)
  next
    case right
    obtain s1 s2 where s2: "vma_resize v b ?ve s = Some s1" "insert_vma_struct m v s1 = Some s2" "vm_inv M s2" "memory s2 = memory s"
      "mmap_link (mms s2 m) = xs @ v # ys" "\<forall>m'. page_dir (mms s2 m') = page_dir (mms s m')"
      "\<forall>m'\<in>M. m' \<noteq> m \<longrightarrow> vm_at s2 m' = vm_at s m'" "\<forall>w. w \<noteq> v \<longrightarrow> vmas s2 w = vmas s w"
      "vmas s2 v = (resized b ?ve (vmas s v))\<lparr>vm_mm := m\<rparr>"
      using put [OF ab(3) u(3) _ right(2) order_refl] ov by (auto simp: less_imp_le)
    have st: "step_done m a b v [v] s s2"
      by (rule step_put_back [OF s2(9,8) v(2) sh]) (use u ab right ov in \<open>auto simp: covers_def\<close>)
    have "USER_ACCESS ?vs b" using ab u ov by (auto simp: USER_ACCESS_def)
    moreover have "(?vs \<le> va \<and> va < b) = (a \<le> va \<and> va < b \<and> ?C va)" for va using right by (auto simp: covers_def)
    ultimately obtain s' where "on_memu (unmap_range (page_dir (mms s2 m)) ?vs b) s2 = Some s'" "mms s' = mms s2" "vmas s' = vmas s2"
      "cut_done m a b M D E ?C s s'" using fin [OF s2(3,4,6,7) _ u(2) ab(3), of a b ?C] by blast
    then show ?thesis using s2(1,2,5) st right
      by (intro exI [of _ s'] exI [of _ "[v]"]) (auto simp: unmap_area_def step_done_def Let_def)
  qed
qed

section \<open>All areas of a range\<close>

lemma area_list_replace:
  assumes "area_list vs (xs @ p @ v # ys)" "u = [] \<or> u = [v]" "u = [v] \<longrightarrow> shrunk (vs v) (vs' v)" "\<forall>w. w \<noteq> v \<longrightarrow> vs' w = vs w"
  shows "area_list vs' (xs @ p @ u @ ys)"
proof -
  have "v \<notin> set ((xs @ p) @ ys)" using area_list_distinct [OF assms(1)] by auto
  then have same: "\<And>w. w \<in> set ((xs @ p) @ ys) \<Longrightarrow> vs' w = vs w" using assms(4) by metis
  show ?thesis
  proof (cases "u = []")
    case True
    have "area_list vs ((xs @ p) @ ys)" using assms(1) by auto
    then show ?thesis using area_list_cong [of "(xs @ p) @ ys" vs' vs] same True by simp
  next
    case False
    then show ?thesis using area_list_shrunk [of vs "xs @ p" v ys vs'] assms same by simp
  qed
qed

lemma unmap_areas_ok:
  assumes "vm_inv M s" "mem_inv (memory s) D E" "m \<in> M" "page_dir (mms s m) \<in> D"
    "mmap_link (mms s m) = xs @ ys" "area_list (vmas s) (xs @ p @ ys)"
    "\<forall>v\<in>set p. v \<noteq> m \<and> vm_mm (vmas s v) = m \<and> cut a b (vmas s v)"
    "\<forall>c. a \<le> c \<and> c < b \<longrightarrow> area_at (vmas s) (xs @ ys) c = None"
    and ab: "USER_ACCESS a b" "a mod PAGE_SIZE = 0" "b mod PAGE_SIZE = 0"
  shows "\<exists>s'. unmap_areas m a b (rev p) s = Some s' \<and> cut_done m a b M D E (\<lambda>c. area_at (vmas s) p c \<noteq> None) s s' \<and>
    (\<forall>c. vm_at s' m c = (if a \<le> c \<and> c < b then None else area_at (vmas s) (xs @ p @ ys) c))"
  using assms(1-8)
proof (induction p arbitrary: s ys rule: rev_induct)
  case Nil
  have "area_at (vmas s) [] c = None" for c by (simp add: area_at_def)
  then show ?case using Nil by (simp add: cut_done_def vm_at_def)
next
  case (snoc v p)
  have al: "area_list (vmas s) (xs @ p @ v # ys)" using snoc.prems(6) by simp
  then have "area_list (vmas s) (xs @ v # ys)" by auto
  moreover have v: "v \<noteq> m" "vm_mm (vmas s v) = m" "cut a b (vmas s v)" using snoc.prems(7) by simp_all
  ultimately obtain s1 u where s1: "unmap_area m a b v s = Some s1" "mmap_link (mms s1 m) = xs @ u @ ys" "step_done m a b v u s s1"
      "cut_done m a b M D E (covers (vmas s v)) s s1"
    using unmap_area_ok [OF snoc.prems(1-5) _ _ _ _ ab] by blast
  have st: "u = [] \<or> u = [v]" "\<forall>w. w \<noteq> v \<longrightarrow> vmas s1 w = vmas s w" "u = [v] \<longrightarrow> shrunk (vmas s v) (vmas s1 v)"
      "\<And>c. area_at (vmas s1) u c = (if a \<le> c \<and> c < b then None else area_at (vmas s) [v] c)"
    using s1(3) by (auto simp: step_done_def)
  have "v \<notin> set (xs @ p @ ys)" using area_list_distinct [OF al] by auto
  then have same: "area_at (vmas s1) q = area_at (vmas s) q" if "set q \<subseteq> set (xs @ p @ ys)" for q
    using area_at_cong [of q "vmas s1" "vmas s"] st(2) that by (metis subsetD)
  have at: "area_at (vmas s1) xs c = area_at (vmas s) xs c" "area_at (vmas s1) p c = area_at (vmas s) p c"
    "area_at (vmas s1) ys c = area_at (vmas s) ys c" for c by (auto intro!: fun_cong [OF same])
  have cd: "vm_inv M s1" "mem_inv (memory s1) D E" "page_dir (mms s1 m) \<in> D" using s1(4) snoc.prems(4) by (simp_all add: cut_done_def)
  have al1: "area_list (vmas s1) (xs @ p @ u @ ys)" using area_list_replace [OF al st(1,3,2)] .
  have p1: "\<forall>w\<in>set p. w \<noteq> m \<and> vm_mm (vmas s1 w) = m \<and> cut a b (vmas s1 w)"
    using snoc.prems(7) st(2) \<open>v \<notin> set (xs @ p @ ys)\<close> by auto
  have none: "\<forall>c. a \<le> c \<and> c < b \<longrightarrow> area_at (vmas s1) (xs @ u @ ys) c = None"
  proof (intro allI impI)
    fix c assume "a \<le> c \<and> c < b"
    then show "area_at (vmas s1) (xs @ u @ ys) c = None"
      using snoc.prems(8) [rule_format, of c] by (simp add: area_at_append at st(4) split: option.splits)
  qed
  obtain s' where s': "unmap_areas m a b (rev p) s1 = Some s'" "cut_done m a b M D E (\<lambda>c. area_at (vmas s1) p c \<noteq> None) s1 s'"
      "\<forall>c. vm_at s' m c = (if a \<le> c \<and> c < b then None else area_at (vmas s1) (xs @ p @ u @ ys) c)"
    using snoc.IH [OF cd(1,2) snoc.prems(3) cd(3) s1(2) al1 p1 none] by blast
  have "\<forall>c. vm_at s' m c = (if a \<le> c \<and> c < b then None else area_at (vmas s) (xs @ (p @ [v]) @ ys) c)"
    using s'(3) area_at_append [of "vmas s" "[v]" ys] by (simp add: area_at_append at st(4) split: option.split)
  moreover have "cut_done m a b M D E (\<lambda>c. area_at (vmas s) (p @ [v]) c \<noteq> None) s s'"
  proof -
    have "(\<lambda>c. area_at (vmas s) (p @ [v]) c \<noteq> None) = (\<lambda>c. covers (vmas s v) c \<or> area_at (vmas s1) p c \<noteq> None)"
      by (rule ext) (auto simp: area_at_append area_at_single at split: option.split)
    then show ?thesis using cut_done_trans [OF s1(4) s'(2)] by simp
  qed
  ultimately show ?case using s1(1) s'(1) by simp
qed

section \<open>Unmapping\<close>

lemma split_below:
  assumes "area_list vs ys"
  obtains mid zs where "ys = mid @ zs" "\<forall>w\<in>set mid. vm_start (vs w) < b" "\<forall>z\<in>set zs. b \<le> vm_start (vs z)"
proof -
  let ?P = "\<lambda>w. vm_start (vs w) < b"
  have ys: "ys = takeWhile ?P ys @ dropWhile ?P ys" by simp
  have "b \<le> vm_start (vs z)" if z: "z \<in> set (dropWhile ?P ys)" for z
  proof -
    obtain q zs where q: "dropWhile ?P ys = q # zs" using z by (cases "dropWhile ?P ys") auto
    then have "b \<le> vm_start (vs q)" using hd_dropWhile [of ?P ys] by auto
    moreover have "area_list vs (q # zs)" using assms ys q area_list_append [of vs "takeWhile ?P ys" "dropWhile ?P ys"] by simp
    ultimately show ?thesis using z q by (force simp: area_list_def)
  qed
  then show ?thesis using that [OF ys] by (auto dest: set_takeWhileD)
qed

text \<open>The hypothesis on shared areas: the range does not split one, nor contain one.\<close>

definition share_cut_ok :: "u32 \<Rightarrow> u32 \<Rightarrow> vma \<Rightarrow> bool" where
  "share_cut_ok a b vma = (has (vm_flags vma) VM_SHARE \<longrightarrow>
     \<not> (a \<le> vm_start vma \<and> vm_end vma \<le> b) \<and> \<not> (vm_start vma < a \<and> b < vm_end vma))"

lemma unmap_several:
  assumes inv: "vm_inv M s" and mem: "mem_inv (memory s) D E" and m: "m \<in> M" and pd: "page_dir (mms s m) \<in> D"
    and l: "mmap_link (mms s m) = xs @ y # ys" and xs: "\<forall>x\<in>set xs. vm_end (vmas s x) \<le> a"
    and ys: "\<forall>w\<in>set (y # ys). a < vm_end (vmas s w)"
    and y: "vm_start (vmas s y) < b" "\<not> (vm_start (vmas s y) < a \<and> b < vm_end (vmas s y))"
    and sh: "\<forall>w\<in>set (mmap_link (mms s m)). share_cut_ok a b (vmas s w)"
    and ab: "USER_ACCESS a b" "a mod PAGE_SIZE = 0" "b mod PAGE_SIZE = 0"
  shows "\<exists>free s1 s'. unmap_collect m b y [] s = Some (free, s1) \<and> unmap_areas m a b free s1 = Some s' \<and>
    cut_done m a b M D E (\<lambda>c. vm_at s m c \<noteq> None) s s' \<and> (\<forall>c. vm_at s' m c = (if a \<le> c \<and> c < b then None else vm_at s m c))"
proof -
  have I: "mm_inv (vmas s) m (mms s m)" using inv m by (simp add: vm_inv_def)
  then have ok: "mm_ok (vmas s) m (mms s m)" and al: "area_list (vmas s) (xs @ y # ys)" using l by (simp_all add: mm_inv_def mm_ok_def)
  then have "area_list (vmas s) ys" by auto
  then obtain mid zs where ms: "ys = mid @ zs" "\<forall>w\<in>set mid. vm_start (vmas s w) < b" "\<forall>z\<in>set zs. b \<le> vm_start (vmas s z)"
    by (rule split_below)
  obtain s1 where s1: "unmap_collect m b y [] s = Some (rev (y # mid), s1)" "same_rest m s s1" "mm_ok (vmas s1) m (mms s1 m)"
      "mmap_link (mms s1 m) = xs @ zs"
    using unmap_collect_ok [OF ok, of xs y mid zs b "[]"] l ms y(1) by auto
  have k: "vmas s1 = vmas s" "memory s1 = memory s" "page_dir (mms s1 m) = page_dir (mms s m)" "\<And>m'. m' \<noteq> m \<Longrightarrow> mms s1 m' = mms s m'"
    using s1(2) by (simp_all add: same_rest_def)
  have new: "mm_inv (vmas s1) m (mms s1 m)" using I s1(3,4) l ms(1) k(1) by (auto simp: mm_inv_def)
  have inv1: "vm_inv M s1" using inv new k unfolding vm_inv_def by metis
  have at1: "vm_at s1 m' = vm_at s m'" if "m' \<noteq> m" for m' using k that by (simp add: vm_at_def)
  have cut: "v \<noteq> m \<and> vm_mm (vmas s v) = m \<and> cut a b (vmas s v)" if v: "v \<in> set (y # mid)" for v
  proof -
    have "v \<in> set (mmap_link (mms s m))" using v l ms(1) by auto
    then have 1: "v \<noteq> m" "vm_mm (vmas s v) = m" "user_area (vmas s v)" "share_cut_ok a b (vmas s v)"
      using I sh by (auto simp: mm_inv_def mm_ok_def)
    have "v \<noteq> y \<Longrightarrow> vm_end (vmas s y) \<le> vm_start (vmas s v)" using al v ms(1) by auto
    then have "\<not> (vm_start (vmas s v) < a \<and> b < vm_end (vmas s v))" using y(2) ys by fastforce
    then show ?thesis using 1 ys v ms y(1) by (auto simp: cut_def share_cut_ok_def)
  qed
  have zs: "area_at (vmas s) zs c = None" if "c < b" for c using ms(3) that by (force simp: area_at_None covers_def)
  have xz: "area_at (vmas s) xs c = None" if "a \<le> c" for c using xs that by (force simp: area_at_None covers_def)
  have al1: "area_list (vmas s1) (xs @ (y # mid) @ zs)" using al ms(1) k(1) by simp
  obtain s' where s': "unmap_areas m a b (rev (y # mid)) s1 = Some s'"
      "cut_done m a b M D E (\<lambda>c. area_at (vmas s1) (y # mid) c \<noteq> None) s1 s'"
      "\<forall>c. vm_at s' m c = (if a \<le> c \<and> c < b then None else area_at (vmas s1) (xs @ (y # mid) @ zs) c)"
    using unmap_areas_ok [OF inv1 _ m _ s1(4) al1 _ _ ab, of D E] mem pd k cut zs xz by (auto simp: area_at_append)
  have C: "(area_at (vmas s) (y # mid) c \<noteq> None) = (vm_at s m c \<noteq> None)" if "a \<le> c" "c < b" for c
    using zs [of c] xz [of c] that l ms(1) area_at_append [of "vmas s" xs "(y # mid) @ zs" c] area_at_append [of "vmas s" "y # mid" zs c]
    by (auto simp: vm_at_def split: option.splits)
  have "cut_done m a b M D E (\<lambda>c. vm_at s m c \<noteq> None) s s'"
  proof -
    have "page_dir (mms s1 m') = page_dir (mms s m')" for m' using k(3,4) by metis
    moreover have "(a \<le> va \<and> va < b \<and> area_at (vmas s1) (y # mid) va \<noteq> None) = (a \<le> va \<and> va < b \<and> vm_at s m va \<noteq> None)" for va
      using C [of va] k(1) by metis
    ultimately show ?thesis using s'(2) at1 k(2) unfolding cut_done_def by auto
  qed
  moreover have "\<forall>c. vm_at s' m c = (if a \<le> c \<and> c < b then None else vm_at s m c)"
    using s'(3) l ms(1) k(1) by (simp add: vm_at_def)
  ultimately show ?thesis using s1(1) s'(1) by blast
qed

lemma area_at_raised:
  assumes al: "area_list vs (xs @ y # ys)" "area_list vs' (xs @ y # ys)" and same: "\<And>w. w \<in> set (xs @ ys) \<Longrightarrow> vs' w = vs w"
    and y: "vs' y = resized b (vm_end (vs y)) (vs y)"
  shows "area_at vs' (xs @ y # ys) c = (if b \<le> c \<and> c < vm_end (vs y) then Some (backing (vs y) c) else area_at vs (xs @ ys) c)"
    "area_at vs (xs @ y # ys) c = (if covers (vs y) c then Some (backing (vs y) c) else area_at vs (xs @ ys) c)"
    "covers (vs y) c \<Longrightarrow> area_at vs (xs @ ys) c = None"
proof -
  have al0: "area_list vs (xs @ ys)" using al(1) by auto
  show "area_at vs' (xs @ y # ys) c = (if b \<le> c \<and> c < vm_end (vs y) then Some (backing (vs y) c) else area_at vs (xs @ ys) c)"
    using area_at_insert [OF al0 al(2) same] y by simp
  show "area_at vs (xs @ y # ys) c = (if covers (vs y) c then Some (backing (vs y) c) else area_at vs (xs @ ys) c)"
    using area_at_insert [OF al0 al(1)] by simp
  have "y \<notin> set (xs @ ys)" using area_list_distinct [OF al(1)] by auto
  then show "covers (vs y) c \<Longrightarrow> area_at vs (xs @ ys) c = None"
    using covers_unique [OF al(1), of y _ c] by (fastforce simp: area_at_None)
qed

text \<open>A range inside one area: a new area for the part below, the old one for the part above.\<close>

lemma unmap_split_ok:
  assumes inv: "vm_inv M s" and mem: "mem_inv (memory s) D E" and m: "m \<in> M" and pd: "page_dir (mms s m) \<in> D"
    and l: "mmap_link (mms s m) = xs @ y # ys" and y: "vm_start (vmas s y) < a" "b < vm_end (vmas s y)"
    and ns: "\<not> has (vm_flags (vmas s y)) VM_SHARE" and v: "fresh M s v"
    and ab: "USER_ACCESS a b" "a mod PAGE_SIZE = 0" "b mod PAGE_SIZE = 0"
  shows "\<exists>s'. unmap_split m a b y (Some v) s = Some (Inr (), s') \<and> cut_done m a b M D E (\<lambda>c. vm_at s m c \<noteq> None) s s' \<and>
    (\<forall>c. vm_at s' m c = (if a \<le> c \<and> c < b then None else vm_at s m c))"
proof -
  let ?y = "vmas s y"
  have I: "mm_inv (vmas s) m (mms s m)" using inv m by (simp add: vm_inv_def)
  then have ua: "user_area ?y" and al: "area_list (vmas s) (xs @ y # ys)" and vmy: "vm_mm ?y = m"
    using l by (auto simp: mm_inv_def mm_ok_def)
  have u: "USER_ACCESS (vm_start ?y) (vm_end ?y)" "vm_start ?y mod PAGE_SIZE = 0" "vm_end ?y mod PAGE_SIZE = 0" and lt: "a < b"
    using ua ab by (simp_all add: user_area_def USER_ACCESS_def)
  have vn: "v \<notin> set (xs @ y # ys)" using v m l by (auto simp: fresh_def)
  define s1 where s1: "s1 = upd_vma v (\<lambda>vma. vma\<lparr>vm_start := vm_start ?y, vm_end := a, vm_flags := vm_flags ?y\<rparr>) s"
  note c = vma_create_vm [OF inv v s1]
  have cr: "vma_create (vm_start ?y) a (vm_flags ?y) (Some v) s = (Some v, s1)" by (simp add: vma_create_def s1)
  have y1: "vmas s1 y = ?y" using c(10) vn by auto
  have l1: "mmap_link (mms s1 m) = xs @ y # ys" using c(4) l by simp
  define s2 where s2: "s2 = upd_vma y (resized b (vm_end ?y)) s1"
  have sh: "shrunk (vmas s1 y) (resized b (vm_end ?y) (vmas s1 y))" using shrunk_resized [OF ua ab(3) u(3)] y lt y1 by simp
  note d = vm_inv_shrunk [OF c(1) m l1 sh s2]
  have rz: "vma_resize y b (vm_end (vmas s1 y)) s1 = Some s2"
    using vma_resize_run [of b "vm_end ?y" s1 y] ab(3) u(3) y lt y1 s2 by simp
  have v2: "vmas s2 v = vmas s1 v" using d(5) vn by auto
  have rest: "vmas s2 w = vmas s w" if "w \<in> set (xs @ ys)" for w
  proof -
    have "w \<noteq> y" "w \<noteq> v" using that vn area_list_distinct [OF al] by auto
    then show ?thesis using d(5) c(10) by simp
  qed
  have fit: "fits (vmas s2) xs v (y # ys)"
    using al y lt rest c(7,8) v2 d(6) y1 by (force simp: fits_def)
  have ua2: "user_area (vmas s2 v)" using u ab y c(7,8) v2 by (auto simp: user_area_def USER_ACCESS_def)
  have fr2: "fresh M s2 v" using c(2) d(3) by (simp add: fresh_def)
  have l2: "mmap_link (mms s2 m) = xs @ y # ys" using d(3) l1 by simp
  obtain s3 where s3: "insert_vma_struct m v s2 = Some s3" "vm_inv M s3" "mmap_link (mms s3 m) = xs @ v # y # ys" "memory s3 = memory s2"
      "\<forall>m'. page_dir (mms s3 m') = page_dir (mms s2 m')"
      "\<forall>m'\<in>M. \<forall>c. vm_at s3 m' c = (if m' = m \<and> covers (vmas s2 v) c then Some (backing (vmas s2 v) c) else vm_at s2 m' c)"
    using insert_vma_vm [OF d(1) m l2 fit _ ua2] fr2 by blast
  have at3: "vm_at s3 m' = vm_at s m'" if "m' \<in> M" "m' \<noteq> m" for m' using s3(6) d(2) c(3) that by fastforce
  have C: "(a \<le> va \<and> va < b) = (a \<le> va \<and> va < b \<and> vm_at s m va \<noteq> None)" for va
    using y l by (auto simp: vm_at_def area_at_None covers_def)
  have "memory s3 = memory s" "\<forall>m'. page_dir (mms s3 m') = page_dir (mms s m')" using s3(4,5) c(4,5) d(3,4) by simp_all
  then obtain s' where s': "on_memu (unmap_range (page_dir (mms s3 m)) a b) s3 = Some s'" "mms s' = mms s3" "vmas s' = vmas s3"
      "cut_done m a b M D E (\<lambda>c. vm_at s m c \<noteq> None) s s'"
    using unmap_finish [OF mem pd s3(2) _ _ _ ab, of a b "\<lambda>c. vm_at s m c \<noteq> None"] at3 C by blast
  have "vm_at s3 m c = (if a \<le> c \<and> c < b then None else vm_at s m c)" for c
  proof -
    have al2: "area_list (vmas s2) (xs @ y # ys)" using d(1) m l2 by (auto simp: vm_inv_def mm_inv_def mm_ok_def)
    have y2: "vmas s2 y = resized b (vm_end ?y) ?y" using d(6) y1 by simp
    have "covers (vmas s2 v) c = (vm_start ?y \<le> c \<and> c < a)" "backing (vmas s2 v) c = backing ?y c"
      using c(7,8,9) v2 ns by (simp_all add: covers_def backing_def)
    moreover have "vm_at s3 m c = (if covers (vmas s2 v) c then Some (backing (vmas s2 v) c) else vm_at s2 m c)"
      using s3(6) m by simp
    ultimately show ?thesis
      using area_at_raised [of "vmas s" xs y ys "vmas s2" b c, OF al al2 rest y2] y lt l l2 by (auto simp: vm_at_def covers_def)
  qed
  then show ?thesis using cr rz s3(1) s' by (auto simp: unmap_split_def vm_at_def)
qed

lemma mm_unmap_run:
  assumes inv: "vm_inv M s" and mem: "mem_inv (memory s) D E" and m: "m \<in> M" and pd: "page_dir (mms s m) \<in> D" and v: "fresh M s v"
    and a: "a = ROUNDDOWN addr PAGE_SIZE" and b: "b = ROUNDUP (addr + len) PAGE_SIZE" and u: "USER_ACCESS a b"
    and sh: "\<forall>w\<in>set (mmap_link (mms s m)). share_cut_ok a b (vmas s w)"
  shows "\<exists>s'. mm_unmap m addr len (Some v) s = Some (Inr (), s') \<and> cut_done m a b M D E (\<lambda>c. vm_at s m c \<noteq> None) s s' \<and>
    (\<forall>c. vm_at s' m c = (if a \<le> c \<and> c < b then None else vm_at s m c))"
proof -
  have al: "area_list (vmas s) (mmap_link (mms s m))" and m0: "m \<noteq> 0" using inv m by (simp_all add: vm_inv_def mm_inv_def mm_ok_def)
  have ab: "a < b" "a mod PAGE_SIZE = 0" "b mod PAGE_SIZE = 0" using u by (simp_all add: USER_ACCESS_def a b)
  let ?r = "first_above (vmas s) a (mmap_link (mms s m))"
  obtain s1 where s1: "find_vma m a s = Some (?r, s1)" "vm_inv M s1" "vmas s1 = vmas s" "memory s1 = memory s"
    "\<forall>m'. mmap_link (mms s1 m') = mmap_link (mms s m') \<and> page_dir (mms s1 m') = page_dir (mms s m')"
    using find_vma_vm [OF inv m, of a] by blast
  have at: "vm_at s1 m' = vm_at s m'" for m' using vm_at_cong [of s1 s m'] s1 by simp
  have mem1: "mem_inv (memory s1) D E" and pd1: "page_dir (mms s1 m) \<in> D" and v1: "fresh M s1 v"
    using mem pd v s1 by (simp_all add: fresh_def)
  have from1: "cut_done m a b M D E C s s'" if "cut_done m a b M D E C s1 s'" for C s'
    using that s1(4,5) at unfolding cut_done_def by simp
  obtain xs ys where l: "mmap_link (mms s1 m) = xs @ ys" "\<forall>x\<in>set xs. vm_end (vmas s1 x) \<le> a" "\<forall>y\<in>set ys. a < vm_end (vmas s1 y)"
    "?r = list_first ys" using split_at [OF al] s1(3,5) by metis
  have run: "mm_unmap m addr len (Some v) s = (case list_first ys of None \<Rightarrow> Some (Inr (), s1)
       | Some w \<Rightarrow> if b \<le> vm_start (vmas s1 w) then Some (Inr (), s1)
           else if vm_start (vmas s1 w) < a \<and> b < vm_end (vmas s1 w) then unmap_split m a b w (Some v) s1
           else do { (free, s2) \<leftarrow> unmap_collect m b w [] s1; s3 \<leftarrow> unmap_areas m a b free s2; Some (Inr (), s3) })"
    using u s1(1) m0 l(4) unfolding mm_unmap_def a b by (simp add: Let_def)
  have hit: "(case list_first ys of None \<Rightarrow> False | Some w \<Rightarrow> b > vm_start (vmas s1 w)) =
      (\<exists>c. a \<le> c \<and> c < b \<and> vm_at s m c \<noteq> None)"
    using range_free [of "vmas s1" xs ys a b] al l s1(3,5) ab(1) by (simp add: vm_at_def)
  show ?thesis
  proof (cases "case list_first ys of None \<Rightarrow> False | Some w \<Rightarrow> b > vm_start (vmas s1 w)")
    case False
    then have none: "vm_at s m c = None" if "a \<le> c" "c < b" for c using hit that by blast
    have "mm_unmap m addr len (Some v) s = Some (Inr (), s1)" using run False by (auto split: option.splits)
    moreover have "cut_done m a b M D E (\<lambda>c. vm_at s m c \<noteq> None) s s1"
      using s1(2,4,5) mem1 none at by (auto simp: cut_done_def)
    ultimately show ?thesis using none at by simp
  next
    case True
    then obtain y ys' where y: "ys = y # ys'" "vm_start (vmas s1 y) < b" by (cases ys) (auto simp: list_first_def)
    have l1: "mmap_link (mms s1 m) = xs @ y # ys'" using l(1) y(1) by simp
    have sh1: "\<forall>w\<in>set (mmap_link (mms s1 m)). share_cut_ok a b (vmas s1 w)" using sh s1(3,5) by simp
    note common = s1(2) mem1 m pd1 l1
    show ?thesis
    proof (cases "vm_start (vmas s1 y) < a \<and> b < vm_end (vmas s1 y)")
      case True
      have "\<not> has (vm_flags (vmas s1 y)) VM_SHARE" using sh1 l1 True by (auto simp: share_cut_ok_def)
      then obtain s' where "unmap_split m a b y (Some v) s1 = Some (Inr (), s')" "cut_done m a b M D E (\<lambda>c. vm_at s1 m c \<noteq> None) s1 s'"
          "\<forall>c. vm_at s' m c = (if a \<le> c \<and> c < b then None else vm_at s1 m c)"
        using unmap_split_ok [OF common _ _ _ v1 u ab(2,3)] True by blast
      then show ?thesis using run True y at from1 by (auto simp: list_first_def)
    next
      case False
      obtain free s2 s' where "unmap_collect m b y [] s1 = Some (free, s2)" "unmap_areas m a b free s2 = Some s'"
          "cut_done m a b M D E (\<lambda>c. vm_at s1 m c \<noteq> None) s1 s'"
          "\<forall>c. vm_at s' m c = (if a \<le> c \<and> c < b then None else vm_at s1 m c)"
        using unmap_several [OF common l(2) l(3) [unfolded y(1)] y(2) False sh1 u ab(2,3)] by blast
      then show ?thesis using run False y at from1 by (auto simp: list_first_def)
    qed
  qed
qed

text \<open>C1: Unmapping a range of user addresses of an address space returns success; afterwards no address of the page-aligned range is
  mapped, every other address of every address space has its flags and shared memory as before, and exactly the page table entries
  of the addresses that were mapped in the range are gone.  The list, the tree, the cache and the count stay consistent, and so do the
  reference counts of the pages and of the swap entries.  A range that is not a user range is refused without any change.  Shared areas may
  be cut at one end; the range neither splits nor contains one.\<close>

theorem mm_unmap_exact:
  fixes addr len :: u32
  assumes "vm_inv M s" "mem_inv (memory s) D E" "m \<in> M" "page_dir (mms s m) \<in> D" "fresh M s v"
  defines "a \<equiv> ROUNDDOWN addr PAGE_SIZE" and "b \<equiv> ROUNDUP (addr + len) PAGE_SIZE"
  assumes "\<forall>w\<in>set (mmap_link (mms s m)). share_cut_ok a b (vmas s w)"
  shows "\<exists>r s'. mm_unmap m addr len (Some v) s = Some (r, s') \<and> vm_inv M s' \<and> mem_inv (memory s') D E \<and>
    (if USER_ACCESS a b
     then r = Inr () \<and> (\<forall>m'\<in>M. \<forall>c. vm_at s' m' c = (if m' = m \<and> a \<le> c \<and> c < b then None else vm_at s m' c)) \<and>
       (\<forall>d\<in>D. \<forall>c. entry (memory s') d c =
          (if d = page_dir (mms s m) \<and> a \<le> c \<and> c < b \<and> vm_at s m c \<noteq> None then 0 else entry (memory s) d c))
     else r = Inl E_INVAL \<and> s' = s)"
proof (cases "USER_ACCESS a b")
  case False
  then show ?thesis using assms(1,2) unfolding mm_unmap_def a_def b_def by (simp add: Let_def)
next
  case True
  obtain s' where s': "mm_unmap m addr len (Some v) s = Some (Inr (), s')" "cut_done m a b M D E (\<lambda>c. vm_at s m c \<noteq> None) s s'"
    "\<forall>c. vm_at s' m c = (if a \<le> c \<and> c < b then None else vm_at s m c)"
    using mm_unmap_run [OF assms(1-5) a_def [THEN meta_eq_to_obj_eq] b_def [THEN meta_eq_to_obj_eq] True assms(8)] by blast
  have "\<forall>m'\<in>M. \<forall>c. vm_at s' m' c = (if m' = m \<and> a \<le> c \<and> c < b then None else vm_at s m' c)"
    using s'(2,3) by (auto simp: cut_done_def)
  then show ?thesis using s'(1,2) True by (simp add: cut_done_def)
qed

theorem mm_unmap_exact_witness:
  "\<exists>s'. mm_unmap 100 0x00800000 0x1000 (Some 20) example_vm = Some (Inr (), s') \<and> vm_inv {100} s' \<and> mem_inv (memory s') {5} {} \<and>
    vm_at s' 100 0x00800000 = None \<and> vm_at s' 100 0x00801000 = Some (3, None) \<and>
    entry example_mem 5 0x00800000 = 0x3007 \<and> entry (memory s') 5 0x00800000 = 0"
proof -
  have ab: "ROUNDDOWN 0x00800000 PAGE_SIZE = 0x00800000" "ROUNDUP (0x00800000 + 0x1000) PAGE_SIZE = 0x00801000"
    by (simp_all add: ROUNDDOWN_def ROUNDUP_def PAGE_SIZE_def)
  have u: "USER_ACCESS 0x00800000 0x00801000" by (simp add: USER_ACCESS_def USER_BASE_def USER_TOP_def)
  have mem: "mem_inv (memory example_vm) {5} {}" "page_dir (mms example_vm 100) = 5" "memory example_vm = example_mem"
    using example_mem_inv by (simp_all add: example_vm_def)
  have "\<forall>w\<in>set (mmap_link (mms example_vm 100)). share_cut_ok 0x00800000 0x00801000 (vmas example_vm w)"
    by (simp add: example_vm_def example_area_def share_cut_ok_def has_def VM_SHARE_def)
  then have "\<exists>r s'. mm_unmap 100 0x00800000 0x1000 (Some 20) example_vm = Some (r, s') \<and> vm_inv {100} s' \<and> mem_inv (memory s') {5} {} \<and>
      r = Inr () \<and> (\<forall>c. vm_at s' 100 c = (if 0x00800000 \<le> c \<and> c < 0x00801000 then None else vm_at example_vm 100 c)) \<and>
      (\<forall>c. entry (memory s') 5 c = (if 0x00800000 \<le> c \<and> c < 0x00801000 \<and> vm_at example_vm 100 c \<noteq> None then 0 else entry example_mem 5 c))"
    using mm_unmap_exact [OF example_vm_inv mem(1) _ _ example_fresh(1), of 100 "0x00800000" "0x1000"] mem(2,3) u unfolding ab by auto
  moreover have "entry example_mem 5 0x00800000 = 0x3007"
    by (simp add: entry_def slot_def PDX_div PTX_div example_tab example_rd)
  ultimately show ?thesis by (auto simp: example_vm_at)
qed

end
