(* ===== verification/Kswapd.thy ===== *)
theory Kswapd
  imports Vmm
begin

text \<open>
  The reclaiming side of the swap framework (\<^verbatim>\<open>src/kernel/mm/swap.c\<close>): the clock scan that replaces page table entries
  by swap entries, area by area and address space by address space, and one round of the daemon.
\<close>

section \<open>Scanning one area\<close>

text \<open>
  An entry that maps a page: true when it was replaced by the swap entry of the page.  The address a \<^verbatim>\<open>kmalloc\<close> returns for a
  node of a shared memory object is an argument.
\<close>

definition swap_out_entry :: "nat \<Rightarrow> nat \<Rightarrow> u32 \<Rightarrow> ptep \<Rightarrow> nat option \<Rightarrow> 'a vmst_scheme \<Rightarrow> (bool \<times> 'a vmst_scheme) option" where
  "swap_out_entry m v addr x new s = do {
     page \<leftarrow> pte2page (rd (memory s) x) (memory s);
     kassert (\<not> PageReserved (pg (memory s) page));
     if has (rd (memory s) x) PTE_A then
       Some (False, s\<lparr>memory := wr x (rd (memory s) x AND NOT PTE_A) (memory s)\<rparr>)
     else do {
       (ok, s1) \<leftarrow>
         (if \<not> PageSwap (pg (memory s) page) then do {
            (r, s') \<leftarrow> on_mem (swap_page_add page 0) s;
            if \<not> r then Some (False, s')
            else do { s'' \<leftarrow> on_memu (swap_active_list_add page) s'; Some (True, s'') }
          }
          else if has (rd (memory s) x) PTE_D then Some (True, s\<lparr>memory := upd_pg page SetPageDirty (memory s)\<rparr>)
          else Some (True, s));
       if \<not> ok then Some (False, s1)
       else do {
         let entry = pg_index (pg (memory s1) page);
         s2 \<leftarrow> on_memu (swap_duplicate entry) s1;
         let s3 = upd_mm m (\<lambda>mm. mm\<lparr>swap_address := addr + PAGE_SIZE\<rparr>)
                    (s2\<lparr>memory := wr x entry (page_ref_decr page (memory s2))\<rparr>);
         if has (vm_flags (vmas s3 v)) VM_SHARE \<and> pg_ref (pg (memory s3) page) = 1 then do {
           let shmem_addr = addr - vm_start (vmas s3 v) + vm_shmem_off (vmas s3 v);
           (r, s4) \<leftarrow> shmem_get_entry (vm_shmem (vmas s3 v)) shmem_addr False None s3;
           y \<leftarrow> r;
           kassert (rd (memory s4) y \<noteq> 0);
           if has (rd (memory s4) y) PTE_P then do {
             (_, s5) \<leftarrow> shmem_insert_entry (vm_shmem (vmas s3 v)) shmem_addr entry new s4;
             Some (True, s5)
           }
           else Some (True, s4)
         }
         else Some (True, s3)
       }
     }
   }"

partial_function (option) swap_out_loop ::
    "nat \<Rightarrow> nat \<Rightarrow> u32 \<Rightarrow> u32 \<Rightarrow> nat \<Rightarrow> nat \<Rightarrow> nat option \<Rightarrow> 'a vmst_scheme \<Rightarrow> (nat \<times> 'a vmst_scheme) option" where
  "swap_out_loop m v addr end' require free_count new s =
     (if addr < end' \<and> require \<noteq> 0 then do {
        (r, s1) \<leftarrow> on_mem (get_pte (page_dir (mms s m)) addr False) s;
        case r of
          None \<Rightarrow> swap_out_loop m v (ROUNDDOWN (addr + PAGE_SIZE) PAGE_SIZE) end' require free_count new s1
        | Some x \<Rightarrow>
            if has (rd (memory s1) x) PTE_P then do {
              (out, s2) \<leftarrow> swap_out_entry m v addr x new s1;
              if out then swap_out_loop m v (addr + PAGE_SIZE) end' (require - 1) (free_count + 1) new s2
              else swap_out_loop m v (addr + PAGE_SIZE) end' require free_count new s2
            }
            else swap_out_loop m v (addr + PAGE_SIZE) end' require free_count new s1
      }
      else Some (free_count, s))"

definition swap_out_vma :: "nat \<Rightarrow> nat \<Rightarrow> u32 \<Rightarrow> nat \<Rightarrow> nat option \<Rightarrow> 'a vmst_scheme \<Rightarrow> (nat \<times> 'a vmst_scheme) option" where
  "swap_out_vma m v addr require new s =
     (if require = 0 \<or> \<not> (addr \<ge> vm_start (vmas s v) \<and> addr < vm_end (vmas s v)) then Some (0, s)
      else swap_out_loop m v (ROUNDDOWN addr PAGE_SIZE) (ROUNDUP (vm_end (vmas s v)) PAGE_SIZE) require 0 new s)"

section \<open>Scanning one address space\<close>

fun swap_out_areas :: "nat \<Rightarrow> nat \<Rightarrow> nat \<Rightarrow> u32 \<Rightarrow> nat \<Rightarrow> nat \<Rightarrow> nat option \<Rightarrow> 'a vmst_scheme \<Rightarrow> (nat \<times> 'a vmst_scheme) option" where
  "swap_out_areas 0 m v addr require free_count new s = Some (free_count, s)"
| "swap_out_areas (Suc i) m v addr require free_count new s = do {
     (ret, s1) \<leftarrow> swap_out_vma m v addr require new s;
     if require - ret = 0 then Some (free_count + ret, s1)
     else do {
       let l = mmap_link (mms s1 m);
       w \<leftarrow> (case next_of l v of Some w \<Rightarrow> Some w | None \<Rightarrow> list_first l);
       swap_out_areas i m w (vm_start (vmas s1 w)) (require - ret) (free_count + ret) new s1
     }
   }"

definition swap_out_mm :: "nat \<Rightarrow> nat \<Rightarrow> nat option \<Rightarrow> 'a vmst_scheme \<Rightarrow> (nat \<times> 'a vmst_scheme) option" where
  "swap_out_mm m require new s = do {
     kassert (m \<noteq> 0);
     if require = 0 \<or> map_count (mms s m) = 0 then Some (0, s)
     else do {
       kassert (mmap_link (mms s m) \<noteq> []);
       (r, s1) \<leftarrow> find_vma m (swap_address (mms s m)) s;
       (v, addr, s2) \<leftarrow>
         (case r of
            Some v \<Rightarrow> Some (v, swap_address (mms s m), s1)
          | None \<Rightarrow> do {
              v \<leftarrow> list_first (mmap_link (mms s1 m));
              Some (v, 0, upd_mm m (\<lambda>mm. mm\<lparr>swap_address := 0\<rparr>) s1)
            });
       kassert (addr < vm_end (vmas s2 v));
       let addr = (if addr < vm_start (vmas s2 v) then vm_start (vmas s2 v) else addr);
       swap_out_areas (nat (map_count (mms s2 m)) + 1) m v addr require 0 new s2
     }
   }"

section \<open>One round of the daemon\<close>

record kswst = vmst +
  pressure :: int
  process_mm_list :: "nat list"

fun swap_out_rounds :: "nat \<Rightarrow> int \<Rightarrow> nat option \<Rightarrow> 'a kswst_scheme \<Rightarrow> 'a kswst_scheme option" where
  "swap_out_rounds 0 needs new s = Some s"
| "swap_out_rounds (Suc rounds) needs new s =
     (if needs > 0 then do {
        m \<leftarrow> list_first (process_mm_list s);
        let s1 = s\<lparr>process_mm_list := tl (process_mm_list s) @ [m]\<rparr>;
        (n, s2) \<leftarrow> swap_out_mm m (if needs < 32 then nat needs else 32) new s1;
        swap_out_rounds rounds (needs - int n) new s2
      }
      else Some s)"

text \<open>One pass of the loop of \<^verbatim>\<open>kswapd_main\<close> up to its decision: true when the daemon wakes the waiting processes and sleeps.\<close>

definition kswapd_round :: "nat option \<Rightarrow> 'a kswst_scheme \<Rightarrow> (bool \<times> 'a kswst_scheme) option" where
  "kswapd_round new s = do {
     s1 \<leftarrow> (if pressure s > 0 then do {
              kassert (process_mm_list s \<noteq> []);
              swap_out_rounds 16 (i32 (pressure s * 32)) new s
            }
            else Some s);
     (n, s2) \<leftarrow> on_mem page_launder s1;
     s3 \<leftarrow> on_memu refill_inactive_scan s2;
     let p = i32 (pressure s3 - int n);
     Some (if p > 0 then (False, s3\<lparr>pressure := p\<rparr>) else (True, s3\<lparr>pressure := 0\<rparr>))
   }"

end
