(* ===== verification/Spec2Isabelle.thy ===== *)
theory Spec2Isabelle
  imports Klist Kqueue Kstring Default_pmm Bestfit_pmm Buddy_pmm Usem Devs Rbtree Unmap Kswapd
begin

text \<open>
  A verification development of the kernel under \<^verbatim>\<open>src/kernel\<close> and of the library under \<^verbatim>\<open>src/lib\<close> that it uses.

  \<^bold>\<open>The program.\<close>  A kernel for 32-bit x86 machines: physical page managers; page tables, swapping, shared memory and
  address spaces; scheduling classes with timers; wait queues and semaphores; a virtual file system with devices and file
  descriptors.  Address spaces keep their areas in the intrusive lists and in the red-black tree, take page tables and pages from the
  buddy manager and give them back through the swap framework.  Semaphores block and wake processes through wait queues and the scheduler.
  Descriptors reach devices and file systems through inodes.

  \<^bold>\<open>Conventions.\<close>  A failed assertion, a panic, and a call that would sleep until another process acts are the value \<^const>\<open>None\<close>; an
  error code is the left case of a sum.  Registers, addresses, flags and sizes that may wrap are words of their width.  A heap object is an
  address in a store, or a sequence where the code links objects in an intrusive list; \<open>Klist\<close> proves that the pointer operations of the
  lists are those on sequences.  What an allocation returns is an argument,
  and so is the link that \<^verbatim>\<open>exit_sem_queue\<close> reads in an undo record it has freed.  Signed 32-bit results are reduced by \<open>i32\<close>; timer expiry
  times are natural numbers, which the theorem on the timer list shows to fit 32 bits where the code adds them.  Loops that are not structural are \<^verbatim>\<open>partial_function (option)\<close>,
  and the theorems about them show that they return.  The loops with a count as fuel take it from the code: the
  scans over lists and tables use the length, the page scans the counters, the daemon its sixteen rounds.

  \<^bold>\<open>Theories and what they show.\<close>

  \<^item> \<open>Prelude\<close>: integer types, error codes, assertions, rounding, bit operations, signed wrap-around and the entries of linked lists.
  \<^item> \<open>Klist\<close>, \<open>Kqueue\<close>, \<open>Kstring\<close> (\<^verbatim>\<open>src/lib/list.h\<close>, \<^verbatim>\<open>queue.h\<close>, \<^verbatim>\<open>string.c\<close>): the lists implement sequences, the ring buffer is
    a bounded queue, the memory and string routines meet their specifications for every overlap and alignment proved there.
  \<^item> \<open>Pages\<close>, \<open>Default_pmm\<close>, \<open>Bestfit_pmm\<close>, \<open>Buddy_pmm\<close> (\<^verbatim>\<open>src/kernel/mm/*_pmm.c\<close>): the page managers behind one interface.  Along
    every sequence of requests no assertion fails and the blocks handed out are disjoint.
  \<^item> \<open>Sched\<close>, \<open>Sync\<close>, \<open>Usem\<close> (\<^verbatim>\<open>src/kernel/schedule\<close>, \<^verbatim>\<open>src/kernel/sync\<close>): the scheduling classes behind one interface, timers, wait queues,
    kernel and user semaphores.  A reschedule runs a runnable process, timers fire in time, a semaphore of value one is a lock in every
    interleaving, and semaphores are freed with their last reference, provided that nothing reuses the freed undo records while the queue is
    being left.
  \<^item> \<open>Fsbase\<close>, \<open>Vfs\<close>, \<open>Filemap\<close>, \<open>Devs\<close> (\<^verbatim>\<open>src/kernel/fs\<close>, \<^verbatim>\<open>src/kernel/driver/ide.c\<close>): bitmap, I/O buffers, inodes, paths, descriptors and
    devices.  Descriptor tables stay well formed over any file system, and blocks written to the disk are read back.
  \<^item> \<open>Rbtree\<close> (\<^verbatim>\<open>src/kernel/lib/rbtree.c\<close>): insertion and deletion return a red-black tree with exactly the expected nodes in order.
  \<^item> \<open>Paging\<close>, \<open>Refs\<close> (\<^verbatim>\<open>src/kernel/mm/pmm.c\<close>, \<^verbatim>\<open>swap.c\<close>, \<^verbatim>\<open>src/kernel/fs/swap/swapfs.c\<close>, the ranges of \<^verbatim>\<open>vmm.c\<close>): page tables and the swap
    framework.  The invariant says that reference counts of pages and of swap entries are the numbers of entries that refer to them;
    removing the entries of a range keeps it and removes exactly those.
  \<^item> \<open>Shmem\<close>, \<open>Vmm\<close>, \<open>Areas\<close>, \<open>Unmap\<close> (\<^verbatim>\<open>src/kernel/mm/shmem.c\<close>, \<^verbatim>\<open>vmm.c\<close>): shared memory objects and address spaces.  Lookup, mapping and
    unmapping are operations on a map from addresses to flags and shared memory, whichever of cache, tree and list is used, and the check of
    user ranges accepts exactly those whose areas have the right asked for.
  \<^item> \<open>Kswapd\<close> (\<^verbatim>\<open>swap.c\<close>): the clock scan and one round of the daemon, as definitions.

  \<^bold>\<open>Definitions without theorems of their own.\<close>  Copying page tables and address spaces, page faults, growing the heap, swapping in and out, page
  laundering and the shared memory operations are modelled, and the theorems above do not speak about them.  The theorem about unmapping
  assumes that the new area can be allocated and that the range neither contains nor splits a shared area; the second case is where the code
  leaves the new area without its shared memory object.

  \<^bold>\<open>Not modelled.\<close>  Process creation, program loading, exit and waiting (\<^verbatim>\<open>process.c\<close>), system calls and traps, which work on machine
  frames; the simple file system above its bitmap and the file system calls; the slab allocator, which is a parameter; boot code, the constant
  initial page table, consoles, clock and interrupt controller; printing, debugging and the monitor; build tools and user programs; and the
  self-tests inside the modelled files.  Processor translation and caches are not modelled: an address is looked up in the tables.
\<close>

end
